(* ===== verification/Prelude.thy ===== *)
theory Prelude
  imports Main "HOL-Library.Word" "HOL-Library.Multiset"
begin

text \<open>
  What every component of the development shares: the machine types, the thread
  identifiers, transition systems with their reachable states, sums over the program
  points of all threads, the POSIX mutex and condition variable as the library uses
  them, and the interface of a bounded FIFO.
\<close>

section \<open>Collections\<close>

named_theorems step_defs \<open>the primitive state changes the steps of a component are made of\<close>

section \<open>Machine types\<close>

text \<open>\<open>size_t\<close>, \<open>uint64_t\<close> and data or code addresses are 64 bits wide.\<close>

type_synonym size_t = "64 word"
type_synonym addr = "64 word"

text \<open>\<open>ssize_t\<close>, \<open>time_t\<close> and \<open>long\<close> are signed, with 64 bits; \<open>ssize\<close> wraps an integer into their range.\<close>

definition ssize :: "int \<Rightarrow> int" where
  "ssize x = signed_take_bit 63 x"

lemma ssize_id: "- (2 ^ 63) \<le> x \<Longrightarrow> x < 2 ^ 63 \<Longrightarrow> ssize x = x"
  unfolding ssize_def by (rule signed_take_bit_int_eq_self) simp_all

text \<open>The greatest value of a kernel semaphore.\<close>

definition SEM_VALUE_MAX :: nat where
  "SEM_VALUE_MAX = 2 ^ 31 - 1"

text \<open>
  A thread is one of the workers a pool created (\<open>pool->thpool[i]\<close>) or a client thread
  that calls the library. Kernel thread ids have 32 bits, so there are finitely many.
\<close>

datatype tid = Worker "32 word" | Client "32 word"

instantiation tid :: finite
begin
instance
proof
  have u: "(UNIV :: tid set) = range Worker \<union> range Client"
    by (auto intro: tid.exhaust)
  show "finite (UNIV :: tid set)" unfolding u by simp
qed
end

lemma card_tid: "card (UNIV :: tid set) = 2 ^ 33"
proof -
  have u: "(UNIV :: tid set) = range Worker \<union> range Client"
    by (auto intro: tid.exhaust)
  have "card (range Worker \<union> range Client) = card (range Worker) + card (range Client)"
    by (rule card_Un_disjoint) auto
  also have "\<dots> = 2 ^ 32 + 2 ^ 32"
    by (simp add: card_image inj_on_def card_word)
  finally show ?thesis using u by simp
qed

text \<open>
  The error numbers the library reports, and what a call gives back: nothing, an
  \<open>int\<close>, \<open>-1\<close> together with an \<open>errno\<close>, or a \<open>size_t\<close>.
\<close>

datatype errno = EINVAL | ENOMEM | EAGAIN | EINTR | ETIMEDOUT | EOVERFLOW | Errno int

datatype ret = RVoid | RInt int | RErr errno | RSize size_t

section \<open>Transition systems\<close>

text \<open>
  A component is a predicate of initial states and a partial step function: \<open>nxt e s\<close>
  is the state after event \<open>e\<close>, or \<open>None\<close> when the event is not enabled. A run
  executes a list of events, so that concrete schedules evaluate.
\<close>

inductive reach :: "('s \<Rightarrow> bool) \<Rightarrow> ('e \<Rightarrow> 's \<Rightarrow> 's option) \<Rightarrow> 's \<Rightarrow> bool"
  for init :: "'s \<Rightarrow> bool" and nxt :: "'e \<Rightarrow> 's \<Rightarrow> 's option" where
  reach_init: "init s \<Longrightarrow> reach init nxt s"
| reach_step: "reach init nxt s \<Longrightarrow> nxt e s = Some s' \<Longrightarrow> reach init nxt s'"

fun run :: "('e \<Rightarrow> 's \<Rightarrow> 's option) \<Rightarrow> 'e list \<Rightarrow> 's \<Rightarrow> 's option" where
  "run nxt [] s = Some s"
| "run nxt (e # es) s = (case nxt e s of None \<Rightarrow> None | Some s' \<Rightarrow> run nxt es s')"

lemma reach_run: "run nxt es s = Some s' \<Longrightarrow> reach init nxt s \<Longrightarrow> reach init nxt s'"
proof (induction es arbitrary: s)
  case (Cons e es)
  from Cons.prems(1) obtain u where u: "nxt e s = Some u" "run nxt es u = Some s'"
    by (auto split: option.splits)
  from Cons.prems(2) u(1) have "reach init nxt u" by (rule reach_step)
  with u(2) show ?case by (rule Cons.IH)
qed simp

lemma run_append:
  "run nxt (xs @ ys) s = (case run nxt xs s of None \<Rightarrow> None | Some u \<Rightarrow> run nxt ys u)"
  by (induction xs arbitrary: s) (auto split: option.splits)

text \<open>The contract of a safety proof: an invariant that holds initially and is kept.\<close>

locale safety =
  fixes init :: "'s \<Rightarrow> bool" and nxt :: "'e \<Rightarrow> 's \<Rightarrow> 's option" and inv :: "'s \<Rightarrow> bool"
  assumes inv_init: "init s \<Longrightarrow> inv s"
    and inv_next: "inv s \<Longrightarrow> nxt e s = Some s' \<Longrightarrow> inv s'"
begin

lemma reach_inv: "reach init nxt s \<Longrightarrow> inv s"
  by (induction rule: reach.induct) (auto intro: inv_init inv_next)

lemma run_inv: "inv s \<Longrightarrow> run nxt es s = Some s' \<Longrightarrow> inv s'"
  by (induction es arbitrary: s) (auto split: option.splits intro: inv_next)

end

text \<open>
  Two-state facts over a run: when every step from a good state keeps the state good and
  keeps an observation unchanged, so does the whole run.
\<close>

locale frozen_observation =
  fixes nxt :: "'e \<Rightarrow> 's \<Rightarrow> 's option" and allowed :: "'e \<Rightarrow> bool"
    and good :: "'s \<Rightarrow> bool" and obs :: "'s \<Rightarrow> 'o"
  assumes good_next: "good s \<Longrightarrow> allowed e \<Longrightarrow> nxt e s = Some s' \<Longrightarrow> good s'"
    and obs_next: "good s \<Longrightarrow> allowed e \<Longrightarrow> nxt e s = Some s' \<Longrightarrow> obs s' = obs s"
begin

lemma run_frozen:
  "good s \<Longrightarrow> list_all allowed es \<Longrightarrow> run nxt es s = Some s' \<Longrightarrow> good s' \<and> obs s' = obs s"
proof (induction es arbitrary: s)
  case (Cons e es)
  from Cons.prems obtain u where u: "nxt e s = Some u" "run nxt es u = Some s'"
    by (auto split: option.splits)
  with Cons.prems have "good u" "obs u = obs s"
    by (auto intro: good_next obs_next)
  with Cons.IH[of u] u(2) Cons.prems(2) show ?case by simp
qed simp

end

text \<open>
  A bound on the steps one thread makes: an amount of fuel that every step of that thread
  uses up and no other step refills. When the thread can only move while it has fuel, the
  fuel bounds the number of its steps.
\<close>

locale draining_steps =
  fixes nxt :: "'e \<Rightarrow> 's \<Rightarrow> 's option" and allowed :: "'e \<Rightarrow> bool" and mine :: "'e \<Rightarrow> bool"
    and good :: "'s \<Rightarrow> bool" and fuel :: "'s \<Rightarrow> nat"
  assumes stays_good: "good s \<Longrightarrow> allowed e \<Longrightarrow> nxt e s = Some s' \<Longrightarrow> good s'"
    and fuel_mine: "good s \<Longrightarrow> allowed e \<Longrightarrow> mine e \<Longrightarrow> nxt e s = Some s' \<Longrightarrow> fuel s' \<le> fuel s - 1"
    and fuel_other: "good s \<Longrightarrow> allowed e \<Longrightarrow> \<not> mine e \<Longrightarrow> nxt e s = Some s' \<Longrightarrow> fuel s' \<le> fuel s"
begin

lemma run_drains:
  "good s \<Longrightarrow> list_all allowed es \<Longrightarrow> run nxt es s = Some s' \<Longrightarrow>
    good s' \<and> fuel s' \<le> fuel s - length (filter mine es)"
proof (induction es arbitrary: s)
  case (Cons e es)
  from Cons.prems obtain u where u: "nxt e s = Some u" "run nxt es u = Some s'"
    by (auto split: option.splits)
  have "allowed e" "list_all allowed es" using Cons.prems(2) by simp_all
  with Cons.IH[OF stays_good] u Cons.prems(1) have "good s' \<and> fuel s' \<le> fuel u - length (filter mine es)"
    by blast
  moreover have "fuel u \<le> fuel s - of_bool (mine e)"
    using fuel_mine[of s e u] fuel_other[of s e u] u Cons.prems(1) \<open>allowed e\<close> by (cases "mine e") auto
  ultimately show ?case by (auto split: if_splits)
qed simp

end

locale bounded_steps = draining_steps +
  assumes fuel_needed: "good s \<Longrightarrow> allowed e \<Longrightarrow> mine e \<Longrightarrow> nxt e s = Some s' \<Longrightarrow> 0 < fuel s"
begin

lemma run_fuel:
  "good s \<Longrightarrow> list_all allowed es \<Longrightarrow> run nxt es s = Some s' \<Longrightarrow>
    good s' \<and> length (filter mine es) + fuel s' \<le> fuel s"
proof (induction es arbitrary: s)
  case (Cons e es)
  from Cons.prems obtain u where u: "nxt e s = Some u" "run nxt es u = Some s'"
    by (auto split: option.splits)
  have "allowed e" "list_all allowed es" using Cons.prems(2) by simp_all
  with Cons.IH[OF stays_good] u Cons.prems(1) have "good s' \<and> length (filter mine es) + fuel s' \<le> fuel u"
    by blast
  moreover have "of_bool (mine e) + fuel u \<le> fuel s"
    using fuel_mine[of s e u] fuel_other[of s e u] fuel_needed[of s e u] u Cons.prems(1) \<open>allowed e\<close>
    by (cases "mine e") auto
  ultimately show ?case by (auto split: if_splits)
qed simp

text \<open>Hence a run of such steps can be continued until none of them is possible.\<close>

lemma settles:
  "good s \<Longrightarrow> \<exists>es s'. list_all (\<lambda>e. allowed e \<and> mine e) es \<and> run nxt es s = Some s' \<and>
    (\<forall>e. allowed e \<and> mine e \<longrightarrow> nxt e s' = None)"
proof (induction "fuel s" arbitrary: s rule: less_induct)
  case less
  show ?case
  proof (cases "\<exists>e s'. allowed e \<and> mine e \<and> nxt e s = Some s'")
    case True
    then obtain e u where e: "allowed e" "mine e" "nxt e s = Some u" by blast
    with less.prems have "fuel u < fuel s" "good u"
      using fuel_mine[of s e u] fuel_needed[of s e u] stays_good[of s e u] by auto
    with less.hyps[of u] obtain es s' where "list_all (\<lambda>e. allowed e \<and> mine e) es" "run nxt es u = Some s'"
      "\<forall>e. allowed e \<and> mine e \<longrightarrow> nxt e s' = None" by blast
    with e show ?thesis by (intro exI[of _ "e # es"] exI[of _ s']) simp
  next
    case False
    then have "\<forall>e. allowed e \<and> mine e \<longrightarrow> nxt e s = None" by (meson not_Some_eq)
    then show ?thesis by (intro exI[of _ "[]"] exI[of _ s]) simp
  qed
qed

end

text \<open>
  A simulation that is a function: states and events of one system map to those of another,
  step by step, enabled or not; so do whole runs.
\<close>

locale functional_simulation =
  fixes nxt :: "'e \<Rightarrow> 's \<Rightarrow> 's option" and nxt' :: "'f \<Rightarrow> 't \<Rightarrow> 't option"
    and event :: "'e \<Rightarrow> 'f" and abs :: "'s \<Rightarrow> 't"
  assumes step_sim: "nxt' (event e) (abs s) = map_option abs (nxt e s)"
begin

lemma run_sim: "run nxt' (map event es) (abs s) = map_option abs (run nxt es s)"
  by (induction es arbitrary: s) (auto simp: step_sim split: option.splits)

end

text \<open>A step that may be disabled, read backwards.\<close>

lemma Some_map_option: "Some y = map_option f x \<longleftrightarrow> (\<exists>z. x = Some z \<and> y = f z)"
  by (cases x) auto

section \<open>Sums over the threads\<close>

lemma card_words_below:
  assumes "n \<le> 2 ^ LENGTH('a)"
  shows "card {w :: 'a::len word. unat w < n} = n"
proof -
  have "unat ` {w :: 'a word. unat w < n} = {..<n}"
  proof
    show "{..<n} \<subseteq> unat ` {w :: 'a word. unat w < n}"
    proof
      fix k assume "k \<in> {..<n}"
      moreover from this assms have "unat (of_nat k :: 'a word) = k"
        by (simp add: unsigned_of_nat take_bit_nat_eq_self)
      ultimately show "k \<in> unat ` {w :: 'a word. unat w < n}" by (intro image_eqI[of _ _ "of_nat k"]) simp_all
    qed
  qed auto
  moreover have "inj_on unat {w :: 'a word. unat w < n}" by (simp add: inj_on_def word_unat_eq_iff)
  ultimately show ?thesis using card_image by fastforce
qed

text \<open>\<open>tsum g f\<close> adds \<open>g\<close> over the program points \<open>f\<close> of all threads.\<close>

definition tsum :: "('p \<Rightarrow> 'm) \<Rightarrow> ('t::finite \<Rightarrow> 'p) \<Rightarrow> 'm::comm_monoid_add" where
  "tsum g f = (\<Sum>t\<in>UNIV. g (f t))"

lemma tsum_split: "tsum g f = g (f i) + (\<Sum>t\<in>UNIV - {i}. g (f t))"
  unfolding tsum_def by (rule sum.remove) auto

lemma tsum_upd: "tsum g (f(i := x)) + g (f i) = tsum g f + g x"
proof -
  have "(\<Sum>t\<in>UNIV - {i}. g ((f(i := x)) t)) = (\<Sum>t\<in>UNIV - {i}. g (f t))"
    by (rule sum.cong) auto
  then show ?thesis
    by (simp add: tsum_split[of g "f(i := x)" i] tsum_split[of g f i] ac_simps)
qed

lemma tsum_upd_eq:
  fixes g :: "'p \<Rightarrow> 'm::cancel_comm_monoid_add"
  assumes "g (f i) = g x"
  shows "tsum g (f(i := x)) = tsum g f"
  using tsum_upd[of g f i x] assms by simp

lemma tsum_upd_add:
  fixes g :: "'p \<Rightarrow> 'm::cancel_comm_monoid_add"
  assumes "g x = g (f i) + d"
  shows "tsum g (f(i := x)) = tsum g f + d"
proof -
  have "tsum g (f(i := x)) + g (f i) = (tsum g f + d) + g (f i)"
    using tsum_upd[of g f i x] assms by (simp add: ac_simps)
  then show ?thesis by simp
qed

lemma tsum_upd_sub:
  fixes g :: "'p \<Rightarrow> 'm::cancel_comm_monoid_add"
  assumes "g (f i) = g x + d"
  shows "tsum g (f(i := x)) + d = tsum g f"
proof -
  have "(tsum g (f(i := x)) + d) + g x = tsum g f + g x"
    using tsum_upd[of g f i x] assms by (simp add: ac_simps)
  then show ?thesis by simp
qed

lemma tsum_const_zero: "(\<And>t. g (f t) = 0) \<Longrightarrow> tsum g f = 0"
  by (simp add: tsum_def)

lemma tsum_nat_ge: "(g (f i) :: nat) \<le> tsum g f"
  by (simp add: tsum_split[of g f i])

lemma tsum_nat_zero: "tsum g f = (0::nat) \<longleftrightarrow> (\<forall>t. g (f t) = 0)"
  by (simp add: tsum_def)

lemma tsum_of_bool: "tsum (\<lambda>p. of_bool (P p)) f = card {t. P (f t)}"
  by (simp add: tsum_def of_bool_def sum.If_cases)

lemma tsum_of_bool_le: "tsum (\<lambda>p. of_bool (P p) :: nat) (f :: 't::finite \<Rightarrow> 'p) \<le> CARD('t)"
  unfolding tsum_of_bool by (rule card_mono) auto

section \<open>Mutexes and condition variables\<close>

text \<open>
  A mutex is its owner, a condition variable the set of threads blocked on it.
  \<open>pthread_cond_signal\<close> wakes one blocked thread, which one the scheduler chooses
  (the argument \<open>v\<close>), and does nothing when none is blocked; \<open>pthread_cond_broadcast\<close>
  wakes all of them. A woken thread must take the mutex again before
  \<open>pthread_cond_wait\<close> returns. Any blocked thread may also wake without a signal.
\<close>

definition cond_signal :: "'t \<Rightarrow> 't set \<Rightarrow> 't set option" where
  "cond_signal v W = (if W = {} then Some {} else if v \<in> W then Some (W - {v}) else None)"

definition cond_broadcast :: "'t set \<Rightarrow> 't set" where
  "cond_broadcast W = {}"

lemma cond_signal_cases:
  assumes "cond_signal v W = Some W'"
  obtains "W = {}" "W' = {}" | "v \<in> W" "W' = W - {v}"
  using assms by (auto simp: cond_signal_def split: if_splits)

lemma cond_signal_subset: "cond_signal v W = Some W' \<Longrightarrow> W' \<subseteq> W"
  by (auto simp: cond_signal_def split: if_splits)

lemma cond_signal_enabled: "\<exists>v W'. cond_signal v W = Some W'"
  by (cases "W = {}") (auto simp: cond_signal_def)

section \<open>Bounded FIFO\<close>

text \<open>
  The promise of a bounded queue to its clients: an offer fails exactly when the queue
  is full and appends otherwise; the front is the oldest element and advancing drops it.
\<close>

locale bounded_fifo =
  fixes ok :: "'q \<Rightarrow> bool" and items :: "'q \<Rightarrow> 'a list" and cap :: "'q \<Rightarrow> nat"
    and offer :: "'a \<Rightarrow> 'q \<Rightarrow> 'q option" and front :: "'q \<Rightarrow> 'a" and advance :: "'q \<Rightarrow> 'q"
  assumes offer_None: "ok q \<Longrightarrow> offer x q = None \<longleftrightarrow> length (items q) = cap q"
    and offer_items: "ok q \<Longrightarrow> offer x q = Some q' \<Longrightarrow> items q' = items q @ [x]"
    and offer_ok: "ok q \<Longrightarrow> offer x q = Some q' \<Longrightarrow> ok q'"
    and offer_cap: "ok q \<Longrightarrow> offer x q = Some q' \<Longrightarrow> cap q' = cap q"
    and front_items: "ok q \<Longrightarrow> items q \<noteq> [] \<Longrightarrow> front q = hd (items q)"
    and advance_items: "ok q \<Longrightarrow> items q \<noteq> [] \<Longrightarrow> items (advance q) = tl (items q)"
    and advance_ok: "ok q \<Longrightarrow> items q \<noteq> [] \<Longrightarrow> ok (advance q)"
    and advance_cap: "cap (advance q) = cap q"
    and items_cap: "ok q \<Longrightarrow> length (items q) \<le> cap q"
begin

text \<open>
  The history argument of every client: what was put in is what was taken out, followed
  by what the queue still holds.
\<close>

lemma history_offer:
  "ok q \<Longrightarrow> sub = tak @ items q \<Longrightarrow> offer x q = Some q' \<Longrightarrow> sub @ [x] = tak @ items q'"
  by (simp add: offer_items)

lemma history_take:
  "ok q \<Longrightarrow> sub = tak @ items q \<Longrightarrow> items q \<noteq> [] \<Longrightarrow>
    sub = (tak @ [front q]) @ items (advance q)"
  by (simp add: front_items advance_items)

end

end
