(* ===== verification/Ring.thy ===== *)
theory Ring
  imports Prelude
begin

text \<open>
  The task queue of the locking pool: the fields \<open>task_queue\<close>, \<open>queue_size\<close>,
  \<open>queue_count\<close>, \<open>head\<close> and \<open>tail\<close> of \<open>struct thpool\<close> in
  \<open>src/threads/thpool.c\<close>, and the statements of the critical sections that read and
  write them. The indices are 64-bit words, as in the code. The abstraction
  \<open>ring_items\<close> reads the queue as a list, and the operations refine the list queue.
\<close>

section \<open>Data\<close>

record task_t =
  task_function :: addr
  task_arg :: addr

record ring =
  task_queue :: "task_t list"
  queue_size :: size_t
  queue_count :: size_t
  head :: size_t
  tail :: size_t

section \<open>Operations\<close>

text \<open>The queue as \<open>thpool_create\<close> sets it up, over an array with unspecified contents.\<close>

definition ring_new :: "task_t list \<Rightarrow> size_t \<Rightarrow> ring" where
  "ring_new mem n = \<lparr>task_queue = mem, queue_size = n, queue_count = 0, head = 0, tail = 0\<rparr>"

definition ring_full :: "ring \<Rightarrow> bool" where
  "ring_full q \<longleftrightarrow> queue_count q = queue_size q"

definition ring_put :: "task_t \<Rightarrow> ring \<Rightarrow> ring" where
  "ring_put t q = q\<lparr>task_queue := (task_queue q)[unat (tail q) := t],
     tail := (tail q + 1) mod queue_size q,
     queue_count := queue_count q + 1\<rparr>"

definition ring_offer :: "task_t \<Rightarrow> ring \<Rightarrow> ring option" where
  "ring_offer t q = (if ring_full q then None else Some (ring_put t q))"

definition ring_front :: "ring \<Rightarrow> task_t" where
  "ring_front q = \<lparr>task_function = task_function (task_queue q ! unat (head q)),
     task_arg = task_arg (task_queue q ! unat (head q))\<rparr>"

definition ring_advance :: "ring \<Rightarrow> ring" where
  "ring_advance q = q\<lparr>head := (head q + 1) mod queue_size q,
     queue_count := queue_count q - 1\<rparr>"

section \<open>Well-formedness and the list it stands for\<close>

definition ring_ok :: "ring \<Rightarrow> bool" where
  "ring_ok q \<longleftrightarrow> 0 < unat (queue_size q) \<and> length (task_queue q) = unat (queue_size q) \<and>
     unat (head q) < unat (queue_size q) \<and> unat (queue_count q) \<le> unat (queue_size q) \<and>
     unat (tail q) = (unat (head q) + unat (queue_count q)) mod unat (queue_size q)"

definition ring_items :: "ring \<Rightarrow> task_t list" where
  "ring_items q = map (\<lambda>k. task_queue q ! ((unat (head q) + k) mod unat (queue_size q)))
     [0..<unat (queue_count q)]"

definition ring_cap :: "ring \<Rightarrow> nat" where
  "ring_cap q = unat (queue_size q)"

section \<open>Index arithmetic\<close>

text \<open>An index is below the size, so adding one cannot wrap around at 64 bits.\<close>

lemma unat_plus_one: "unat x < unat y \<Longrightarrow> unat (x + 1) = unat x + 1"
  for x y :: size_t
proof -
  assume less: "unat x < unat y"
  have "unat y < 2 ^ 64" using unsigned_less[of y, where 'a = nat] by simp
  with less show "unat (x + 1) = unat x + 1" by (simp add: unat_word_ariths)
qed

text \<open>The thread handles below \<open>k + 1\<close> are those below \<open>k\<close> and handle \<open>k\<close>.\<close>

lemma handle_below_next:
  fixes k n :: size_t and w :: "32 word"
  assumes "k < n" and "unat n \<le> 2 ^ 32" and "unat w < unat (k + 1)"
  shows "unat w < unat k \<or> w = ucast k"
proof -
  have k: "unat k < unat n" using assms(1) by (simp add: word_less_nat_alt)
  then have "unat (k + 1) = unat k + 1" by (rule unat_plus_one)
  moreover have "unat (ucast k :: 32 word) = unat k"
    using k assms(2) by (simp add: unsigned_ucast_eq take_bit_nat_eq_self)
  ultimately show ?thesis using assms(3) by (auto simp: word_unat_eq_iff less_Suc_eq)
qed

lemma unat_next_index:
  "unat i < unat n \<Longrightarrow> unat ((i + 1) mod n :: size_t) = (unat i + 1) mod unat n"
  by (simp add: unat_mod unat_plus_one)

lemma rotate_index: "h < n \<Longrightarrow> k \<le> n \<Longrightarrow> (h + k) mod n = (if h + k < n then h + k else h + k - n)"
  for h n k :: nat
  by (auto simp: le_mod_geq)

lemma rotate_index_advance: "0 < c \<Longrightarrow> ((h + 1) mod n + (c - 1)) mod n = (h + c) mod n"
  for h n c :: nat
  by (cases c) (simp_all add: mod_simps)

lemma rotate_index_neq: "h < n \<Longrightarrow> k < c \<Longrightarrow> c < n \<Longrightarrow> (h + k) mod n \<noteq> (h + c) mod n"
  for h n k c :: nat
  by (auto simp: rotate_index)

section \<open>The ring refines the list queue\<close>

lemma ring_items_length [simp]: "length (ring_items q) = unat (queue_count q)"
  by (simp add: ring_items_def)

lemma ring_items_empty: "ring_items q = [] \<longleftrightarrow> queue_count q = 0"
  by (simp add: ring_items_def unat_eq_zero)

lemma ring_new_ok: "length mem = unat n \<Longrightarrow> n \<noteq> 0 \<Longrightarrow> ring_ok (ring_new mem n)"
  by (simp add: ring_ok_def ring_new_def unat_gt_0)

lemma ring_new_items [simp]: "ring_items (ring_new mem n) = []"
  by (simp add: ring_items_def ring_new_def)

lemma ring_new_cap [simp]: "ring_cap (ring_new mem n) = unat n"
  by (simp add: ring_cap_def ring_new_def)

lemma ring_full_length: "ring_full q \<longleftrightarrow> length (ring_items q) = ring_cap q"
  by (simp add: ring_full_def ring_cap_def word_unat_eq_iff)

lemma ring_count_less: "ring_ok q \<Longrightarrow> \<not> ring_full q \<Longrightarrow> unat (queue_count q) < unat (queue_size q)"
  by (auto simp: ring_ok_def ring_full_def le_less word_unat_eq_iff)

lemma ring_put_sel [simp]:
  "task_queue (ring_put t q) = (task_queue q)[unat (tail q) := t]"
  "queue_size (ring_put t q) = queue_size q" "head (ring_put t q) = head q"
  "tail (ring_put t q) = (tail q + 1) mod queue_size q"
  "queue_count (ring_put t q) = queue_count q + 1"
  by (simp_all add: ring_put_def)

lemma ring_advance_sel [simp]:
  "task_queue (ring_advance q) = task_queue q" "queue_size (ring_advance q) = queue_size q"
  "tail (ring_advance q) = tail q" "head (ring_advance q) = (head q + 1) mod queue_size q"
  "queue_count (ring_advance q) = queue_count q - 1"
  by (simp_all add: ring_advance_def)

lemma ring_put_ok:
  assumes ok: "ring_ok q" and room: "\<not> ring_full q"
  shows "ring_ok (ring_put t q)"
proof -
  have c: "unat (queue_count q + 1) = unat (queue_count q) + 1"
    using ring_count_less[OF ok room] by (rule unat_plus_one)
  have t: "unat (tail q) < unat (queue_size q)"
    using ok by (simp add: ring_ok_def)
  show ?thesis
    using ok ring_count_less[OF ok room]
    by (simp add: ring_ok_def c unat_next_index[OF t] mod_simps)
qed

lemma ring_put_items:
  assumes ok: "ring_ok q" and room: "\<not> ring_full q"
  shows "ring_items (ring_put t q) = ring_items q @ [t]"
proof -
  have c: "unat (queue_count q + 1) = unat (queue_count q) + 1"
    using ring_count_less[OF ok room] by (rule unat_plus_one)
  have less: "unat (queue_count q) < unat (queue_size q)"
    by (rule ring_count_less[OF ok room])
  then have neq: "(unat (head q) + k) mod unat (queue_size q) \<noteq>
      (unat (head q) + unat (queue_count q)) mod unat (queue_size q)"
    if "k < unat (queue_count q)" for k
    using ok that by (intro rotate_index_neq) (auto simp: ring_ok_def)
  show ?thesis
    using ok less neq[THEN not_sym] by (auto simp: ring_items_def ring_ok_def c)
qed

lemma ring_advance_ok:
  assumes ok: "ring_ok q" and ne: "queue_count q \<noteq> 0"
  shows "ring_ok (ring_advance q)"
proof -
  have h: "unat (head q) < unat (queue_size q)" and c: "0 < unat (queue_count q)"
    using ok ne by (auto simp: ring_ok_def unat_gt_0)
  show ?thesis
    using ok ne c rotate_index_advance[OF c, of "unat (head q)" "unat (queue_size q)"]
    by (auto simp: ring_ok_def unat_next_index[OF h] unat_minus_one)
qed

lemma ring_advance_items:
  assumes ok: "ring_ok q" and ne: "queue_count q \<noteq> 0"
  shows "ring_items q = ring_front q # ring_items (ring_advance q)"
proof -
  have h: "unat (head q) < unat (queue_size q)" and c: "0 < unat (queue_count q)"
    using ok ne by (auto simp: ring_ok_def unat_gt_0)
  have "[0..<unat (queue_count q)] = 0 # map Suc [0..<unat (queue_count q) - 1]"
    using c by (simp add: map_Suc_upt upt_conv_Cons)
  then show ?thesis
    using h ne
    by (simp add: ring_items_def ring_front_def unat_next_index[OF h] unat_minus_one
        mod_simps)
qed

interpretation task_ring: bounded_fifo ring_ok ring_items ring_cap ring_offer ring_front ring_advance
proof
  fix q :: ring and x q'
  assume ok: "ring_ok q"
  show "ring_offer x q = None \<longleftrightarrow> length (ring_items q) = ring_cap q"
    by (simp add: ring_offer_def ring_full_length)
  show "length (ring_items q) \<le> ring_cap q"
    using ok by (simp add: ring_ok_def ring_cap_def)
  show "ring_items q' = ring_items q @ [x]" and "ring_ok q'" and "ring_cap q' = ring_cap q"
    if "ring_offer x q = Some q'"
    using that ok ring_put_items[OF ok, of x] ring_put_ok[OF ok, of x]
    by (auto simp: ring_offer_def ring_cap_def split: if_splits)
  assume "ring_items q \<noteq> []"
  then have ne: "queue_count q \<noteq> 0" by (simp add: ring_items_empty)
  show "ring_front q = hd (ring_items q)" and "ring_items (ring_advance q) = tl (ring_items q)"
    and "ring_ok (ring_advance q)"
    using ring_advance_items[OF ok ne] ring_advance_ok[OF ok ne] by simp_all
next
  show "ring_cap (ring_advance q) = ring_cap q" for q
    by (simp add: ring_cap_def)
qed

end
