(* ===== verification/Thpool.thy ===== *)
theory Thpool
  imports Ring
begin

text \<open>
  The locking thread pool of \<open>src/threads/thpool.c\<close> as a concurrent program. Every
  function of the API and the background worker is a step function over its own program
  points, one step per statement that touches shared state: an atomic access to
  \<open>shutdown\<close>, \<open>hold\<close> or \<open>running_count\<close>, a mutex or condition variable call, or the
  statements of a critical section on the fields the mutex protects. Any thread may run
  between two steps. Atomic accesses are taken as sequentially consistent.
\<close>

section \<open>State\<close>

text \<open>
  \<open>struct thpool\<close>, and what the operating system knows of its threads: which workers
  have returned and which have been joined. The last fields are history: the tasks
  accepted, dequeued and run to completion, in order, and how many had been accepted when
  the shutdown flag was first set.
\<close>

record pool =
  shutdown :: int
  hold :: int
  running_count :: size_t
  lock :: "tid option"
  notify :: "tid set"
  notify_empty :: "tid set"
  thread_count :: size_t
  queue :: ring
  exited :: "tid set"
  joined :: "tid set"
  joined_twice :: bool
  freed :: bool
  submitted :: "task_t list"
  taken :: "task_t list"
  finished :: "task_t list"
  drain_mark :: "nat option"

type_synonym 'p outcome = "(pool \<times> ('p + ret)) option"

text \<open>\<open>pthread_mutex_lock\<close> blocks while the mutex is owned; unlocking frees it.\<close>

definition acquire :: "tid \<Rightarrow> pool \<Rightarrow> 'p \<Rightarrow> 'p outcome" where
  "acquire i s p = (if lock s = None then Some (s\<lparr>lock := Some i\<rparr>, Inl p) else None)"

definition release :: "pool \<Rightarrow> pool" where
  "release s = s\<lparr>lock := None\<rparr>"

definition signal_notify :: "tid \<Rightarrow> pool \<Rightarrow> pool option" where
  "signal_notify v s = map_option (\<lambda>W. s\<lparr>notify := W\<rparr>) (cond_signal v (notify s))"

definition signal_empty :: "tid \<Rightarrow> pool \<Rightarrow> pool option" where
  "signal_empty v s = map_option (\<lambda>W. s\<lparr>notify_empty := W\<rparr>) (cond_signal v (notify_empty s))"

section \<open>Operations on the queue under the mutex\<close>

text \<open>Lines 152 to 154 (and 179 to 181): the task goes in at the tail.\<close>

definition enqueue :: "task_t \<Rightarrow> pool \<Rightarrow> pool" where
  "enqueue t s = s\<lparr>queue := ring_put t (queue s), submitted := submitted s @ [t]\<rparr>"

text \<open>Lines 277 to 282 (and 337 to 342): the front task comes out at the head.\<close>

definition dequeue :: "pool \<Rightarrow> task_t \<times> pool" where
  "dequeue s = (let t = ring_front (queue s) in
     (t, s\<lparr>queue := ring_advance (queue s), taken := taken s @ [t]\<rparr>))"

text \<open>The task's own code runs outside the pool; the history records that it returned.\<close>

definition run_task :: "task_t \<Rightarrow> pool \<Rightarrow> pool" where
  "run_task t s = s\<lparr>finished := finished s @ [t]\<rparr>"

definition add_running :: "pool \<Rightarrow> pool" where
  "add_running s = s\<lparr>running_count := running_count s + 1\<rparr>"

definition sub_running :: "pool \<Rightarrow> pool" where
  "sub_running s = s\<lparr>running_count := running_count s - 1\<rparr>"

text \<open>\<open>thpool_active_tasks\<close> and the sum \<open>thpool_total_tasks\<close> computes under the mutex.\<close>

definition active_tasks :: "pool \<Rightarrow> size_t" where
  "active_tasks s = running_count s"

definition total_tasks :: "pool \<Rightarrow> size_t" where
  "total_tasks s = running_count s + queue_count (queue s)"

section \<open>The background worker\<close>

datatype wpc = W_Lock | W_Test | W_Active | W_NotifyEmpty | W_Shutdown | W_Exit | W_Wait
  | W_Blocked | W_Hold | W_HoldUnlock | W_Sleep | W_Inc | W_Take | W_Unlock task_t
  | W_Run task_t | W_Dec

fun worker_step :: "tid \<Rightarrow> tid \<Rightarrow> wpc \<Rightarrow> pool \<Rightarrow> wpc outcome" where
  "worker_step i v W_Lock s = acquire i s W_Test"
| "worker_step i v W_Test s =
     Some (s, Inl (if queue_count (queue s) = 0 then W_Active else W_Hold))"
| "worker_step i v W_Active s =
     Some (s, Inl (if active_tasks s = 0 then W_NotifyEmpty else W_Shutdown))"
| "worker_step i v W_NotifyEmpty s = map_option (\<lambda>s'. (s', Inl W_Shutdown)) (signal_empty v s)"
| "worker_step i v W_Shutdown s = Some (s, Inl (if shutdown s = 1 then W_Exit else W_Wait))"
| "worker_step i v W_Exit s = Some ((release s)\<lparr>exited := insert i (exited s)\<rparr>, Inr RVoid)"
| "worker_step i v W_Wait s = Some ((release s)\<lparr>notify := insert i (notify s)\<rparr>, Inl W_Blocked)"
| "worker_step i v W_Blocked s = (if i \<in> notify s then None else acquire i s W_Test)"
| "worker_step i v W_Hold s = Some (s, Inl (if hold s \<noteq> 0 then W_HoldUnlock else W_Inc))"
| "worker_step i v W_HoldUnlock s = Some (release s, Inl W_Sleep)"
| "worker_step i v W_Sleep s = Some (s, Inl W_Lock)"
| "worker_step i v W_Inc s = Some (add_running s, Inl W_Take)"
| "worker_step i v W_Take s = (let (t, s') = dequeue s in Some (s', Inl (W_Unlock t)))"
| "worker_step i v (W_Unlock t) s = Some (release s, Inl (W_Run t))"
| "worker_step i v (W_Run t) s = Some (run_task t s, Inl W_Dec)"
| "worker_step i v W_Dec s = Some (sub_running s, Inl W_Lock)"

section \<open>The API\<close>

subsection \<open>\<open>thpool_worker_try_once\<close>\<close>

datatype tpc = T_Lock | T_Test | T_EmptyUnlock | T_Inc | T_Take | T_Unlock task_t
  | T_Run task_t | T_Dec

fun try_once_step :: "tid \<Rightarrow> tpc \<Rightarrow> pool \<Rightarrow> tpc outcome" where
  "try_once_step i T_Lock s = acquire i s T_Test"
| "try_once_step i T_Test s =
     Some (s, Inl (if queue_count (queue s) = 0 then T_EmptyUnlock else T_Inc))"
| "try_once_step i T_EmptyUnlock s = Some (release s, Inr (RInt (-1)))"
| "try_once_step i T_Inc s = Some (add_running s, Inl T_Take)"
| "try_once_step i T_Take s = (let (t, s') = dequeue s in Some (s', Inl (T_Unlock t)))"
| "try_once_step i (T_Unlock t) s = Some (release s, Inl (T_Run t))"
| "try_once_step i (T_Run t) s = Some (run_task t s, Inl T_Dec)"
| "try_once_step i T_Dec s = Some (sub_running s, Inr (RInt 0))"

subsection \<open>\<open>thpool_add_task\<close>\<close>

datatype apc = A_Lock task_t | A_Test task_t | A_FullUnlock | A_Yield | A_Put task_t
  | A_Signal | A_Unlock

fun add_task_step :: "tid \<Rightarrow> tid \<Rightarrow> apc \<Rightarrow> pool \<Rightarrow> apc outcome" where
  "add_task_step i v (A_Lock t) s = acquire i s (A_Test t)"
| "add_task_step i v (A_Test t) s = Some (s, Inl (if ring_full (queue s) then A_FullUnlock else A_Put t))"
| "add_task_step i v A_FullUnlock s = Some (release s, Inl A_Yield)"
| "add_task_step i v A_Yield s = Some (s, Inr (RInt (-1)))"
| "add_task_step i v (A_Put t) s = Some (enqueue t s, Inl A_Signal)"
| "add_task_step i v A_Signal s = map_option (\<lambda>s'. (s', Inl A_Unlock)) (signal_notify v s)"
| "add_task_step i v A_Unlock s = Some (release s, Inr (RInt 0))"

subsection \<open>\<open>thpool_add_task_try\<close>\<close>

text \<open>The program points carry the task and the current value of \<open>max_try\<close>.\<close>

datatype rpc = R_Loop task_t int | R_Lock task_t int | R_Test task_t int | R_FullUnlock task_t int
  | R_Sleep task_t int | R_Put task_t | R_Signal | R_Unlock

fun add_try_step :: "tid \<Rightarrow> tid \<Rightarrow> rpc \<Rightarrow> pool \<Rightarrow> rpc outcome" where
  "add_try_step i v (R_Loop t k) s = Some (s, if k < 0 then Inr (RErr EAGAIN) else Inl (R_Lock t k))"
| "add_try_step i v (R_Lock t k) s = acquire i s (R_Test t k)"
| "add_try_step i v (R_Test t k) s = Some (s, Inl (if ring_full (queue s) then R_FullUnlock t k else R_Put t))"
| "add_try_step i v (R_FullUnlock t k) s = Some (release s, Inl (R_Sleep t k))"
| "add_try_step i v (R_Sleep t k) s = Some (s, Inl (R_Loop t (k - 1)))"
| "add_try_step i v (R_Put t) s = Some (enqueue t s, Inl R_Signal)"
| "add_try_step i v R_Signal s = map_option (\<lambda>s'. (s', Inl R_Unlock)) (signal_notify v s)"
| "add_try_step i v R_Unlock s = Some (release s, Inr (RInt 0))"

subsection \<open>\<open>thpool_pause\<close>, \<open>thpool_resume\<close> and the counters\<close>

datatype mpc = M_Pause | M_Resume | M_ResumeLock | M_ResumeSignal | M_ResumeUnlock
  | M_Active | M_TotalLock | M_TotalRead | M_TotalUnlock size_t
  | M_WorkersLock | M_WorkersRead | M_WorkersUnlock size_t

fun misc_step :: "tid \<Rightarrow> tid \<Rightarrow> mpc \<Rightarrow> pool \<Rightarrow> mpc outcome" where
  "misc_step i v M_Pause s = Some (s\<lparr>hold := 1\<rparr>, Inr RVoid)"
| "misc_step i v M_Resume s = Some (s\<lparr>hold := 0\<rparr>, Inl M_ResumeLock)"
| "misc_step i v M_ResumeLock s = acquire i s M_ResumeSignal"
| "misc_step i v M_ResumeSignal s = map_option (\<lambda>s'. (s', Inl M_ResumeUnlock)) (signal_notify v s)"
| "misc_step i v M_ResumeUnlock s = Some (release s, Inr RVoid)"
| "misc_step i v M_Active s = Some (s, Inr (RSize (active_tasks s)))"
| "misc_step i v M_TotalLock s = acquire i s M_TotalRead"
| "misc_step i v M_TotalRead s = Some (s, Inl (M_TotalUnlock (total_tasks s)))"
| "misc_step i v (M_TotalUnlock n) s = Some (release s, Inr (RSize n))"
| "misc_step i v M_WorkersLock s = acquire i s M_WorkersRead"
| "misc_step i v M_WorkersRead s = Some (s, Inl (M_WorkersUnlock (thread_count s)))"
| "misc_step i v (M_WorkersUnlock n) s = Some (release s, Inr (RSize n))"

subsection \<open>\<open>thpool_wait\<close>\<close>

datatype epc = E_Lock | E_Count | E_Active size_t | E_Test size_t size_t | E_Return | E_Wait
  | E_Blocked | E_Unlock

fun wait_step :: "tid \<Rightarrow> epc \<Rightarrow> pool \<Rightarrow> epc outcome" where
  "wait_step i E_Lock s = acquire i s E_Count"
| "wait_step i E_Count s = Some (s, Inl (E_Active (queue_count (queue s))))"
| "wait_step i (E_Active qc) s = Some (s, Inl (E_Test qc (active_tasks s)))"
| "wait_step i (E_Test qc ac) s = Some (s, Inl (if qc = 0 \<and> ac = 0 then E_Return else E_Wait))"
| "wait_step i E_Return s = Some (release s, Inr RVoid)"
| "wait_step i E_Wait s = Some ((release s)\<lparr>notify_empty := insert i (notify_empty s)\<rparr>, Inl E_Blocked)"
| "wait_step i E_Blocked s = (if i \<in> notify_empty s then None else acquire i s E_Unlock)"
| "wait_step i E_Unlock s = Some (release s, Inl E_Lock)"

subsection \<open>\<open>thpool_shutdown\<close> and \<open>thpool_destroy\<close>\<close>

text \<open>
  The flag tells whether \<open>thpool_destroy\<close> made the call and goes on to free the pool.
  \<open>pthread_join\<close> waits for the worker to return; joining a thread that was joined before
  is undefined behaviour, which the model records.
\<close>

datatype hpc = H_Store bool | H_Lock bool | H_Broadcast bool | H_Unlock bool
  | H_Join bool size_t | H_Free

definition worker_handle :: "size_t \<Rightarrow> tid" where
  "worker_handle k = Worker (ucast k)"

definition join_worker :: "tid \<Rightarrow> pool \<Rightarrow> pool option" where
  "join_worker w s =
     (if w \<in> joined s then Some (s\<lparr>joined_twice := True\<rparr>)
      else if w \<in> exited s then Some (s\<lparr>joined := insert w (joined s)\<rparr>)
      else None)"

fun shutdown_step :: "hpc \<Rightarrow> tid \<Rightarrow> pool \<Rightarrow> hpc outcome" where
  "shutdown_step (H_Store d) i s =
     Some (s\<lparr>shutdown := 1,
       drain_mark := (if drain_mark s = None then Some (length (submitted s)) else drain_mark s)\<rparr>,
       Inl (H_Lock d))"
| "shutdown_step (H_Lock d) i s = acquire i s (H_Broadcast d)"
| "shutdown_step (H_Broadcast d) i s = Some (s\<lparr>notify := cond_broadcast (notify s)\<rparr>, Inl (H_Unlock d))"
| "shutdown_step (H_Unlock d) i s = Some (release s, Inl (H_Join d 0))"
| "shutdown_step (H_Join d k) i s =
     (if k < thread_count s
      then map_option (\<lambda>s'. (s', Inl (H_Join d (k + 1)))) (join_worker (worker_handle k) s)
      else Some (s, if d then Inl H_Free else Inr RVoid))"
| "shutdown_step H_Free i s = Some (s\<lparr>freed := True\<rparr>, Inr RVoid)"

section \<open>The system of threads\<close>

datatype pc = InWorker wpc | InTryOnce tpc | InAdd apc | InAddTry rpc | InMisc mpc | InWait epc
  | InShutdown hpc | Returned ret

datatype call = Add task_t | AddTry task_t int | Pause | Resume | Active | Total | WorkersCount
  | Wait | Shutdown | Destroy | TryOnce

fun entry :: "call \<Rightarrow> pc" where
  "entry (Add t) = InAdd (A_Lock t)"
| "entry (AddTry t k) = InAddTry (R_Loop t k)"
| "entry Pause = InMisc M_Pause"
| "entry Resume = InMisc M_Resume"
| "entry Active = InMisc M_Active"
| "entry Total = InMisc M_TotalLock"
| "entry WorkersCount = InMisc M_WorkersLock"
| "entry Wait = InWait E_Lock"
| "entry Shutdown = InShutdown (H_Store False)"
| "entry Destroy = InShutdown (H_Store True)"
| "entry TryOnce = InTryOnce T_Lock"

fun resume_at :: "('p \<Rightarrow> pc) \<Rightarrow> 'p outcome \<Rightarrow> (pool \<times> pc) option" where
  "resume_at lift None = None"
| "resume_at lift (Some (s, Inl p)) = Some (s, lift p)"
| "resume_at lift (Some (s, Inr r)) = Some (s, Returned r)"

fun exec :: "tid \<Rightarrow> tid \<Rightarrow> pc \<Rightarrow> pool \<Rightarrow> (pool \<times> pc) option" where
  "exec i v (InWorker p) s = resume_at InWorker (worker_step i v p s)"
| "exec i v (InTryOnce p) s = resume_at InTryOnce (try_once_step i p s)"
| "exec i v (InAdd p) s = resume_at InAdd (add_task_step i v p s)"
| "exec i v (InAddTry p) s = resume_at InAddTry (add_try_step i v p s)"
| "exec i v (InMisc p) s = resume_at InMisc (misc_step i v p s)"
| "exec i v (InWait p) s = resume_at InWait (wait_step i p s)"
| "exec i v (InShutdown p) s = resume_at InShutdown (shutdown_step p i s)"
| "exec i v (Returned r) s = None"

record system =
  mem :: pool
  pcs :: "tid \<Rightarrow> pc"

text \<open>
  An event is a step of a thread (with the thread a signal would wake), a client entering
  the API, or a spurious wake-up of a blocked thread.
\<close>

datatype event = Step tid tid | Call "32 word" call | Spurious tid

fun thpool_next :: "event \<Rightarrow> system \<Rightarrow> system option" where
  "thpool_next (Step i v) s =
     (case exec i v (pcs s i) (mem s) of None \<Rightarrow> None
      | Some (m, p) \<Rightarrow> Some \<lparr>mem = m, pcs = (pcs s)(i := p)\<rparr>)"
| "thpool_next (Call c f) s =
     (case pcs s (Client c) of
        Returned r \<Rightarrow> Some (s\<lparr>pcs := (pcs s)(Client c := entry f)\<rparr>)
      | _ \<Rightarrow> None)"
| "thpool_next (Spurious i) s =
     (if i \<in> notify (mem s) then Some (s\<lparr>mem := (mem s)\<lparr>notify := notify (mem s) - {i}\<rparr>\<rparr>)
      else if i \<in> notify_empty (mem s)
      then Some (s\<lparr>mem := (mem s)\<lparr>notify_empty := notify_empty (mem s) - {i}\<rparr>\<rparr>)
      else None)"

text \<open>
  The pool as a successful \<open>thpool_create\<close> leaves it: the fields of lines 74 to 94, no
  thread in the library but the workers it started.
\<close>

definition new_pool :: "task_t list \<Rightarrow> size_t \<Rightarrow> size_t \<Rightarrow> pool" where
  "new_pool junk workers qsize = \<lparr>shutdown = 0, hold = 0, running_count = 0, lock = None,
     notify = {}, notify_empty = {}, thread_count = workers, queue = ring_new junk qsize,
     exited = {}, joined = {}, joined_twice = False, freed = False,
     submitted = [], taken = [], finished = [], drain_mark = None\<rparr>"

fun is_worker :: "pool \<Rightarrow> tid \<Rightarrow> bool" where
  "is_worker s (Worker w) \<longleftrightarrow> unat w < unat (thread_count s)"
| "is_worker s (Client c) \<longleftrightarrow> False"

definition new_system :: "task_t list \<Rightarrow> size_t \<Rightarrow> size_t \<Rightarrow> system" where
  "new_system junk workers qsize = (let m = new_pool junk workers qsize in
     \<lparr>mem = m, pcs = (\<lambda>i. if is_worker m i then InWorker W_Lock else Returned RVoid)\<rparr>)"

definition thpool_init :: "system \<Rightarrow> bool" where
  "thpool_init s \<longleftrightarrow> (\<exists>junk workers qsize. s = new_system junk workers qsize \<and>
     0 < workers \<and> unat workers \<le> 2 ^ 32 \<and> 0 < qsize \<and> length junk = unat qsize)"

end
