(* ===== verification/ThpoolInv.thy ===== *)
theory ThpoolInv
  imports Thpool
begin

text \<open>
  The invariant of the locking pool. Each clause relates the shared state to the program
  points of all threads: the mutex and its owner, \<open>running_count\<close> and the threads inside
  a task, the history of tasks and the tasks threads carry, and what a thread knows at its
  own program point. Every step of every thread keeps it.
\<close>

section \<open>Classes of program points\<close>

text \<open>The thread owns \<open>pool->lock\<close>.\<close>

fun holds :: "pc \<Rightarrow> bool" where
  "holds (InWorker p) \<longleftrightarrow> (case p of W_Lock \<Rightarrow> False | W_Blocked \<Rightarrow> False | W_Sleep \<Rightarrow> False
     | W_Run t \<Rightarrow> False | W_Dec \<Rightarrow> False | _ \<Rightarrow> True)"
| "holds (InTryOnce p) \<longleftrightarrow> (case p of T_Lock \<Rightarrow> False | T_Run t \<Rightarrow> False | T_Dec \<Rightarrow> False | _ \<Rightarrow> True)"
| "holds (InAdd p) \<longleftrightarrow> (case p of A_Lock t \<Rightarrow> False | A_Yield \<Rightarrow> False | _ \<Rightarrow> True)"
| "holds (InAddTry p) \<longleftrightarrow> (case p of R_Loop t k \<Rightarrow> False | R_Lock t k \<Rightarrow> False
     | R_Sleep t k \<Rightarrow> False | _ \<Rightarrow> True)"
| "holds (InMisc p) \<longleftrightarrow> (case p of M_ResumeSignal \<Rightarrow> True | M_ResumeUnlock \<Rightarrow> True
     | M_TotalRead \<Rightarrow> True | M_TotalUnlock n \<Rightarrow> True | M_WorkersRead \<Rightarrow> True
     | M_WorkersUnlock n \<Rightarrow> True | _ \<Rightarrow> False)"
| "holds (InWait p) \<longleftrightarrow> (case p of E_Lock \<Rightarrow> False | E_Blocked \<Rightarrow> False | _ \<Rightarrow> True)"
| "holds (InShutdown p) \<longleftrightarrow> (case p of H_Broadcast d \<Rightarrow> True | H_Unlock d \<Rightarrow> True | _ \<Rightarrow> False)"
| "holds (Returned r) \<longleftrightarrow> False"

text \<open>The thread has counted itself in \<open>running_count\<close> and not yet taken itself out.\<close>

fun running :: "pc \<Rightarrow> bool" where
  "running (InWorker p) \<longleftrightarrow> (case p of W_Take \<Rightarrow> True | W_Unlock t \<Rightarrow> True | W_Run t \<Rightarrow> True
     | W_Dec \<Rightarrow> True | _ \<Rightarrow> False)"
| "running (InTryOnce p) \<longleftrightarrow> (case p of T_Take \<Rightarrow> True | T_Unlock t \<Rightarrow> True | T_Run t \<Rightarrow> True
     | T_Dec \<Rightarrow> True | _ \<Rightarrow> False)"
| "running _ \<longleftrightarrow> False"

text \<open>The task the thread took out of the queue and has not finished.\<close>

fun carried :: "pc \<Rightarrow> task_t multiset" where
  "carried (InWorker p) = (case p of W_Unlock t \<Rightarrow> {#t#} | W_Run t \<Rightarrow> {#t#} | _ \<Rightarrow> {#})"
| "carried (InTryOnce p) = (case p of T_Unlock t \<Rightarrow> {#t#} | T_Run t \<Rightarrow> {#t#} | _ \<Rightarrow> {#})"
| "carried _ = {#}"

text \<open>What a thread knows of the shared state at its program point.\<close>

fun knows :: "pc \<Rightarrow> pool \<Rightarrow> bool" where
  "knows (InWorker p) s \<longleftrightarrow> (case p of
       W_Hold \<Rightarrow> queue_count (queue s) \<noteq> 0 | W_HoldUnlock \<Rightarrow> queue_count (queue s) \<noteq> 0
     | W_Inc \<Rightarrow> queue_count (queue s) \<noteq> 0 | W_Take \<Rightarrow> queue_count (queue s) \<noteq> 0
     | W_Active \<Rightarrow> queue_count (queue s) = 0 | W_NotifyEmpty \<Rightarrow> queue_count (queue s) = 0
     | W_Shutdown \<Rightarrow> queue_count (queue s) = 0 | W_Wait \<Rightarrow> queue_count (queue s) = 0
     | W_Exit \<Rightarrow> queue_count (queue s) = 0 \<and> shutdown s = 1 | _ \<Rightarrow> True)"
| "knows (InTryOnce p) s \<longleftrightarrow> (case p of T_Inc \<Rightarrow> queue_count (queue s) \<noteq> 0
     | T_Take \<Rightarrow> queue_count (queue s) \<noteq> 0 | T_EmptyUnlock \<Rightarrow> queue_count (queue s) = 0 | _ \<Rightarrow> True)"
| "knows (InAdd p) s \<longleftrightarrow> (case p of A_Put t \<Rightarrow> \<not> ring_full (queue s)
     | A_FullUnlock \<Rightarrow> ring_full (queue s) | _ \<Rightarrow> True)"
| "knows (InAddTry p) s \<longleftrightarrow> (case p of R_Put t \<Rightarrow> \<not> ring_full (queue s)
     | R_FullUnlock t k \<Rightarrow> ring_full (queue s) | _ \<Rightarrow> True)"
| "knows (InMisc p) s \<longleftrightarrow> True"
| "knows (InWait p) s \<longleftrightarrow> (case p of E_Active qc \<Rightarrow> qc = queue_count (queue s)
     | E_Test qc ac \<Rightarrow> qc = queue_count (queue s) \<and> (ac = 0 \<longrightarrow> running_count s = 0)
     | E_Return \<Rightarrow> queue_count (queue s) = 0 \<and> running_count s = 0 | _ \<Rightarrow> True)"
| "knows (InShutdown p) s \<longleftrightarrow> (case p of H_Store d \<Rightarrow> True
     | H_Join d k \<Rightarrow> shutdown s = 1 \<and> (\<forall>w :: 32 word. unat w < unat k \<longrightarrow> Worker w \<in> exited s)
     | H_Free \<Rightarrow> shutdown s = 1 \<and> (\<forall>i. is_worker s i \<longrightarrow> i \<in> exited s)
     | _ \<Rightarrow> shutdown s = 1)"
| "knows (Returned r) s \<longleftrightarrow> True"

section \<open>The clauses\<close>

definition lock_inv :: "system \<Rightarrow> bool" where
  "lock_inv s \<longleftrightarrow> (\<forall>i. holds (pcs s i) \<longleftrightarrow> lock (mem s) = Some i)"

definition queue_inv :: "system \<Rightarrow> bool" where
  "queue_inv s \<longleftrightarrow> ring_ok (queue (mem s)) \<and>
     submitted (mem s) = taken (mem s) @ ring_items (queue (mem s))"

definition running_inv :: "system \<Rightarrow> bool" where
  "running_inv s \<longleftrightarrow>
     running_count (mem s) = of_nat (tsum (\<lambda>p. of_bool (running p)) (pcs s))"

definition task_inv :: "system \<Rightarrow> bool" where
  "task_inv s \<longleftrightarrow> mset (taken (mem s)) = mset (finished (mem s)) + tsum carried (pcs s)"

definition knows_inv :: "system \<Rightarrow> bool" where
  "knows_inv s \<longleftrightarrow> (\<forall>i. knows (pcs s i) (mem s))"

definition role_ok :: "pool \<Rightarrow> tid \<Rightarrow> pc \<Rightarrow> bool" where
  "role_ok m i p \<longleftrightarrow> (if is_worker m i
     then (\<exists>q. p = InWorker q) \<and> i \<notin> exited m \<or> p = Returned RVoid \<and> i \<in> exited m
     else (\<forall>q. p \<noteq> InWorker q) \<and> i \<notin> exited m \<and> (\<forall>w. i = Worker w \<longrightarrow> p = Returned RVoid))"

definition role_inv :: "system \<Rightarrow> bool" where
  "role_inv s \<longleftrightarrow> (\<forall>i. role_ok (mem s) i (pcs s i)) \<and> joined (mem s) \<subseteq> exited (mem s)"

definition waiters_inv :: "system \<Rightarrow> bool" where
  "waiters_inv s \<longleftrightarrow> (\<forall>i \<in> notify (mem s). pcs s i = InWorker W_Blocked) \<and>
     (\<forall>i \<in> notify_empty (mem s). pcs s i = InWait E_Blocked)"

definition drain_inv :: "system \<Rightarrow> bool" where
  "drain_inv s \<longleftrightarrow> shutdown (mem s) \<in> {0, 1} \<and>
     (drain_mark (mem s) = None \<longleftrightarrow> shutdown (mem s) = 0) \<and>
     (\<forall>n. drain_mark (mem s) = Some n \<longrightarrow> n \<le> length (submitted (mem s))) \<and>
     (exited (mem s) \<noteq> {} \<longrightarrow>
        (\<exists>n. drain_mark (mem s) = Some n \<and> n \<le> length (taken (mem s)))) \<and>
     (freed (mem s) \<longrightarrow> (\<forall>i. is_worker (mem s) i \<longrightarrow> i \<in> exited (mem s)))"

definition size_inv :: "system \<Rightarrow> bool" where
  "size_inv s \<longleftrightarrow> 0 < unat (thread_count (mem s)) \<and> unat (thread_count (mem s)) \<le> 2 ^ 32"

definition thpool_inv :: "system \<Rightarrow> bool" where
  "thpool_inv s \<longleftrightarrow> lock_inv s \<and> queue_inv s \<and> running_inv s \<and> task_inv s \<and> knows_inv s \<and>
     role_inv s \<and> waiters_inv s \<and> drain_inv s \<and> size_inv s"

lemmas clause_defs = lock_inv_def queue_inv_def running_inv_def task_inv_def knows_inv_def
  role_inv_def waiters_inv_def drain_inv_def size_inv_def

section \<open>What one step does\<close>

lemmas prim_defs [step_defs] = acquire_def release_def signal_notify_def signal_empty_def enqueue_def
  dequeue_def run_task_def add_running_def sub_running_def active_tasks_def total_tasks_def
  join_worker_def cond_broadcast_def Let_def

lemma resume_at_Some:
  "resume_at f x = Some (m, p) \<longleftrightarrow>
     (\<exists>q. x = Some (m, Inl q) \<and> p = f q) \<or> (\<exists>r. x = Some (m, Inr r) \<and> p = Returned r)"
  by (cases "(f, x)" rule: resume_at.cases) auto

lemma Some_resume_at:
  "Some (m, p) = resume_at f x \<longleftrightarrow>
     (\<exists>q. x = Some (m, Inl q) \<and> p = f q) \<or> (\<exists>r. x = Some (m, Inr r) \<and> p = Returned r)"
  by (cases "(f, x)" rule: resume_at.cases) auto

lemmas outcome_simps = resume_at_Some Some_resume_at map_option_eq_Some Some_map_option

fun_cases worker_stepE: "worker_step i v p m = Some r"
fun_cases try_once_stepE: "try_once_step i p m = Some r"
fun_cases add_task_stepE: "add_task_step i v p m = Some r"
fun_cases add_try_stepE: "add_try_step i v p m = Some r"
fun_cases misc_stepE: "misc_step i v p m = Some r"
fun_cases wait_stepE: "wait_step i p m = Some r"
fun_cases shutdown_stepE: "shutdown_step p i m = Some r"

lemmas step_elims = worker_stepE try_once_stepE add_task_stepE add_try_stepE misc_stepE
  wait_stepE shutdown_stepE

text \<open>One case per function of the library; \<open>x\<close> is where the thread goes on.\<close>

lemma exec_points:
  assumes "exec i v p m = Some (m', p')"
    and "\<And>q x. worker_step i v q m = Some (m', x) \<Longrightarrow> P (InWorker q) (case_sum InWorker Returned x)"
    and "\<And>q x. try_once_step i q m = Some (m', x) \<Longrightarrow> P (InTryOnce q) (case_sum InTryOnce Returned x)"
    and "\<And>q x. add_task_step i v q m = Some (m', x) \<Longrightarrow> P (InAdd q) (case_sum InAdd Returned x)"
    and "\<And>q x. add_try_step i v q m = Some (m', x) \<Longrightarrow> P (InAddTry q) (case_sum InAddTry Returned x)"
    and "\<And>q x. misc_step i v q m = Some (m', x) \<Longrightarrow> P (InMisc q) (case_sum InMisc Returned x)"
    and "\<And>q x. wait_step i q m = Some (m', x) \<Longrightarrow> P (InWait q) (case_sum InWait Returned x)"
    and "\<And>q x. shutdown_step q i m = Some (m', x) \<Longrightarrow> P (InShutdown q) (case_sum InShutdown Returned x)"
  shows "P p p'"
  using assms by (cases p) (fastforce simp: resume_at_Some)+

text \<open>A step takes the mutex when it is free, gives it back, or leaves it alone.\<close>

lemma exec_lock:
  "exec i v p m = Some (m', p') \<Longrightarrow> (holds p' = holds p \<and> lock m' = lock m) \<or>
    (\<not> holds p \<and> holds p' \<and> lock m = None \<and> lock m' = Some i) \<or>
    (holds p \<and> \<not> holds p' \<and> lock m' = None)"
  by (erule exec_points; erule step_elims; auto simp: outcome_simps step_defs split: if_splits)

text \<open>Only the owner of the mutex changes the queue, by one enqueue or one dequeue.\<close>

lemma exec_queue:
  "exec i v p m = Some (m', p') \<Longrightarrow> knows p m \<longrightarrow>
    (queue m' = queue m \<and> submitted m' = submitted m \<and> taken m' = taken m) \<or>
    (holds p \<and> \<not> ring_full (queue m) \<and> taken m' = taken m \<and>
      (\<exists>t. queue m' = ring_put t (queue m) \<and> submitted m' = submitted m @ [t])) \<or>
    (holds p \<and> queue_count (queue m) \<noteq> 0 \<and> submitted m' = submitted m \<and>
      queue m' = ring_advance (queue m) \<and> taken m' = taken m @ [ring_front (queue m)])"
  by (erule exec_points; erule step_elims; auto simp: outcome_simps step_defs split: if_splits)

lemma exec_running:
  "exec i v p m = Some (m', p') \<Longrightarrow>
    (running p' = running p \<and> running_count m' = running_count m) \<or>
    (\<not> running p \<and> running p' \<and> holds p \<and> running_count m' = running_count m + 1) \<or>
    (running p \<and> \<not> running p' \<and> running_count m' = running_count m - 1)"
  by (erule exec_points; erule step_elims; auto simp: outcome_simps step_defs split: if_splits)

lemma exec_tasks:
  "exec i v p m = Some (m', p') \<Longrightarrow>
    mset (taken m') + mset (finished m) + carried p = mset (taken m) + mset (finished m') + carried p'"
  by (erule exec_points; erule step_elims; auto simp: outcome_simps step_defs split: if_splits)

text \<open>A worker stays a worker until it returns; nobody else becomes one.\<close>

lemma exec_roles:
  "exec i v p m = Some (m', p') \<Longrightarrow> thread_count m' = thread_count m \<and>
    joined m' \<subseteq> joined m \<union> exited m \<and>
    (if \<exists>q. p = InWorker q
     then (\<exists>q. p' = InWorker q) \<and> exited m' = exited m \<or>
       p = InWorker W_Exit \<and> p' = Returned RVoid \<and> exited m' = insert i (exited m)
     else (\<forall>q. p' \<noteq> InWorker q) \<and> exited m' = exited m)"
  by (erule exec_points; erule step_elims; auto simp: outcome_simps step_defs split: if_splits)

lemma exec_waiters:
  "exec i v p m = Some (m', p') \<Longrightarrow>
    (notify m' \<subseteq> notify m \<or> p' = InWorker W_Blocked \<and> notify m' = insert i (notify m)) \<and>
    (notify_empty m' \<subseteq> notify_empty m \<or>
      p' = InWait E_Blocked \<and> notify_empty m' = insert i (notify_empty m)) \<and>
    (p = InWorker W_Blocked \<longrightarrow> i \<notin> notify m') \<and> (p = InWait E_Blocked \<longrightarrow> i \<notin> notify_empty m')"
  by (erule exec_points; erule step_elims;
      auto simp: outcome_simps step_defs dest: cond_signal_subset [THEN subsetD] split: if_splits)

lemma exec_drain:
  "exec i v p m = Some (m', p') \<Longrightarrow>
    (shutdown m' = shutdown m \<and> drain_mark m' = drain_mark m \<or>
      shutdown m' = 1 \<and> submitted m' = submitted m \<and> (if drain_mark m = None
        then drain_mark m' = Some (length (submitted m)) else drain_mark m' = drain_mark m)) \<and>
    (freed m' = freed m \<or> p = InShutdown H_Free)"
  by (erule exec_points; erule step_elims; auto simp: outcome_simps step_defs split: if_splits)


text \<open>
  What another thread may rely on across a step: the worker returns and the shutdown flag
  only grow, and while it owns the mutex itself nobody touches the queue or enters a task.
\<close>

lemma exec_frame:
  "exec i v p m = Some (m', p') \<Longrightarrow> thread_count m' = thread_count m \<and>
    exited m \<subseteq> exited m' \<and> (shutdown m = 1 \<longrightarrow> shutdown m' = 1) \<and>
    (\<not> holds p \<longrightarrow> queue m' = queue m \<and> ((running p \<longrightarrow> running_count m \<noteq> 0) \<longrightarrow>
       running_count m = 0 \<longrightarrow> running_count m' = 0))"
  by (erule exec_points; erule step_elims; auto simp: outcome_simps step_defs split: if_splits)

lemma is_worker_cong: "thread_count m' = thread_count m \<Longrightarrow> is_worker m' i = is_worker m i"
  by (cases i) auto

lemma knows_stable:
  assumes "exec i v p m = Some (m', p')" and "running p \<longrightarrow> running_count m \<noteq> 0"
    and "holds p \<longrightarrow> \<not> holds q" and "knows q m"
  shows "knows q m'"
proof -
  note frame = exec_frame[OF assms(1)]
  show ?thesis
  proof (cases q)
    case (InShutdown h)
    with frame assms(4) show ?thesis
      by (cases h) (auto simp: is_worker_cong[of m' m])
  qed (use frame assms(2-4) in \<open>auto split: wpc.splits tpc.splits apc.splits rpc.splits epc.splits\<close>)
qed

text \<open>What the thread itself knows after its step.\<close>

lemma knows_join:
  assumes "knows (InShutdown (H_Join d k)) m" and "unat (thread_count m) \<le> 2 ^ 32"
    and "joined m \<subseteq> exited m"
    and "shutdown_step (H_Join d k) i m = Some (m', x)"
  shows "knows (case_sum InShutdown Returned x) m'"
proof (cases "k < thread_count m")
  case True
  from True assms(3,4) have m': "worker_handle k \<in> exited m'" "exited m' = exited m"
    "shutdown m' = shutdown m" and x: "x = Inl (H_Join d (k + 1))"
    by (auto simp: join_worker_def split: if_splits)
  with assms(1) handle_below_next[OF True assms(2)] show ?thesis
    by (auto simp: worker_handle_def)
next
  case False
  then have le: "unat (thread_count m) \<le> unat k" by (simp add: word_le_nat_alt not_less)
  have "i \<in> exited m" if "is_worker m i" for i
    using that le assms(1) by (cases i) auto
  with False assms(1,4) show ?thesis by auto
qed

lemma exec_knows_other:
  "exec i v p m = Some (m', p') \<Longrightarrow> knows p m \<and> (\<forall>d k. p \<noteq> InShutdown (H_Join d k)) \<longrightarrow> knows p' m'"
  by (erule exec_points; erule step_elims; auto simp: outcome_simps step_defs split: if_splits)

lemma exec_knows:
  assumes "exec i v p m = Some (m', p')" and "knows p m"
    and "unat (thread_count m) \<le> 2 ^ 32" and "joined m \<subseteq> exited m"
  shows "knows p' m'"
proof (cases "\<exists>d k. p = InShutdown (H_Join d k)")
  case True
  then obtain d k where p: "p = InShutdown (H_Join d k)" by blast
  obtain x where "shutdown_step (H_Join d k) i m = Some (m', x)"
    and "p' = case_sum InShutdown Returned x"
    using assms(1) by (auto simp: p resume_at_Some simp del: shutdown_step.simps)
  with knows_join[of d k m i m' x] assms(2-4) show ?thesis by (simp only: p)
next
  case False
  with exec_knows_other[OF assms(1)] assms(2) show ?thesis by blast
qed


section \<open>The invariant is kept\<close>

lemma tsum_running_less: "tsum (\<lambda>p. of_bool (running p) :: nat) (f :: tid \<Rightarrow> pc) < 2 ^ 64"
  using tsum_of_bool_le[of running f] by (simp add: card_tid)

lemma running_count_nonzero:
  assumes "running_inv s" and "running (pcs s i)"
  shows "running_count (mem s) \<noteq> 0"
proof
  assume "running_count (mem s) = 0"
  then have "(of_nat (tsum (\<lambda>p. of_bool (running p)) (pcs s)) :: size_t) = 0"
    using assms(1) by (simp add: running_inv_def)
  then have "2 ^ 64 dvd tsum (\<lambda>p. of_bool (running p) :: nat) (pcs s)"
    by (simp add: word_of_nat_eq_0_iff)
  then have "tsum (\<lambda>p. of_bool (running p) :: nat) (pcs s) = 0"
    using tsum_running_less[of "pcs s"] nat_dvd_not_less by blast
  with assms(2) show False by (auto simp: tsum_nat_zero)
qed

lemma step_Some:
  "thpool_next (Step i v) s = Some s' \<longleftrightarrow>
    (\<exists>m p. exec i v (pcs s i) (mem s) = Some (m, p) \<and> s' = \<lparr>mem = m, pcs = (pcs s)(i := p)\<rparr>)"
proof (cases "exec i v (pcs s i) (mem s)")
  case (Some mp)
  obtain m p where "mp = (m, p)" by (cases mp)
  with Some have e: "exec i v (pcs s i) (mem s) = Some (m, p)" by (simp only:)
  show ?thesis unfolding thpool_next.simps e by auto
qed simp

lemma step_lock_inv:
  assumes "lock_inv s" and "exec i v (pcs s i) (mem s) = Some (m, p)"
  shows "lock_inv \<lparr>mem = m, pcs = (pcs s)(i := p)\<rparr>"
  unfolding lock_inv_def
proof
  fix j
  have "holds (pcs s i) \<longleftrightarrow> lock (mem s) = Some i" "holds (pcs s j) \<longleftrightarrow> lock (mem s) = Some j"
    using assms(1) by (simp_all only: lock_inv_def)
  with exec_lock[OF assms(2)]
  show "holds (pcs \<lparr>mem = m, pcs = (pcs s)(i := p)\<rparr> j) \<longleftrightarrow>
      lock (mem \<lparr>mem = m, pcs = (pcs s)(i := p)\<rparr>) = Some j"
    by (cases "j = i") auto
qed

lemma step_queue_inv:
  assumes "queue_inv s" and "knows_inv s" and "exec i v (pcs s i) (mem s) = Some (m, p)"
  shows "queue_inv \<lparr>mem = m, pcs = (pcs s)(i := p)\<rparr>"
proof -
  have "knows (pcs s i) (mem s)" using assms(2) by (simp add: knows_inv_def)
  with exec_queue[OF assms(3)] consider
      "queue m = queue (mem s)" "submitted m = submitted (mem s)" "taken m = taken (mem s)"
    | t where "\<not> ring_full (queue (mem s))" "queue m = ring_put t (queue (mem s))"
        "submitted m = submitted (mem s) @ [t]" "taken m = taken (mem s)"
    | "queue_count (queue (mem s)) \<noteq> 0" "queue m = ring_advance (queue (mem s))"
        "submitted m = submitted (mem s)" "taken m = taken (mem s) @ [ring_front (queue (mem s))]"
    by blast
  then show ?thesis
    using assms(1) by cases
      (auto simp: queue_inv_def ring_put_ok ring_put_items ring_advance_ok ring_advance_items)
qed

lemma step_running_inv:
  assumes "running_inv s" and "exec i v (pcs s i) (mem s) = Some (m, p)"
  shows "running_inv \<lparr>mem = m, pcs = (pcs s)(i := p)\<rparr>"
proof -
  let ?g = "\<lambda>p. of_bool (running p) :: nat"
  have "of_nat (tsum ?g ((pcs s)(i := p)) + ?g (pcs s i)) =
      (of_nat (tsum ?g (pcs s) + ?g p) :: size_t)"
    by (rule arg_cong[OF tsum_upd])
  then have "(of_nat (tsum ?g ((pcs s)(i := p))) :: size_t) =
      of_nat (tsum ?g (pcs s)) + of_bool (running p) - of_bool (running (pcs s i))"
    by (simp add: eq_diff_eq)
  with assms(1) exec_running[OF assms(2)] show ?thesis
    by (auto simp: running_inv_def)
qed

lemma step_task_inv:
  assumes "task_inv s" and "exec i v (pcs s i) (mem s) = Some (m, p)"
  shows "task_inv \<lparr>mem = m, pcs = (pcs s)(i := p)\<rparr>"
proof -
  have "(mset (taken m) + (mset (finished (mem s)) + carried (pcs s i))) + tsum carried (pcs s) =
      (mset (finished m) + tsum carried ((pcs s)(i := p)) + (mset (finished (mem s)) + carried (pcs s i)))
       + tsum carried (pcs s)"
    using exec_tasks[OF assms(2)] tsum_upd[of carried "pcs s" i p] assms(1)
    by (simp add: task_inv_def ac_simps)
  then show ?thesis by (simp add: task_inv_def)
qed


lemma step_knows_inv:
  assumes "knows_inv s" and "lock_inv s" and "running_inv s" and "size_inv s" and "role_inv s"
    and e: "exec i v (pcs s i) (mem s) = Some (m, p)"
  shows "knows_inv \<lparr>mem = m, pcs = (pcs s)(i := p)\<rparr>"
  unfolding knows_inv_def
proof
  fix j
  have k: "knows (pcs s j) (mem s)" for j using assms(1) by (simp add: knows_inv_def)
  show "knows (pcs \<lparr>mem = m, pcs = (pcs s)(i := p)\<rparr> j) (mem \<lparr>mem = m, pcs = (pcs s)(i := p)\<rparr>)"
  proof (cases "j = i")
    case True
    with exec_knows[OF e k] assms(4,5) show ?thesis by (simp add: size_inv_def role_inv_def)
  next
    case False
    have "holds (pcs s i) \<longleftrightarrow> lock (mem s) = Some i" "holds (pcs s j) \<longleftrightarrow> lock (mem s) = Some j"
      using assms(2) by (simp_all only: lock_inv_def)
    with False have "holds (pcs s i) \<longrightarrow> \<not> holds (pcs s j)" by auto
    with knows_stable[OF e _ _ k] running_count_nonzero[OF assms(3)] False show ?thesis
      by simp
  qed
qed

lemma step_role_inv:
  assumes "role_inv s" and e: "exec i v (pcs s i) (mem s) = Some (m, p)"
  shows "role_inv \<lparr>mem = m, pcs = (pcs s)(i := p)\<rparr>"
proof -
  note roles = exec_roles[OF e]
  have same: "is_worker m j \<longleftrightarrow> is_worker (mem s) j" for j
    using roles by (intro is_worker_cong) simp
  have join: "joined m \<subseteq> exited m"
    using roles assms(1) by (auto simp: role_inv_def split: if_splits)
  have ok: "role_ok (mem s) j (pcs s j)" for j
    using assms(1) by (simp add: role_inv_def)
  have moved: "role_ok m i p"
  proof (cases "\<exists>q. pcs s i = InWorker q")
    case True
    with ok[of i] roles show ?thesis by (auto simp: role_ok_def same split: if_splits)
  next
    case False
    then have c: "pcs s i \<noteq> Returned RVoid" "exited m = exited (mem s)" "\<forall>q. p \<noteq> InWorker q"
      using e roles by auto
    with False ok[of i] show ?thesis by (auto simp: role_ok_def same split: if_splits)
  qed
  have "exited m \<subseteq> insert i (exited (mem s))" "exited (mem s) \<subseteq> exited m"
    using roles by (auto split: if_splits)
  then have "role_ok m j (pcs s j)" if "j \<noteq> i" for j
    using ok[of j] that by (auto simp: role_ok_def same split: if_splits)
  with moved join show ?thesis by (simp add: role_inv_def)
qed

lemma step_waiters_inv:
  assumes "waiters_inv s" and e: "exec i v (pcs s i) (mem s) = Some (m, p)"
  shows "waiters_inv \<lparr>mem = m, pcs = (pcs s)(i := p)\<rparr>"
  using assms(1) exec_waiters[OF e] by (auto simp: waiters_inv_def)

lemma step_drain_inv:
  assumes "drain_inv s" and "queue_inv s" and "knows_inv s"
    and e: "exec i v (pcs s i) (mem s) = Some (m, p)"
  shows "drain_inv \<lparr>mem = m, pcs = (pcs s)(i := p)\<rparr>"
proof -
  have k: "knows (pcs s i) (mem s)" using assms(3) by (simp add: knows_inv_def)
  have grow: "length (submitted (mem s)) \<le> length (submitted m)"
    "length (taken (mem s)) \<le> length (taken m)"
    using exec_queue[OF e] k by auto
  have flag: "shutdown m \<in> {0, 1} \<and> (drain_mark m = None \<longleftrightarrow> shutdown m = 0) \<and>
      (\<forall>n. drain_mark m = Some n \<longrightarrow> n \<le> length (submitted m))"
    using exec_drain[OF e] assms(1) grow by (auto simp: drain_inv_def split: if_splits)
  have keep: "drain_mark (mem s) = Some n \<Longrightarrow> drain_mark m = Some n" for n
    using exec_drain[OF e] by (auto split: if_splits)
  have drained: "\<exists>n. drain_mark m = Some n \<and> n \<le> length (taken m)" if ne: "exited m \<noteq> {}"
  proof (cases "exited (mem s) = {}")
    case True
    with ne exec_roles[OF e] have p: "pcs s i = InWorker W_Exit" by (auto split: if_splits)
    with k assms(1,2) obtain n where "drain_mark (mem s) = Some n" "n \<le> length (taken (mem s))"
      by (auto simp: drain_inv_def queue_inv_def ring_items_empty[symmetric])
    with keep grow show ?thesis by fastforce
  next
    case False
    with assms(1) keep grow show ?thesis by (fastforce simp: drain_inv_def)
  qed
  have same: "is_worker m j \<longleftrightarrow> is_worker (mem s) j" for j
    using exec_roles[OF e] by (intro is_worker_cong) simp
  have "exited (mem s) \<subseteq> exited m" using exec_frame[OF e] by blast
  moreover have "freed m \<longrightarrow> freed (mem s) \<or> pcs s i = InShutdown H_Free"
    using exec_drain[OF e] by auto
  ultimately have "freed m \<longrightarrow> (\<forall>j. is_worker m j \<longrightarrow> j \<in> exited m)"
    using assms(1) k by (auto simp: drain_inv_def same)
  with flag drained show ?thesis by (simp add: drain_inv_def)
qed

lemma step_size_inv:
  assumes "size_inv s" and "exec i v (pcs s i) (mem s) = Some (m, p)"
  shows "size_inv \<lparr>mem = m, pcs = (pcs s)(i := p)\<rparr>"
  using assms(1) exec_roles[OF assms(2)] by (simp add: size_inv_def)


text \<open>The whole invariant, over the three kinds of event.\<close>

lemma thpool_inv_step: "thpool_inv s \<Longrightarrow> thpool_next (Step i v) s = Some s' \<Longrightarrow> thpool_inv s'"
  unfolding thpool_inv_def step_Some
  by (elim exE conjE)
    (simp only: step_lock_inv step_queue_inv step_running_inv step_task_inv step_knows_inv
      step_role_inv step_waiters_inv step_drain_inv step_size_inv simp_thms)

lemma call_Some:
  "thpool_next (Call c f) s = Some s' \<longleftrightarrow>
    (\<exists>r. pcs s (Client c) = Returned r) \<and> s' = s\<lparr>pcs := (pcs s)(Client c := entry f)\<rparr>"
  by (auto split: pc.splits)

text \<open>At the entry of a function a thread owns nothing, runs nothing and knows nothing.\<close>

lemma entry_neutral [simp]:
  "holds (entry f) = False" "running (entry f) = False" "carried (entry f) = {#}"
  "knows (entry f) m" "entry f \<noteq> InWorker q" "entry f \<noteq> Returned r"
  by (cases f; simp)+

lemma thpool_inv_call:
  assumes inv: "thpool_inv s" and c: "thpool_next (Call c f) s = Some s'"
  shows "thpool_inv s'"
proof -
  from c obtain r where r: "pcs s (Client c) = Returned r"
    and s': "s' = s\<lparr>pcs := (pcs s)(Client c := entry f)\<rparr>"
    by (auto simp only: call_Some)
  have "tsum (\<lambda>p. of_bool (running p) :: nat) (pcs s') = tsum (\<lambda>p. of_bool (running p)) (pcs s)"
    using tsum_upd_eq[of "\<lambda>p. of_bool (running p) :: nat" "pcs s" "Client c" "entry f"]
    by (simp add: s' r)
  moreover have "tsum carried (pcs s') = tsum carried (pcs s)"
    using tsum_upd_eq[of carried "pcs s" "Client c" "entry f"] by (simp add: s' r)
  moreover have "mem s' = mem s" by (simp add: s')
  moreover have "holds (pcs s' i) = holds (pcs s i)" for i by (auto simp: s' r)
  moreover have "knows (pcs s i) m \<Longrightarrow> knows (pcs s' i) m" for i m by (auto simp: s')
  moreover have "role_inv s'" using inv r unfolding thpool_inv_def role_inv_def
    by (auto simp: s' role_ok_def)
  moreover have "waiters_inv s'" using inv r unfolding thpool_inv_def waiters_inv_def
    by (auto simp: s')
  moreover have "queue_inv s' = queue_inv s" "drain_inv s' = drain_inv s" "size_inv s' = size_inv s"
    by (simp_all add: s' queue_inv_def drain_inv_def size_inv_def)
  ultimately show ?thesis
    using inv unfolding thpool_inv_def
    by (simp add: lock_inv_def running_inv_def task_inv_def knows_inv_def)
qed

lemma is_worker_wakeup [simp]:
  "is_worker (m\<lparr>notify := A\<rparr>) i = is_worker m i" "is_worker (m\<lparr>notify_empty := A\<rparr>) i = is_worker m i"
  by (cases i; simp)+

lemma knows_wakeup [simp]:
  "knows p (m\<lparr>notify := A\<rparr>) = knows p m" "knows p (m\<lparr>notify_empty := A\<rparr>) = knows p m"
  by (cases p; auto split: wpc.split tpc.split apc.split rpc.split epc.split hpc.split)+

lemma role_ok_wakeup [simp]:
  "role_ok (m\<lparr>notify := A\<rparr>) i p = role_ok m i p" "role_ok (m\<lparr>notify_empty := A\<rparr>) i p = role_ok m i p"
  by (simp_all add: role_ok_def)

lemma clause_notify:
  fixes s A defines "t \<equiv> s\<lparr>mem := (mem s)\<lparr>notify := A\<rparr>\<rparr>"
  shows "lock_inv t = lock_inv s" "queue_inv t = queue_inv s" "running_inv t = running_inv s"
    "task_inv t = task_inv s" "knows_inv t = knows_inv s" "role_inv t = role_inv s"
    "drain_inv t = drain_inv s" "size_inv t = size_inv s"
  by (simp_all add: t_def clause_defs)

lemma clause_notify_empty:
  fixes s A defines "t \<equiv> s\<lparr>mem := (mem s)\<lparr>notify_empty := A\<rparr>\<rparr>"
  shows "lock_inv t = lock_inv s" "queue_inv t = queue_inv s" "running_inv t = running_inv s"
    "task_inv t = task_inv s" "knows_inv t = knows_inv s" "role_inv t = role_inv s"
    "drain_inv t = drain_inv s" "size_inv t = size_inv s"
  by (simp_all add: t_def clause_defs)

lemma inv_wakeup:
  assumes "thpool_inv s"
  shows "A \<subseteq> notify (mem s) \<Longrightarrow> thpool_inv (s\<lparr>mem := (mem s)\<lparr>notify := A\<rparr>\<rparr>)"
    and "A \<subseteq> notify_empty (mem s) \<Longrightarrow> thpool_inv (s\<lparr>mem := (mem s)\<lparr>notify_empty := A\<rparr>\<rparr>)"
  using assms
  by (auto simp: thpool_inv_def clause_notify clause_notify_empty waiters_inv_def)

lemma thpool_inv_spurious:
  assumes "thpool_inv s" and "thpool_next (Spurious i) s = Some s'"
  shows "thpool_inv s'"
proof (cases "i \<in> notify (mem s)")
  case True
  with assms(2) have "s' = s\<lparr>mem := (mem s)\<lparr>notify := notify (mem s) - {i}\<rparr>\<rparr>" by simp
  with inv_wakeup(1)[OF assms(1)] show ?thesis by blast
next
  case False
  with assms(2) have "s' = s\<lparr>mem := (mem s)\<lparr>notify_empty := notify_empty (mem s) - {i}\<rparr>\<rparr>"
    by (simp split: if_splits)
  with inv_wakeup(2)[OF assms(1)] show ?thesis by blast
qed

lemma thpool_inv_init:
  assumes "thpool_init s"
  shows "thpool_inv s"
proof -
  obtain junk workers qsize where s: "s = new_system junk workers qsize"
    and w: "0 < workers" "unat workers \<le> 2 ^ 32" and q: "0 < qsize" "length junk = unat qsize"
    using assms unfolding thpool_init_def by blast
  have ring: "ring_ok (ring_new junk qsize)"
    using q by (intro ring_new_ok) auto
  have "tsum (\<lambda>p. of_bool (running p) :: nat) (pcs s) = 0" and "tsum carried (pcs s) = {#}"
    by (auto intro!: tsum_const_zero simp: s new_system_def Let_def)
  moreover have "\<not> holds (pcs s i) \<and> knows (pcs s i) (mem s) \<and> role_ok (mem s) i (pcs s i)" for i
    by (cases i) (auto simp: s new_system_def new_pool_def role_ok_def Let_def)
  moreover have "0 < unat workers" using w(1) by (simp add: unat_gt_0)
  ultimately show ?thesis
    using ring w(2) unfolding thpool_inv_def clause_defs
    by (simp add: s new_system_def new_pool_def Let_def)
qed

interpretation thpool: safety thpool_init thpool_next thpool_inv
proof
  show "thpool_init s \<Longrightarrow> thpool_inv s" for s by (rule thpool_inv_init)
  show "thpool_inv s \<Longrightarrow> thpool_next e s = Some s' \<Longrightarrow> thpool_inv s'" for s e s'
    by (cases e) (blast intro: thpool_inv_step thpool_inv_call thpool_inv_spurious)+
qed

end
