(* ===== verification/ThpoolLive.thy ===== *)
theory ThpoolLive
  imports ThpoolInv
begin

text \<open>
  Facts about runs of the locking pool beyond its invariant: the owner of the mutex can
  always move on, a task in the queue always has somebody awake for it, a paused pool
  takes no task, and the pool implements the abstract task pool.
\<close>

section \<open>Progress of the owner of the mutex\<close>

lemma exec_holder:
  assumes "holds p"
  obtains v m' p' where "exec i v p m = Some (m', p')"
proof -
  have "\<exists>v. exec i v p m \<noteq> None"
    using assms cond_signal_enabled[of "notify m"] cond_signal_enabled[of "notify_empty m"]
    by (cases p; auto simp: prim_defs resume_at_Some
        split: wpc.splits tpc.splits apc.splits rpc.splits mpc.splits epc.splits hpc.splits)
  then show thesis using that by force
qed

section \<open>No task is left with every worker asleep\<close>

text \<open>A client that has put a task in the queue and not yet signalled \<open>pool->notify\<close>.\<close>

fun signalling :: "pc \<Rightarrow> bool" where
  "signalling (InAdd p) \<longleftrightarrow> p = A_Signal"
| "signalling (InAddTry p) \<longleftrightarrow> p = R_Signal"
| "signalling _ \<longleftrightarrow> False"

definition live_inv :: "system \<Rightarrow> bool" where
  "live_inv s \<longleftrightarrow> (queue_count (queue (mem s)) \<noteq> 0 \<and> exited (mem s) = {} \<longrightarrow>
     (\<exists>i. is_worker (mem s) i \<and> i \<notin> notify (mem s)) \<or> (\<exists>i. signalling (pcs s i)))"

lemma exec_live:
  "exec i v p m = Some (m', p') \<Longrightarrow> knows p m \<longrightarrow>
    (queue_count (queue m) = 0 \<and> queue_count (queue m') \<noteq> 0 \<longrightarrow> signalling p') \<and>
    (signalling p \<longrightarrow> cond_signal v (notify m) = Some (notify m')) \<and>
    (notify m' \<subseteq> notify m \<or> queue_count (queue m') = 0)"
  by (erule exec_points; erule step_elims;
      auto simp: outcome_simps step_defs dest: cond_signal_subset [THEN subsetD] split: if_splits)

lemma some_worker: "size_inv s \<Longrightarrow> is_worker (mem s) (Worker 0)"
  by (simp add: size_inv_def)

lemma step_live_inv:
  assumes inv: "thpool_inv s" and live: "live_inv s"
    and e: "exec i v (pcs s i) (mem s) = Some (m, p)"
  shows "live_inv \<lparr>mem = m, pcs = (pcs s)(i := p)\<rparr>"
  unfolding live_inv_def system.simps
proof (intro impI)
  assume now: "queue_count (queue m) \<noteq> 0 \<and> exited m = {}"
  have k: "knows (pcs s i) (mem s)" and roles: "\<And>j. role_ok (mem s) j (pcs s j)"
    and w0: "is_worker (mem s) (Worker 0)"
    using inv some_worker by (auto simp: thpool_inv_def knows_inv_def role_inv_def)
  note step = exec_live[OF e, rule_format, OF k]
  have same: "is_worker m j \<longleftrightarrow> is_worker (mem s) j" for j
    using exec_roles[OF e] by (intro is_worker_cong) simp
  have "exited (mem s) = {}" using exec_frame[OF e] now by auto
  show "(\<exists>j. is_worker m j \<and> j \<notin> notify m) \<or> (\<exists>j. signalling (((pcs s)(i := p)) j))"
  proof (cases "queue_count (queue (mem s)) = 0")
    case True
    with step now have "signalling p" by blast
    then show ?thesis by (intro disjI2 exI[of _ i]) simp
  next
    case False
    with live \<open>exited (mem s) = {}\<close> consider j where "is_worker (mem s) j" "j \<notin> notify (mem s)"
      | j where "signalling (pcs s j)" by (auto simp: live_inv_def)
    then show ?thesis
    proof cases
      case (1 j)
      with step now show ?thesis by (auto simp: same)
    next
      case (2 j)
      show ?thesis
      proof (cases "j = i")
        case False
        with 2 show ?thesis by (intro disjI2 exI[of _ j]) simp
      next
        case True
        with step 2 have "cond_signal v (notify (mem s)) = Some (notify m)" by blast
        then show ?thesis
        proof (cases rule: cond_signal_cases)
          case 1
          with w0 have "is_worker m (Worker 0) \<and> Worker 0 \<notin> notify m"
            by (simp del: is_worker.simps add: same)
          then show ?thesis by blast
        next
          case 2
          with inv have "pcs s v = InWorker W_Blocked"
            by (auto simp: thpool_inv_def waiters_inv_def)
          with roles[of v] have "is_worker (mem s) v" by (auto simp: role_ok_def split: if_splits)
          with 2 show ?thesis by (auto simp: same)
        qed
      qed
    qed
  qed
qed

lemma live_inv_next:
  assumes "thpool_inv s" and "live_inv s" and "thpool_next e s = Some s'"
  shows "live_inv s'"
proof (cases e)
  case (Step i v)
  then obtain m p where "exec i v (pcs s i) (mem s) = Some (m, p)"
    and "s' = \<lparr>mem = m, pcs = (pcs s)(i := p)\<rparr>"
    using assms(3) by (auto simp only: step_Some)
  with step_live_inv[OF assms(1,2)] show ?thesis by simp
next
  case (Call c f)
  then obtain r where r: "pcs s (Client c) = Returned r"
    and s': "s' = s\<lparr>pcs := (pcs s)(Client c := entry f)\<rparr>"
    using assms(3) by (auto simp only: call_Some)
  have "signalling (pcs s j) \<Longrightarrow> signalling (pcs s' j)" for j using r by (auto simp: s')
  moreover have "mem s' = mem s" by (simp add: s')
  ultimately show ?thesis using assms(2) unfolding live_inv_def by metis
next
  case (Spurious i)
  with assms(2,3) show ?thesis by (auto simp: live_inv_def split: if_splits)
qed

interpretation thpool_live: safety thpool_init thpool_next "\<lambda>s. thpool_inv s \<and> live_inv s"
proof
  fix s assume init: "thpool_init s"
  then have "queue_count (queue (mem s)) = 0"
    by (auto simp: thpool_init_def new_system_def new_pool_def ring_new_def Let_def)
  with thpool_inv_init[OF init] show "thpool_inv s \<and> live_inv s" by (simp add: live_inv_def)
next
  fix s e s'
  assume "thpool_inv s \<and> live_inv s" and "thpool_next e s = Some s'"
  then show "thpool_inv s' \<and> live_inv s'" using thpool.inv_next live_inv_next by blast
qed

section \<open>A paused pool\<close>

text \<open>
  A thread that is not about to take a task without looking at \<open>pool->hold\<close> again: no
  worker past its test of the flag, nobody in \<open>thpool_worker_try_once\<close> (which ignores the
  flag) and nobody about to clear the flag.
\<close>

fun calm :: "pc \<Rightarrow> bool" where
  "calm (InWorker p) \<longleftrightarrow> p \<noteq> W_Inc \<and> p \<noteq> W_Take"
| "calm (InTryOnce p) \<longleftrightarrow> False"
| "calm (InMisc p) \<longleftrightarrow> p \<noteq> M_Resume"
| "calm _ \<longleftrightarrow> True"

definition paused :: "system \<Rightarrow> bool" where
  "paused s \<longleftrightarrow> hold (mem s) \<noteq> 0 \<and> (\<forall>i. calm (pcs s i))"

fun keeps_paused :: "event \<Rightarrow> bool" where
  "keeps_paused (Call c f) \<longleftrightarrow> f \<noteq> Resume \<and> f \<noteq> TryOnce"
| "keeps_paused _ \<longleftrightarrow> True"

lemma exec_paused:
  "exec i v p m = Some (m', p') \<Longrightarrow> hold m \<noteq> 0 \<and> calm p \<longrightarrow>
    hold m' \<noteq> 0 \<and> calm p' \<and> taken m' = taken m \<and> (knows p m \<longrightarrow>
      (queue_count (queue m) \<noteq> 0 \<longrightarrow> exited m' = exited m))"
  by (erule exec_points; erule step_elims; auto simp: outcome_simps step_defs split: if_splits)

lemma paused_next:
  assumes "paused s" and "keeps_paused e" and "thpool_next e s = Some s'"
  shows "paused s' \<and> taken (mem s') = taken (mem s)"
proof (cases e)
  case (Step i v)
  then obtain m p where e: "exec i v (pcs s i) (mem s) = Some (m, p)"
    and s': "s' = \<lparr>mem = m, pcs = (pcs s)(i := p)\<rparr>"
    using assms(3) by (auto simp only: step_Some)
  show ?thesis using exec_paused[OF e] assms(1) by (simp add: s' paused_def)
next
  case (Call c f)
  then have "calm (entry f)" using assms(2) by (cases f) auto
  with Call assms(1,3) show ?thesis by (auto simp only: call_Some paused_def) auto
next
  case (Spurious i)
  with assms(1,3) show ?thesis by (auto simp: paused_def split: if_splits)
qed

interpretation paused_pool: frozen_observation thpool_next keeps_paused paused "\<lambda>s. taken (mem s)"
  by unfold_locales (use paused_next in blast)+

text \<open>With a task in the queue no worker of a paused pool can return either.\<close>

definition paused_loaded :: "system \<Rightarrow> bool" where
  "paused_loaded s \<longleftrightarrow> thpool_inv s \<and> paused s \<and> queue_count (queue (mem s)) \<noteq> 0"

lemma paused_loaded_next:
  assumes pl: "paused_loaded s" and k: "keeps_paused e" and n: "thpool_next e s = Some s'"
  shows "paused_loaded s' \<and> exited (mem s') = exited (mem s)"
proof -
  have inv: "thpool_inv s" "thpool_inv s'" and p: "paused s"
    using pl thpool.inv_next[OF _ n] by (auto simp: paused_loaded_def)
  note paused = paused_next[OF p k n]
  have "ring_items (queue (mem s')) \<noteq> [] \<and> exited (mem s') = exited (mem s)"
  proof (cases e)
    case (Step i v)
    then obtain m q where e: "exec i v (pcs s i) (mem s) = Some (m, q)"
      and s': "s' = \<lparr>mem = m, pcs = (pcs s)(i := q)\<rparr>"
      using n by (auto simp only: step_Some)
    have know: "knows (pcs s i) (mem s)" using inv by (simp add: thpool_inv_def knows_inv_def)
    have grow: "length (submitted (mem s)) \<le> length (submitted m)"
      using exec_queue[OF e] know by auto
    have "submitted (mem s) = taken (mem s) @ ring_items (queue (mem s))"
      "submitted m = taken m @ ring_items (queue m)"
      using inv by (auto simp: thpool_inv_def queue_inv_def s')
    with paused grow have "unat (queue_count (queue (mem s))) \<le> unat (queue_count (queue m))"
      by (simp add: s')
    then have "ring_items (queue m) \<noteq> []"
      using pl by (auto simp: paused_loaded_def ring_items_empty unat_eq_zero)
    moreover have "exited m = exited (mem s)"
      using exec_paused[OF e] p know pl by (simp add: paused_def paused_loaded_def)
    ultimately show ?thesis by (simp add: s')
  next
    case (Call c f)
    with n pl show ?thesis
      by (auto simp only: call_Some) (simp_all add: paused_loaded_def ring_items_empty)
  next
    case (Spurious i)
    with n pl show ?thesis by (auto simp: paused_loaded_def ring_items_empty split: if_splits)
  qed
  with inv paused show ?thesis by (simp add: paused_loaded_def ring_items_empty)
qed

interpretation loaded_pool: frozen_observation thpool_next keeps_paused paused_loaded
  "\<lambda>s. exited (mem s)"
  by unfold_locales (use paused_loaded_next in blast)+

end
