(* ===== verification/TaskPool.thy ===== *)
theory TaskPool
  imports Ring
begin

text \<open>
  What a thread pool promises, as an abstract task pool: a list of pending tasks of bounded
  length, the tasks being run and the tasks done. Both pools of the library implement it; the
  argument they share goes through the history of tasks accepted, taken and finished.
\<close>

section \<open>The abstract pool\<close>

record task_pool =
  pending :: "task_t list"
  active :: "task_t multiset"
  completed :: "task_t multiset"

inductive pool_does :: "nat \<Rightarrow> task_pool \<Rightarrow> task_pool \<Rightarrow> bool" for cap :: nat where
  idle: "pool_does cap a a"
| submit: "length (pending a) < cap \<Longrightarrow> pool_does cap a (a\<lparr>pending := pending a @ [t]\<rparr>)"
| start: "pending a = t # ts \<Longrightarrow>
    pool_does cap a (a\<lparr>pending := ts, active := active a + {#t#}\<rparr>)"
| finish: "active a = A + {#t#} \<Longrightarrow>
    pool_does cap a (a\<lparr>active := A, completed := completed a + {#t#}\<rparr>)"

inductive_cases pool_doesE: "pool_does cap a b"

text \<open>The abstract pool loses no task and never exceeds its capacity.\<close>

lemma pool_does_bounded: "pool_does cap a b \<Longrightarrow> length (pending a) \<le> cap \<Longrightarrow> length (pending b) \<le> cap"
  by (induction rule: pool_does.induct) auto

lemma pool_does_keeps:
  "pool_does cap a b \<Longrightarrow>
    mset (pending a) + active a + completed a \<subseteq># mset (pending b) + active b + completed b"
  by (induction rule: pool_does.induct) (auto simp: ac_simps)

text \<open>A pool whose capacity is not fixed, and what it does in a whole run.\<close>

definition open_pool_does :: "task_pool \<Rightarrow> task_pool \<Rightarrow> bool" where
  "open_pool_does a b \<longleftrightarrow> (\<exists>cap. pool_does cap a b)"

lemma open_pool_run_keeps:
  "open_pool_does\<^sup>*\<^sup>* a b \<Longrightarrow>
    mset (pending a) + active a + completed a \<subseteq># mset (pending b) + active b + completed b"
proof (induction rule: rtranclp_induct)
  case (step b c)
  from step.hyps(2) have "mset (pending b) + active b + completed b \<subseteq># mset (pending c) + active c + completed c"
    unfolding open_pool_does_def using pool_does_keeps by blast
  with step.IH show ?case by (rule subset_mset.order_trans)
qed simp

section \<open>Histories\<close>

text \<open>
  The history of a pool explains its state: what was accepted is what was taken followed by
  what is pending, and what was taken is finished or active. A step extends one of the three
  histories by at most one task; then the state it leaves is one the abstract pool can reach.
\<close>

record task_history =
  accepted :: "task_t list"
  removed :: "task_t list"
  done_tasks :: "task_t list"

definition explains :: "task_history \<Rightarrow> task_pool \<Rightarrow> bool" where
  "explains h a \<longleftrightarrow> accepted h = removed h @ pending a \<and>
     mset (removed h) = mset (done_tasks h) + active a \<and> completed a = mset (done_tasks h)"

inductive history_step :: "bool \<Rightarrow> task_history \<Rightarrow> task_history \<Rightarrow> bool" for room :: bool where
  same: "history_step room h h"
| accept: "room \<Longrightarrow> history_step room h (h\<lparr>accepted := accepted h @ [t]\<rparr>)"
| remove: "history_step room h (h\<lparr>removed := removed h @ [t]\<rparr>)"
| complete: "history_step room h (h\<lparr>done_tasks := done_tasks h @ [t]\<rparr>)"

lemma explains_unique:
  assumes "explains h a" and "explains h b"
  shows "a = (b :: task_pool)"
  using assms by (auto simp: explains_def intro!: task_pool.equality)

lemma history_step_refines:
  assumes step: "history_step (length (pending a) < cap) h h'"
    and a: "explains h a" and b: "explains h' b"
  shows "pool_does cap a b"
  using step
proof cases
  case same
  with a b have "b = a" using explains_unique by blast
  then show ?thesis by (simp add: pool_does.idle)
next
  case (accept t)
  with a have "explains h' (a\<lparr>pending := pending a @ [t]\<rparr>)" by (simp add: explains_def)
  with b have "b = a\<lparr>pending := pending a @ [t]\<rparr>" using explains_unique by blast
  with accept(2) show ?thesis by (simp add: pool_does.submit)
next
  case (remove t)
  with a b have p: "pending a = t # pending b" by (simp add: explains_def)
  with remove a have "explains h' (a\<lparr>pending := pending b, active := active a + {#t#}\<rparr>)"
    by (simp add: explains_def)
  with b have "b = a\<lparr>pending := pending b, active := active a + {#t#}\<rparr>" by (rule explains_unique)
  with pool_does.start[OF p, of cap] show ?thesis by (simp only:)
next
  case (complete t)
  with a b have p: "active a = active b + {#t#}" by (simp add: explains_def)
  with complete a have "explains h' (a\<lparr>active := active b, completed := completed a + {#t#}\<rparr>)"
    by (simp add: explains_def)
  with b have "b = a\<lparr>active := active b, completed := completed a + {#t#}\<rparr>" by (rule explains_unique)
  with pool_does.finish[OF p, of cap] show ?thesis by (simp only:)
qed

end
