(* ===== verification/ThpoolSpec.thy ===== *)
theory ThpoolSpec
  imports ThpoolLive TaskPool
begin

text \<open>
  The locking pool implements the abstract task pool of \<open>TaskPool\<close>: every step of the
  concurrent program is a step of the abstract pool or changes nothing in it.
\<close>

section \<open>The abstraction\<close>

definition task_pool_of :: "system \<Rightarrow> task_pool" where
  "task_pool_of s = \<lparr>pending = ring_items (queue (mem s)), active = tsum carried (pcs s),
     completed = mset (finished (mem s))\<rparr>"

definition history_of :: "pool \<Rightarrow> task_history" where
  "history_of m = \<lparr>accepted = submitted m, removed = taken m, done_tasks = finished m\<rparr>"

lemma history_explains: "thpool_inv s \<Longrightarrow> explains (history_of (mem s)) (task_pool_of s)"
  by (simp add: explains_def history_of_def task_pool_of_def thpool_inv_def queue_inv_def task_inv_def)

lemma exec_history:
  "exec i v p m = Some (m', p') \<Longrightarrow> knows p m \<longrightarrow>
    history_step (\<not> ring_full (queue m)) (history_of m) (history_of m') \<and>
    ring_cap (queue m') = ring_cap (queue m)"
  by (erule exec_points; erule step_elims;
      auto simp: outcome_simps step_defs history_of_def history_step.simps ring_cap_def split: if_splits)

lemma step_refines:
  assumes inv: "thpool_inv s" and e: "exec i v (pcs s i) (mem s) = Some (m, p)"
  shows "pool_does (ring_cap (queue (mem s))) (task_pool_of s)
    (task_pool_of \<lparr>mem = m, pcs = (pcs s)(i := p)\<rparr>)"
proof -
  let ?s' = "\<lparr>mem = m, pcs = (pcs s)(i := p)\<rparr>" and ?q = "queue (mem s)"
  have "thpool_next (Step i v) s = Some ?s'" using e by simp
  from history_explains[OF thpool.inv_next[OF inv this]]
  have after: "explains (history_of m) (task_pool_of ?s')" by simp
  have "knows (pcs s i) (mem s)" and ok: "ring_ok ?q"
    using inv by (auto simp: thpool_inv_def knows_inv_def queue_inv_def)
  with exec_history[OF e] have step: "history_step (\<not> ring_full ?q) (history_of (mem s)) (history_of m)"
    by blast
  have "\<not> ring_full ?q \<longleftrightarrow> length (pending (task_pool_of s)) < ring_cap ?q"
    using task_ring.items_cap[OF ok] by (auto simp: ring_full_length task_pool_of_def)
  with step have "history_step (length (pending (task_pool_of s)) < ring_cap ?q)
      (history_of (mem s)) (history_of m)" by simp
  then show ?thesis by (rule history_step_refines[OF _ history_explains[OF inv] after])
qed

lemma next_refines:
  assumes inv: "thpool_inv s" and n: "thpool_next e s = Some s'"
  shows "pool_does (ring_cap (queue (mem s))) (task_pool_of s) (task_pool_of s')"
proof (cases e)
  case (Step i v)
  with n step_refines[OF inv] show ?thesis by (auto simp only: step_Some)
next
  case (Call c f)
  with n obtain r where r: "pcs s (Client c) = Returned r"
    and s': "s' = s\<lparr>pcs := (pcs s)(Client c := entry f)\<rparr>" by (auto simp only: call_Some)
  have "tsum carried (pcs s') = tsum carried (pcs s)"
    using tsum_upd_eq[of carried "pcs s" "Client c" "entry f"] by (simp add: s' r)
  then have "task_pool_of s' = task_pool_of s" by (simp add: task_pool_of_def) (simp add: s')
  then show ?thesis by (simp add: pool_does.idle)
next
  case (Spurious i)
  with n have "task_pool_of s' = task_pool_of s"
    by (auto simp: task_pool_of_def split: if_splits)
  then show ?thesis by (simp add: pool_does.idle)
qed

section \<open>Consequences of the invariant\<close>

lemma running_card:
  assumes "running_inv s"
  shows "unat (running_count (mem s)) = card {i. running (pcs s i)}"
proof -
  have "card {i. running (pcs s i)} < 2 ^ 64"
    using tsum_running_less[of "pcs s"] by (simp only: tsum_of_bool)
  with assms show ?thesis
    by (simp add: running_inv_def tsum_of_bool unat_of_nat take_bit_nat_eq_self)
qed

lemma carried_running: "carried p \<noteq> {#} \<Longrightarrow> running p"
  by (cases p; auto split: wpc.splits tpc.splits)

lemma running_count_zero:
  assumes "running_inv s" and "running_count (mem s) = 0"
  shows "\<not> running (pcs s i)" and "tsum carried (pcs s) = {#}"
proof -
  have "card {i. running (pcs s i)} = 0" using running_card[OF assms(1)] assms(2) by simp
  then have none: "\<not> running (pcs s i)" for i by auto
  then show "\<not> running (pcs s i)" .
  show "tsum carried (pcs s) = {#}"
    by (rule tsum_const_zero) (use none carried_running in blast)
qed

text \<open>An idle, empty pool has run every task it accepted.\<close>

lemma idle_empty_done:
  assumes "thpool_inv s" and "queue_count (queue (mem s)) = 0" and "running_count (mem s) = 0"
  shows "mset (finished (mem s)) = mset (submitted (mem s))"
proof -
  have "submitted (mem s) = taken (mem s)"
    using assms by (simp add: thpool_inv_def queue_inv_def ring_items_empty[symmetric])
  moreover have "tsum carried (pcs s) = {#}"
    using running_count_zero(2) assms by (simp add: thpool_inv_def)
  ultimately show ?thesis using assms by (simp add: thpool_inv_def task_inv_def)
qed

text \<open>When every worker has returned, what they took has been run.\<close>

lemma workers_gone_done:
  assumes inv: "thpool_inv s" and gone: "\<forall>i. is_worker (mem s) i \<longrightarrow> i \<in> exited (mem s)"
    and clients: "\<forall>c. carried (pcs s (Client c)) = {#}" and mark: "drain_mark (mem s) = Some n"
  shows "mset (take n (submitted (mem s))) \<subseteq># mset (finished (mem s))"
proof -
  have roles: "role_ok (mem s) i (pcs s i)" for i
    using inv by (simp add: thpool_inv_def role_inv_def)
  have "pcs s (Worker w) = Returned RVoid" for w
    using roles[of "Worker w"] gone by (auto simp: role_ok_def split: if_splits)
  then have "carried (pcs s i) = {#}" for i using clients by (cases i) auto
  then have "tsum carried (pcs s) = {#}" by (intro tsum_const_zero) simp
  then have fin: "mset (finished (mem s)) = mset (taken (mem s))"
    using inv by (simp add: thpool_inv_def task_inv_def)
  have "is_worker (mem s) (Worker 0)"
    using inv some_worker unfolding thpool_inv_def by blast
  then have "exited (mem s) \<noteq> {}" using gone by blast
  then have "n \<le> length (taken (mem s))"
    using inv mark by (simp add: thpool_inv_def drain_inv_def)
  then have "take n (submitted (mem s)) = take n (taken (mem s))"
    using inv by (simp add: thpool_inv_def queue_inv_def)
  moreover have "mset (take n (taken (mem s))) \<subseteq># mset (taken (mem s))"
    by (metis append_take_drop_id mset_append mset_subset_eq_add_left)
  ultimately show ?thesis by (simp add: fin)
qed

end
