(* ===== verification/ThpoolProps.thy ===== *)
theory ThpoolProps
  imports ThpoolSpec
begin

text \<open>
  The properties of the locking pool, over every state any schedule of clients and workers
  reaches from a freshly created pool, with concrete schedules as witnesses.
\<close>

section \<open>Concrete schedules\<close>

definition example_task :: task_t where
  "example_task = \<lparr>task_function = 4096, task_arg = 7\<rparr>"

text \<open>A pool with one worker and room for \<open>n\<close> tasks.\<close>

definition small_pool :: "size_t \<Rightarrow> system" where
  "small_pool n = new_system (replicate (unat n) example_task) 1 n"

definition steps :: "tid \<Rightarrow> nat \<Rightarrow> event list" where
  "steps i n = replicate n (Step i i)"

lemma steps_simps [simp]:
  "steps i 0 = []" "steps i (Suc n) = Step i i # steps i n"
  "steps i (numeral k) = Step i i # steps i (pred_numeral k)"
  by (simp_all add: steps_def numeral_eq_Suc)

lemmas eval_pool = small_pool_def new_system_def new_pool_def ring_new_def prim_defs ring_full_def
  ring_put_def ring_advance_def ring_front_def cond_signal_def worker_handle_def example_task_def

lemma small_pool_init: "0 < n \<Longrightarrow> thpool_init (small_pool n)"
  unfolding thpool_init_def small_pool_def
  by (rule exI[of _ "replicate (unat n) example_task"], rule exI[of _ 1], rule exI[of _ n]) simp

lemma small_pool_reach: "0 < n \<Longrightarrow> reach thpool_init thpool_next (small_pool n)"
  by (rule reach_init) (rule small_pool_init)

lemma small_pool_run:
  "0 < n \<Longrightarrow> run thpool_next es (small_pool n) = Some s \<Longrightarrow> reach thpool_init thpool_next s"
  by (rule reach_run) (auto intro: small_pool_reach)

lemma reach_thpool_inv: "reach thpool_init thpool_next s \<Longrightarrow> thpool_inv s"
  by (rule thpool.reach_inv)

text \<open>One task added, the worker stopped just before it runs it.\<close>

definition sched_running :: "event list" where
  "sched_running = Call 0 (Add example_task) # steps (Client 0) 5 @ steps (Worker 0) 6"

definition state_running :: system where
  "state_running = \<lparr>mem = (new_pool [example_task] 1 1)\<lparr>running_count := 1,
       queue := (ring_new [example_task] 1), submitted := [example_task],
       taken := [example_task]\<rparr>,
     pcs = (pcs (small_pool 1))(Client 0 := Returned (RInt 0),
       Worker 0 := InWorker (W_Run example_task))\<rparr>"

lemma run_running: "run thpool_next sched_running (small_pool 1) = Some state_running"
  by (simp add: sched_running_def state_running_def eval_pool fun_upd_twist)

lemma reach_running: "reach thpool_init thpool_next state_running"
  by (rule small_pool_run[OF _ run_running]) simp

section \<open>Safety\<close>

text \<open>
  C1: Every step of the pool (any thread, any interleaving, spurious wake-ups included) is
  a step of the abstract bounded task pool: it appends one accepted task while there is
  room, or moves the oldest pending task to the running ones, or completes a running task,
  or leaves all of that unchanged.
\<close>

theorem thpool_refines_task_pool:
  assumes "reach thpool_init thpool_next s" and "thpool_next e s = Some s'"
  shows "pool_does (ring_cap (queue (mem s))) (task_pool_of s) (task_pool_of s')"
  using next_refines[OF reach_thpool_inv[OF assms(1)] assms(2)] .

theorem thpool_refines_task_pool_witness:
  "\<exists>s'. thpool_next (Step (Worker 0) (Worker 0)) state_running = Some s' \<and>
     pool_does (ring_cap (queue (mem state_running))) (task_pool_of state_running) (task_pool_of s') \<and>
     completed (task_pool_of s') = {#example_task#}"
proof -
  obtain s' where s': "thpool_next (Step (Worker 0) (Worker 0)) state_running = Some s'"
    and f: "finished (mem s') = [example_task]"
    by (simp add: state_running_def eval_pool)
  with thpool_refines_task_pool[OF reach_running s'] show ?thesis by (auto simp: task_pool_of_def)
qed

text \<open>
  C3: The queue is first in, first out and loses nothing: the tasks accepted so far are the
  tasks dequeued so far followed by those in the ring, and every accepted task is in
  exactly one place: run to completion, carried by one thread, or in the ring.
\<close>

theorem thpool_fifo_conservation:
  assumes "reach thpool_init thpool_next s"
  shows "submitted (mem s) = taken (mem s) @ ring_items (queue (mem s)) \<and>
    mset (submitted (mem s)) =
      mset (finished (mem s)) + tsum carried (pcs s) + mset (ring_items (queue (mem s))) \<and>
    length (ring_items (queue (mem s))) \<le> unat (queue_size (queue (mem s)))"
proof -
  have inv: "thpool_inv s" by (rule reach_thpool_inv[OF assms])
  then have "ring_ok (queue (mem s))" by (simp add: thpool_inv_def queue_inv_def)
  with inv task_ring.items_cap[of "queue (mem s)"] show ?thesis
    by (simp add: thpool_inv_def queue_inv_def task_inv_def ring_cap_def)
qed

theorem thpool_fifo_conservation_witness:
  "reach thpool_init thpool_next state_running \<and>
   mset [example_task] = mset [] + tsum carried (pcs state_running) + mset []"
  using thpool_fifo_conservation[OF reach_running] reach_running
  by (simp add: state_running_def new_pool_def)

text \<open>
  C5: When \<open>thpool_wait\<close> is about to return (line 224, still owning the mutex), the queue is
  empty, no thread is inside a task, and every task ever accepted has run to completion.
\<close>

theorem thpool_wait_postcondition:
  assumes "reach thpool_init thpool_next s" and "pcs s i = InWait E_Return"
  shows "ring_items (queue (mem s)) = [] \<and> (\<forall>j. \<not> running (pcs s j)) \<and>
    mset (finished (mem s)) = mset (submitted (mem s))"
proof -
  have inv: "thpool_inv s" by (rule reach_thpool_inv[OF assms(1)])
  then have "knows (pcs s i) (mem s)" by (simp add: thpool_inv_def knows_inv_def)
  with assms(2) have zero: "queue_count (queue (mem s)) = 0" "running_count (mem s) = 0" by auto
  with idle_empty_done[OF inv] running_count_zero[of s] inv show ?thesis
    by (simp add: ring_items_empty thpool_inv_def)
qed

definition sched_waited :: "event list" where
  "sched_waited = Call 0 (Add example_task) # steps (Client 0) 5 @ steps (Worker 0) 8 @
     Call 1 Wait # steps (Client 1) 4"

definition state_waited :: system where
  "state_waited = \<lparr>mem = (new_pool [example_task] 1 1)\<lparr>lock := Some (Client 1),
       submitted := [example_task], taken := [example_task], finished := [example_task]\<rparr>,
     pcs = (pcs (small_pool 1))(Client 0 := Returned (RInt 0), Worker 0 := InWorker W_Lock,
       Client 1 := InWait E_Return)\<rparr>"

lemma run_waited: "run thpool_next sched_waited (small_pool 1) = Some state_waited"
  by (simp add: sched_waited_def state_waited_def eval_pool fun_upd_twist)

theorem thpool_wait_postcondition_witness:
  "pcs state_waited (Client 1) = InWait E_Return \<and>
   mset (finished (mem state_waited)) = mset (submitted (mem state_waited))"
proof -
  have r: "reach thpool_init thpool_next state_waited"
    by (rule small_pool_run[OF _ run_waited]) simp
  have p: "pcs state_waited (Client 1) = InWait E_Return" by (simp add: state_waited_def)
  from thpool_wait_postcondition[OF r p] p show ?thesis by blast
qed

text \<open>
  C15: Once \<open>thpool_shutdown\<close> has joined every worker (the loop of line 238 is over) and no
  client is inside \<open>thpool_worker_try_once\<close>, every task accepted before the shutdown flag
  was set has run to completion.
\<close>

theorem thpool_shutdown_drains:
  assumes "reach thpool_init thpool_next s" and "pcs s i = InShutdown (H_Join d k)"
    and "\<not> k < thread_count (mem s)" and "\<forall>c. carried (pcs s (Client c)) = {#}"
  shows "\<exists>n. drain_mark (mem s) = Some n \<and>
    mset (take n (submitted (mem s))) \<subseteq># mset (finished (mem s))"
proof -
  have inv: "thpool_inv s" by (rule reach_thpool_inv[OF assms(1)])
  then have "knows (pcs s i) (mem s)" by (simp add: thpool_inv_def knows_inv_def)
  with assms(2) have sd: "shutdown (mem s) = 1"
    and w: "\<And>w :: 32 word. unat w < unat k \<Longrightarrow> Worker w \<in> exited (mem s)" by auto
  have "unat (thread_count (mem s)) \<le> unat k"
    using assms(3) by (simp add: word_le_nat_alt not_less)
  then have gone: "\<forall>j. is_worker (mem s) j \<longrightarrow> j \<in> exited (mem s)"
    using w by (metis is_worker.simps less_le_trans tid.exhaust)
  from sd inv obtain n where "drain_mark (mem s) = Some n"
    by (auto simp: thpool_inv_def drain_inv_def)
  with workers_gone_done[OF inv gone assms(4)] show ?thesis by blast
qed

definition sched_shut :: "event list" where
  "sched_shut = Call 0 (Add example_task) # steps (Client 0) 5 @
     Call 0 Shutdown # steps (Client 0) 4 @ steps (Worker 0) 14 @ steps (Client 0) 1"

definition state_shut :: system where
  "state_shut = \<lparr>mem = (new_pool [example_task] 1 1)\<lparr>shutdown := 1, drain_mark := Some 1,
       exited := {Worker 0}, joined := {Worker 0},
       submitted := [example_task], taken := [example_task], finished := [example_task]\<rparr>,
     pcs = (pcs (small_pool 1))(Worker 0 := Returned RVoid,
       Client 0 := InShutdown (H_Join False 1))\<rparr>"

lemma run_shut: "run thpool_next sched_shut (small_pool 1) = Some state_shut"
  by (simp add: sched_shut_def state_shut_def eval_pool fun_upd_twist)

lemma reach_shut: "reach thpool_init thpool_next state_shut"
  by (rule small_pool_run[OF _ run_shut]) simp

theorem thpool_shutdown_drains_witness:
  "\<exists>n. drain_mark (mem state_shut) = Some n \<and>
    mset (take n (submitted (mem state_shut))) \<subseteq># mset (finished (mem state_shut))"
  by (rule thpool_shutdown_drains[OF reach_shut, of "Client 0" False 1])
    (simp_all add: state_shut_def eval_pool)


text \<open>
  No task wake-up is lost: while a task is queued and no worker has returned, some
  worker is not blocked on \<open>pool->notify\<close>, or the client that enqueued is about to signal.
\<close>

theorem thpool_no_lost_task_wakeup:
  assumes "reach thpool_init thpool_next s"
    and "ring_items (queue (mem s)) \<noteq> []" and "exited (mem s) = {}"
  shows "(\<exists>i. is_worker (mem s) i \<and> i \<notin> notify (mem s)) \<or> (\<exists>i. signalling (pcs s i))"
proof -
  have "live_inv s" using thpool_live.reach_inv[OF assms(1)] by blast
  with assms(2,3) show ?thesis by (simp add: live_inv_def ring_items_empty)
qed

definition sched_queued :: "event list" where
  "sched_queued = steps (Worker 0) 6 @ Call 0 (Add example_task) # steps (Client 0) 3 @
     [Step (Client 0) (Worker 0)]"

definition state_queued :: system where
  "state_queued = \<lparr>mem = (new_pool [example_task] 1 1)\<lparr>lock := Some (Client 0),
       queue := (ring_new [example_task] 1)\<lparr>queue_count := 1\<rparr>, submitted := [example_task]\<rparr>,
     pcs = (pcs (small_pool 1))(Worker 0 := InWorker W_Blocked, Client 0 := InAdd A_Unlock)\<rparr>"

lemma run_queued: "run thpool_next sched_queued (small_pool 1) = Some state_queued"
  by (simp add: sched_queued_def state_queued_def eval_pool fun_upd_twist)

theorem thpool_no_lost_task_wakeup_witness:
  "(\<exists>i. is_worker (mem state_queued) i \<and> i \<notin> notify (mem state_queued)) \<or>
    (\<exists>i. signalling (pcs state_queued i))"
proof (rule thpool_no_lost_task_wakeup)
  show "reach thpool_init thpool_next state_queued"
    by (rule small_pool_run[OF _ run_queued]) simp
qed (simp_all add: state_queued_def eval_pool ring_items_empty)

text \<open>
  \<open>thpool_active_tasks\<close> is exact: it reads the number of threads, workers and
  \<open>thpool_worker_try_once\<close> callers alike, between their increment and their decrement of
  \<open>running_count\<close>; the counter never wraps around.
\<close>

theorem thpool_active_tasks_exact:
  assumes "reach thpool_init thpool_next s"
  shows "unat (active_tasks (mem s)) = card {i. running (pcs s i)}"
  using running_card reach_thpool_inv[OF assms] by (simp add: active_tasks_def thpool_inv_def)

theorem thpool_active_tasks_exact_witness:
  "reach thpool_init thpool_next state_running \<and> card {i. running (pcs state_running i)} = 1"
  using thpool_active_tasks_exact[OF reach_running] reach_running
  by (simp add: state_running_def active_tasks_def)

text \<open>
  \<open>thpool_total_tasks\<close> returns the queued tasks plus the running threads, and as long as
  the queue is smaller than \<open>2 ^ 63\<close> the sum does not wrap around.
\<close>

theorem thpool_total_tasks_exact:
  assumes "reach thpool_init thpool_next s" and "unat (queue_size (queue (mem s))) < 2 ^ 63"
  shows "unat (total_tasks (mem s)) =
    card {i. running (pcs s i)} + length (ring_items (queue (mem s)))"
proof -
  have inv: "thpool_inv s" by (rule reach_thpool_inv[OF assms(1)])
  have r: "unat (running_count (mem s)) = card {i. running (pcs s i)}"
    using running_card inv by (simp add: thpool_inv_def)
  have "card {i. running (pcs s i)} \<le> card (UNIV :: tid set)" by (rule card_mono) auto
  then have "unat (running_count (mem s)) \<le> 2 ^ 33" by (simp add: r card_tid)
  moreover have "unat (queue_count (queue (mem s))) \<le> unat (queue_size (queue (mem s)))"
    using inv by (simp add: thpool_inv_def queue_inv_def ring_ok_def)
  ultimately have "unat (running_count (mem s)) + unat (queue_count (queue (mem s))) < 2 ^ 64"
    using assms(2) by simp
  then show ?thesis by (simp add: total_tasks_def unat_word_ariths r[symmetric])
qed

theorem thpool_total_tasks_exact_witness:
  "card {i. running (pcs state_running i)} + length (ring_items (queue (mem state_running))) = 1"
proof -
  have "unat (queue_size (queue (mem state_running))) < 2 ^ 63"
    by (simp add: state_running_def eval_pool)
  from thpool_total_tasks_exact[OF reach_running this] show ?thesis
    by (simp add: state_running_def eval_pool)
qed

text \<open>
  The mutex is used correctly: at most one thread is inside a critical section, it is
  the recorded owner, no thread has returned from the library while owning it, and the
  owner is never blocked: it always has an enabled step.
\<close>

theorem thpool_lock_discipline:
  assumes "reach thpool_init thpool_next s"
  shows "(\<forall>i j. holds (pcs s i) \<and> holds (pcs s j) \<longrightarrow> i = j) \<and>
    (\<forall>i. lock (mem s) = Some i \<longleftrightarrow> holds (pcs s i)) \<and>
    (\<forall>i r. lock (mem s) = Some i \<longrightarrow> pcs s i \<noteq> Returned r) \<and>
    (\<forall>i. lock (mem s) = Some i \<longrightarrow> (\<exists>v s'. thpool_next (Step i v) s = Some s'))"
proof -
  have own: "holds (pcs s i) \<longleftrightarrow> lock (mem s) = Some i" for i
    using reach_thpool_inv[OF assms] unfolding thpool_inv_def lock_inv_def by blast
  have "\<exists>v s'. thpool_next (Step i v) s = Some s'" if l: "lock (mem s) = Some i" for i
  proof -
    from own l have "holds (pcs s i)" by blast
    then obtain v m p where "exec i v (pcs s i) (mem s) = Some (m, p)" by (rule exec_holder)
    then show ?thesis by (auto simp only: step_Some)
  qed
  moreover have "pcs s i \<noteq> Returned r" if "lock (mem s) = Some i" for i r
    using own[of i] that by auto
  moreover have "i = j" if "holds (pcs s i)" "holds (pcs s j)" for i j
    using own[of i] own[of j] that by simp
  ultimately show ?thesis using own by blast
qed

theorem thpool_lock_discipline_witness:
  "lock (mem state_waited) = Some (Client 1) \<and>
   (\<exists>v s'. thpool_next (Step (Client 1) v) state_waited = Some s')"
proof -
  have r: "reach thpool_init thpool_next state_waited"
    by (rule small_pool_run[OF _ run_waited]) simp
  have l: "lock (mem state_waited) = Some (Client 1)" by (simp add: state_waited_def)
  with thpool_lock_discipline[OF r] show ?thesis by blast
qed

text \<open>
  \<open>thpool_destroy\<close> frees the pool only after every worker has returned, so no worker
  touches freed memory.
\<close>

theorem thpool_freed_no_worker:
  assumes "reach thpool_init thpool_next s" and "freed (mem s)"
  shows "pcs s (Worker w) = Returned RVoid"
proof -
  have inv: "thpool_inv s" by (rule reach_thpool_inv[OF assms(1)])
  then have "role_ok (mem s) (Worker w) (pcs s (Worker w))" by (simp add: thpool_inv_def role_inv_def)
  moreover have "is_worker (mem s) (Worker w) \<longrightarrow> Worker w \<in> exited (mem s)"
    using inv assms(2) unfolding thpool_inv_def drain_inv_def by blast
  ultimately show ?thesis by (auto simp: role_ok_def split: if_splits)
qed

definition sched_destroy :: "event list" where
  "sched_destroy = Call 0 Destroy # steps (Client 0) 4 @ steps (Worker 0) 6 @ steps (Client 0) 3"

theorem thpool_freed_no_worker_witness:
  "\<exists>s. run thpool_next sched_destroy (small_pool 1) = Some s \<and> freed (mem s) \<and>
     pcs s (Worker 0) = Returned RVoid"
proof -
  obtain s where r: "run thpool_next sched_destroy (small_pool 1) = Some s" and f: "freed (mem s)"
    by (simp add: sched_destroy_def eval_pool)
  have "reach thpool_init thpool_next s" by (rule small_pool_run[OF _ r]) simp
  from thpool_freed_no_worker[OF this f] r f show ?thesis by blast
qed

section \<open>Pausing\<close>

text \<open>
  While a pool is paused (the flag set, no worker past its test of the flag, nobody in
  \<open>thpool_worker_try_once\<close>), no task leaves the queue, whatever the threads do, until a
  client calls \<open>thpool_resume\<close> or \<open>thpool_worker_try_once\<close>.
\<close>

theorem thpool_paused_takes_nothing:
  assumes "paused s" and "list_all keeps_paused es" and "run thpool_next es s = Some s'"
  shows "paused s' \<and> taken (mem s') = taken (mem s)"
  by (rule paused_pool.run_frozen[OF assms])

definition sched_paused :: "event list" where
  "sched_paused = Call 0 Pause # steps (Client 0) 1 @ Call 0 (Add example_task) # steps (Client 0) 5"

definition state_paused :: system where
  "state_paused = \<lparr>mem = (new_pool [example_task] 1 1)\<lparr>hold := 1,
       queue := (ring_new [example_task] 1)\<lparr>queue_count := 1\<rparr>, submitted := [example_task]\<rparr>,
     pcs = (pcs (small_pool 1))(Client 0 := Returned (RInt 0))\<rparr>"

lemma run_paused: "run thpool_next sched_paused (small_pool 1) = Some state_paused"
  by (simp add: sched_paused_def state_paused_def eval_pool fun_upd_twist)

lemma reach_paused: "reach thpool_init thpool_next state_paused"
  by (rule small_pool_run[OF _ run_paused]) simp

lemma state_paused_paused: "paused state_paused"
  by (simp add: paused_def state_paused_def eval_pool)

theorem thpool_paused_takes_nothing_witness:
  "\<exists>s'. run thpool_next (steps (Worker 0) 5) state_paused = Some s' \<and> taken (mem s') = []"
proof -
  obtain s' where r: "run thpool_next (steps (Worker 0) 5) state_paused = Some s'"
    by (simp add: state_paused_def eval_pool)
  have "list_all keeps_paused (steps (Worker 0) 5)" by simp
  from thpool_paused_takes_nothing[OF state_paused_paused this r] r show ?thesis
    by (auto simp: state_paused_def new_pool_def)
qed

text \<open>
  C37: \<open>thpool_shutdown\<close> (and so \<open>thpool_destroy\<close>) of a paused pool with a queued task does
  not return: from a state in which no worker has returned or is past its test of the pause, and
  nobody is resuming the pool or inside \<open>thpool_worker_try_once\<close> (which ignores the pause), as
  long as nobody calls \<open>thpool_resume\<close> or \<open>thpool_worker_try_once\<close>, no worker returns and the
  call stays at its first \<open>pthread_join\<close>.
\<close>

theorem thpool_shutdown_paused_hangs:
  assumes "reach thpool_init thpool_next s" and "paused s"
    and "ring_items (queue (mem s)) \<noteq> []" and "exited (mem s) = {}"
    and "list_all keeps_paused es" and "run thpool_next es s = Some s'"
  shows "exited (mem s') = {} \<and> (\<forall>i d v. pcs s' i = InShutdown (H_Join d 0) \<longrightarrow>
    thpool_next (Step i v) s' = None)"
proof -
  have "paused_loaded s"
    using assms(2,3) reach_thpool_inv[OF assms(1)] by (simp add: paused_loaded_def ring_items_empty)
  from loaded_pool.run_frozen[OF this assms(5,6)] assms(4)
  have ex: "exited (mem s') = {}" and inv: "thpool_inv s'" by (auto simp: paused_loaded_def)
  have "joined (mem s') = {}" using inv ex by (auto simp: thpool_inv_def role_inv_def)
  moreover have "0 < thread_count (mem s')"
    using inv by (simp add: thpool_inv_def size_inv_def word_less_nat_alt)
  ultimately show ?thesis using ex by (simp add: join_worker_def)
qed

theorem thpool_shutdown_paused_hangs_witness:
  "\<exists>s'. run thpool_next (Call 0 Destroy # steps (Client 0) 4 @ steps (Worker 0) 5) state_paused =
     Some s' \<and> (\<forall>v. thpool_next (Step (Client 0) v) s' = None)"
proof -
  let ?es = "Call 0 Destroy # steps (Client 0) 4 @ steps (Worker 0) 5"
  obtain s' where r: "run thpool_next ?es state_paused = Some s'"
    and p: "pcs s' (Client 0) = InShutdown (H_Join True 0)"
    by (simp add: state_paused_def eval_pool)
  have "ring_items (queue (mem state_paused)) \<noteq> []" "exited (mem state_paused) = {}"
    "list_all keeps_paused ?es"
    by (simp_all add: ring_items_empty state_paused_def eval_pool)
  from thpool_shutdown_paused_hangs[OF reach_paused state_paused_paused this r] p r
  show ?thesis by blast
qed


section \<open>Waiters that are never woken\<close>

text \<open>Without a spurious wake-up no thread of the system can take a step.\<close>

definition stuck :: "system \<Rightarrow> bool" where
  "stuck s \<longleftrightarrow> (\<forall>i v. thpool_next (Step i v) s = None)"

definition sched_two_waiters :: "event list" where
  "sched_two_waiters = Call 0 (Add example_task) # steps (Client 0) 5 @
     Call 1 Wait # steps (Client 1) 5 @ Call 2 Wait # steps (Client 2) 5 @
     steps (Worker 0) 11 @ [Step (Worker 0) (Client 1)] @ steps (Worker 0) 2 @ steps (Client 1) 7"

definition state_two_waiters :: system where
  "state_two_waiters = \<lparr>mem = (new_pool [example_task] 1 1)\<lparr>notify := {Worker 0},
       notify_empty := {Client 2},
       submitted := [example_task], taken := [example_task], finished := [example_task]\<rparr>,
     pcs = (pcs (small_pool 1))(Client 0 := Returned (RInt 0), Client 1 := Returned RVoid,
       Client 2 := InWait E_Blocked, Worker 0 := InWorker W_Blocked)\<rparr>"

lemma run_two_waiters:
  "run thpool_next sched_two_waiters (small_pool 1) = Some state_two_waiters"
  by (simp add: sched_two_waiters_def state_two_waiters_def eval_pool fun_upd_twist insert_Diff_if)

lemma stuck_two_waiters: "stuck state_two_waiters"
  unfolding stuck_def
proof (intro allI)
  fix i v
  show "thpool_next (Step i v) state_two_waiters = None"
    by (cases i) (simp_all add: state_two_waiters_def eval_pool unat_eq_zero)
qed

text \<open>
  Two clients in \<open>thpool_wait\<close>: the worker that finishes the last task wakes one of
  them with \<open>pthread_cond_signal\<close>, that one returns, and the other stays blocked in a pool
  with nothing queued and nothing running, with no thread left that could wake it.
\<close>

theorem thpool_wait_second_waiter_stuck:
  "\<exists>s. reach thpool_init thpool_next s \<and> pcs s (Client 2) = InWait E_Blocked \<and>
     ring_items (queue (mem s)) = [] \<and> active_tasks (mem s) = 0 \<and>
     finished (mem s) = submitted (mem s) \<and> stuck s"
proof (intro exI conjI)
  show "reach thpool_init thpool_next state_two_waiters"
    by (rule small_pool_run[OF _ run_two_waiters]) simp
qed (simp_all add: stuck_two_waiters, simp_all add: state_two_waiters_def eval_pool ring_items_empty)

definition sched_try_once :: "event list" where
  "sched_try_once = Call 0 (Add example_task) # steps (Client 0) 5 @
     Call 3 TryOnce # steps (Client 3) 5 @ Call 1 Wait # steps (Client 1) 5 @
     steps (Worker 0) 5 @ steps (Client 3) 2"

definition state_try_once :: system where
  "state_try_once = \<lparr>mem = (new_pool [example_task] 1 1)\<lparr>notify := {Worker 0},
       notify_empty := {Client 1},
       submitted := [example_task], taken := [example_task], finished := [example_task]\<rparr>,
     pcs = (pcs (small_pool 1))(Client 0 := Returned (RInt 0), Client 3 := Returned (RInt 0),
       Client 1 := InWait E_Blocked, Worker 0 := InWorker W_Blocked)\<rparr>"

text \<open>
  A client blocked in \<open>thpool_wait\<close> while another runs the last task through
  \<open>thpool_worker_try_once\<close>: that call decrements the counter and returns without
  signalling \<open>notify_empty\<close>, and the waiter is never woken.
\<close>

theorem thpool_wait_stuck_after_try_once:
  "\<exists>s. reach thpool_init thpool_next s \<and> pcs s (Client 1) = InWait E_Blocked \<and>
     ring_items (queue (mem s)) = [] \<and> active_tasks (mem s) = 0 \<and>
     finished (mem s) = submitted (mem s) \<and> stuck s"
proof (intro exI conjI)
  have "run thpool_next sched_try_once (small_pool 1) = Some state_try_once"
    by (simp add: sched_try_once_def state_try_once_def eval_pool fun_upd_twist)
  then show "reach thpool_init thpool_next state_try_once"
    by (rule small_pool_run[rotated]) simp
  show "stuck state_try_once"
    unfolding stuck_def
  proof (intro allI)
    fix i v
    show "thpool_next (Step i v) state_try_once = None"
      by (cases i) (simp_all add: state_try_once_def eval_pool unat_eq_zero)
  qed
qed (simp_all add: state_try_once_def eval_pool ring_items_empty)

section \<open>Joining twice\<close>

text \<open>
  \<open>thpool_shutdown\<close> does not remember that it joined the workers: when the first worker
  has been joined, the next \<open>thpool_shutdown\<close> or \<open>thpool_destroy\<close> that reaches its join
  loop joins the same thread again, which is undefined behaviour.
\<close>

theorem thpool_joins_again:
  assumes "reach thpool_init thpool_next s" and "pcs s i = InShutdown (H_Join d 0)"
    and "Worker 0 \<in> joined (mem s)"
  shows "\<exists>s'. thpool_next (Step i v) s = Some s' \<and> joined_twice (mem s')"
proof -
  have "0 < thread_count (mem s)"
    using reach_thpool_inv[OF assms(1)]
    by (simp add: thpool_inv_def size_inv_def word_less_nat_alt)
  with assms(2,3) show ?thesis by (simp add: join_worker_def worker_handle_def)
qed

theorem thpool_joins_again_witness:
  "\<exists>s s'. run thpool_next (sched_shut @ steps (Client 0) 1 @ Call 0 Destroy # steps (Client 0) 4)
      (small_pool 1) = Some s \<and>
    thpool_next (Step (Client 0) (Client 0)) s = Some s' \<and> joined_twice (mem s')"
proof -
  obtain s where r: "run thpool_next
      (sched_shut @ steps (Client 0) 1 @ Call 0 Destroy # steps (Client 0) 4) (small_pool 1) = Some s"
    and s: "pcs s (Client 0) = InShutdown (H_Join True 0)" "Worker 0 \<in> joined (mem s)"
    by (simp add: run_append run_shut) (simp add: state_shut_def eval_pool)
  have "reach thpool_init thpool_next s" by (rule small_pool_run[OF _ r]) simp
  from thpool_joins_again[OF this s] r show ?thesis by blast
qed

section \<open>Calls without interference\<close>

text \<open>
  \<open>thpool_add_task\<close> on a pool whose mutex is free, run without interference: with room
  in the queue it returns 0 and has appended the task; with a full queue it returns -1 and
  has changed nothing. Either way it gives the mutex back.
\<close>

theorem thpool_add_task_result:
  assumes "reach thpool_init thpool_next s" and "lock (mem s) = None"
    and "pcs s (Client c) = Returned r"
  shows "\<exists>v s'. run thpool_next (Call c (Add t) # map (Step (Client c))
        (if ring_full (queue (mem s)) then [v, v, v, v] else [v, v, v, v, v])) s = Some s' \<and>
      lock (mem s') = None \<and>
      (if ring_full (queue (mem s)) then pcs s' (Client c) = Returned (RInt (-1)) \<and> mem s' = mem s
       else pcs s' (Client c) = Returned (RInt 0) \<and>
         ring_items (queue (mem s')) = ring_items (queue (mem s)) @ [t])"
proof (cases "ring_full (queue (mem s))")
  case True
  have "(mem s)\<lparr>lock := None\<rparr> = mem s" using assms(2) by (simp add: pool.surjective)
  with True assms show ?thesis by (simp add: prim_defs)
next
  case False
  obtain v W where v: "cond_signal v (notify (mem s)) = Some W" using cond_signal_enabled[of "notify (mem s)"] by blast
  have "ring_ok (queue (mem s))"
    using reach_thpool_inv[OF assms(1)] by (simp add: thpool_inv_def queue_inv_def)
  with False v assms(2,3) show ?thesis
    by (intro exI[of _ v]) (simp add: prim_defs ring_put_items)
qed

theorem thpool_add_task_result_witness:
  "\<exists>v s'. run thpool_next (Call 0 (Add example_task) # map (Step (Client 0)) [v, v, v, v, v])
      (small_pool 1) = Some s' \<and> pcs s' (Client 0) = Returned (RInt 0)"
proof -
  have "lock (mem (small_pool 1)) = None" "pcs (small_pool 1) (Client 0) = Returned RVoid"
    "\<not> ring_full (queue (mem (small_pool 1)))"
    by (simp_all add: eval_pool)
  with thpool_add_task_result[OF small_pool_reach, of 1 0 RVoid example_task] show ?thesis
    by simp blast
qed

text \<open>
  \<open>thpool_add_task_try\<close> against a queue that stays full makes exactly \<open>max_try + 1\<close>
  attempts (none when \<open>max_try\<close> is negative), each of lock, test, unlock and sleep, and then
  returns -1 with \<open>EAGAIN\<close>, having changed nothing.
\<close>

theorem thpool_add_task_try_full:
  assumes "ring_full (queue (mem s))" and "lock (mem s) = None"
    and "pcs s (Client c) = Returned r"
  shows "run thpool_next (Call c (AddTry t max_try) #
      replicate (5 * nat (max_try + 1) + 1) (Step (Client c) v)) s =
    Some (s\<lparr>pcs := (pcs s)(Client c := Returned (RErr EAGAIN))\<rparr>)"
proof -
  have m: "(mem s)\<lparr>lock := None\<rparr> = mem s" using assms(2) by (simp add: pool.surjective)
  have loop: "run thpool_next (replicate (5 * nat (k + 1) + 1) (Step (Client c) v))
      \<lparr>mem = mem s, pcs = f(Client c := InAddTry (R_Loop t k))\<rparr> =
    Some \<lparr>mem = mem s, pcs = f(Client c := Returned (RErr EAGAIN))\<rparr>" for k f
  proof (induction "nat (k + 1)" arbitrary: k)
    case 0
    then have "k < 0" by simp
    with 0 show ?case by (auto simp: prim_defs)
  next
    case (Suc n)
    then have k: "\<not> k < 0" and n: "n = nat ((k - 1) + 1)" by auto
    have "5 * nat (k + 1) + 1 = Suc (Suc (Suc (Suc (Suc (5 * nat ((k - 1) + 1) + 1)))))"
      using Suc.hyps(2) n by simp
    then show ?case
      using Suc.hyps(1)[OF n] assms(1,2) k by (simp add: prim_defs m)
  qed
  from loop[of max_try "pcs s"] show ?thesis using assms(3) by (cases s) simp
qed

theorem thpool_add_task_try_full_witness:
  "\<exists>s. ring_full (queue (mem s)) \<and> run thpool_next (Call 1 (AddTry example_task 2) #
      replicate 16 (Step (Client 1) (Client 1))) s =
    Some (s\<lparr>pcs := (pcs s)(Client 1 := Returned (RErr EAGAIN))\<rparr>)"
proof (intro exI conjI)
  show full: "ring_full (queue (mem state_paused))" by (simp add: state_paused_def eval_pool)
  have "lock (mem state_paused) = None" "pcs state_paused (Client 1) = Returned RVoid"
    by (simp_all add: state_paused_def eval_pool)
  from thpool_add_task_try_full[OF full this, of example_task 2]
  show "run thpool_next (Call 1 (AddTry example_task 2) #
      replicate 16 (Step (Client 1) (Client 1))) state_paused =
    Some (state_paused\<lparr>pcs := (pcs state_paused)(Client 1 := Returned (RErr EAGAIN))\<rparr>)"
    by simp
qed

end
