(* ===== verification/ThpoolCreate.thy ===== *)
theory ThpoolCreate
  imports ThpoolProps
begin

text \<open>
  \<open>thpool_create\<close> and the part of \<open>thpool_destroy\<close> its error path runs, from
  \<open>src/threads/thpool.c\<close>. The results of the allocations and of the pthread calls are
  given by an environment. What C leaves undefined (locking a mutex that was never
  initialised, joining through a null array or with a zero handle, writing past an
  allocation) is a value of the model.
\<close>

section \<open>Environment and outcome\<close>

record create_env =
  pool_mem :: bool
  threads_mem :: bool
  queue_mem :: bool
  mutex_rc :: int
  notify_rc :: int
  empty_rc :: int
  create_rc :: "nat \<Rightarrow> int"
  errno_is :: errno

datatype fault = LockUninitialised | BroadcastUninitialised | JoinNullArray | JoinZeroHandle
  | WriteOutOfBounds

text \<open>
  The pool under construction: its fields (\<open>shutdown\<close> is set later than the others), the sizes
  in bytes of its two arrays, which pthread objects are initialised, and how many workers run.
\<close>

record raw_pool =
  r_workers :: size_t
  r_size :: size_t
  r_count :: size_t
  r_head :: size_t
  r_tail :: size_t
  r_running :: size_t
  r_hold :: int
  r_shutdown :: "int option"
  r_threads :: "size_t option"
  r_queue :: "size_t option"
  r_lock :: bool
  r_notify :: bool
  r_empty :: bool
  r_created :: nat

datatype created = Pool raw_pool | Null errno | Undefined fault

text \<open>\<open>sizeof(pthread_t)\<close> and \<open>sizeof(task_t)\<close>; the products are taken in \<open>size_t\<close>.\<close>

definition threads_bytes :: "size_t \<Rightarrow> size_t" where
  "threads_bytes n = 8 * n"

definition queue_bytes :: "size_t \<Rightarrow> size_t" where
  "queue_bytes n = 16 * n"

section \<open>The error path\<close>

text \<open>
  \<open>thpool_destroy\<close> on a partly built pool: \<open>thpool_shutdown\<close> locks the mutex, broadcasts and
  joins all \<open>thread_count\<close> handles; a handle that was never filled in is zero.
\<close>

definition destroy_raw :: "raw_pool \<Rightarrow> fault option" where
  "destroy_raw r =
     (if \<not> r_lock r then Some LockUninitialised
      else if \<not> r_notify r then Some BroadcastUninitialised
      else if r_threads r = None then Some JoinNullArray
      else if r_created r < unat (r_workers r) then Some JoinZeroHandle
      else None)"

text \<open>Lines 121 to 126.\<close>

definition fail_with :: "errno \<Rightarrow> raw_pool \<Rightarrow> created" where
  "fail_with err r = (case destroy_raw r of None \<Rightarrow> Null err | Some f \<Rightarrow> Undefined f)"

section \<open>Creation\<close>

text \<open>The loop of line 111; \<open>k\<close> workers are left to create.\<close>

fun create_workers :: "create_env \<Rightarrow> nat \<Rightarrow> raw_pool \<Rightarrow> created" where
  "create_workers env 0 r = Pool r"
| "create_workers env (Suc k) r =
     (if create_rc env (r_created r) \<noteq> 0 then fail_with (errno_is env) r
      else create_workers env k (r\<lparr>r_created := Suc (r_created r)\<rparr>))"

definition thpool_create :: "create_env \<Rightarrow> size_t \<Rightarrow> size_t \<Rightarrow> created" where
  "thpool_create env workers qsize =
     (if workers < 1 \<or> qsize < 1 then Null EINVAL
      else if \<not> pool_mem env then Null (errno_is env)
      else
        let r = \<lparr>r_workers = workers, r_size = qsize, r_count = 0, r_head = 0, r_tail = 0,
            r_running = 0, r_hold = 0, r_shutdown = None,
            r_threads = (if threads_mem env then Some (threads_bytes workers) else None),
            r_queue = (if queue_mem env then Some (queue_bytes qsize) else None),
            r_lock = False, r_notify = False, r_empty = False, r_created = 0\<rparr>
        in if r_threads r = None \<or> r_queue r = None then fail_with ENOMEM r
           else if unat (threads_bytes workers) < 8 * unat workers then Undefined WriteOutOfBounds
           else let r = r\<lparr>r_shutdown := Some 0\<rparr> in
             if mutex_rc env \<noteq> 0 then fail_with (Errno (mutex_rc env)) r
             else if notify_rc env \<noteq> 0 then fail_with (Errno (notify_rc env)) (r\<lparr>r_lock := True\<rparr>)
             else if empty_rc env \<noteq> 0
               then fail_with (Errno (empty_rc env)) (r\<lparr>r_lock := True, r_notify := True\<rparr>)
             else create_workers env (unat workers)
               (r\<lparr>r_lock := True, r_notify := True, r_empty := True\<rparr>))"

text \<open>Every call of the environment succeeds.\<close>

definition all_ok :: "create_env \<Rightarrow> bool" where
  "all_ok env \<longleftrightarrow> pool_mem env \<and> threads_mem env \<and> queue_mem env \<and> mutex_rc env = 0 \<and>
     notify_rc env = 0 \<and> empty_rc env = 0 \<and> (\<forall>k. create_rc env k = 0)"

section \<open>What creation gives\<close>

lemma times_no_wrap:
  fixes n :: size_t
  assumes "c = 8 \<or> c = (16 :: nat)"
  shows "unat (of_nat c * n) = c * unat n \<longleftrightarrow> c * unat n < 2 ^ 64"
proof -
  have "unat (of_nat c * n) = (c * unat n) mod 2 ^ 64"
    using assms by (auto simp: unat_word_ariths)
  then show ?thesis by (metis mod_less mod_less_divisor zero_less_numeral zero_less_power)
qed

text \<open>The pool a successful creation returns.\<close>

definition finished_pool :: "size_t \<Rightarrow> size_t \<Rightarrow> raw_pool" where
  "finished_pool workers qsize = \<lparr>r_workers = workers, r_size = qsize, r_count = 0, r_head = 0, r_tail = 0,
     r_running = 0, r_hold = 0, r_shutdown = Some 0, r_threads = Some (threads_bytes workers),
     r_queue = Some (queue_bytes qsize), r_lock = True, r_notify = True, r_empty = True,
     r_created = unat workers\<rparr>"

text \<open>What can fail after the pool itself was allocated; the creation of a thread among it.\<close>

definition thread_fails :: "create_env \<Rightarrow> size_t \<Rightarrow> bool" where
  "thread_fails env workers \<longleftrightarrow> list_ex (\<lambda>k. create_rc env k \<noteq> 0) [0..<unat workers]"

definition later_failure :: "create_env \<Rightarrow> size_t \<Rightarrow> bool" where
  "later_failure env workers \<longleftrightarrow> \<not> threads_mem env \<or> \<not> queue_mem env \<or> mutex_rc env \<noteq> 0 \<or>
     notify_rc env \<noteq> 0 \<or> empty_rc env \<noteq> 0 \<or> thread_fails env workers"

lemma create_workers_result:
  assumes "r_lock r" and "r_notify r" and "r_threads r \<noteq> None" and "r_created r + k = unat (r_workers r)"
  shows "create_workers env k r =
    (if list_ex (\<lambda>j. create_rc env j \<noteq> 0) [r_created r..<r_created r + k] then Undefined JoinZeroHandle
     else Pool (r\<lparr>r_created := r_created r + k\<rparr>))"
  using assms
proof (induction k arbitrary: r)
  case (Suc k)
  have "[r_created r..<r_created r + Suc k] = r_created r # [Suc (r_created r)..<Suc (r_created r) + k]"
    by (simp add: upt_conv_Cons)
  with Suc show ?case by (auto simp: fail_with_def destroy_raw_def)
qed simp

text \<open>The result of a creation, case by case: the error path never gives NULL back.\<close>

lemma thpool_create_cases:
  "thpool_create env workers qsize =
    (if workers = 0 \<or> qsize = 0 then Null EINVAL
     else if \<not> pool_mem env then Null (errno_is env)
     else if \<not> threads_mem env \<or> \<not> queue_mem env then Undefined LockUninitialised
     else if 2 ^ 64 \<le> 8 * unat workers then Undefined WriteOutOfBounds
     else if mutex_rc env \<noteq> 0 then Undefined LockUninitialised
     else if notify_rc env \<noteq> 0 then Undefined BroadcastUninitialised
     else if empty_rc env \<noteq> 0 \<or> thread_fails env workers then Undefined JoinZeroHandle
     else Pool (finished_pool workers qsize))"
proof -
  have small: "x < 1 \<longleftrightarrow> x = 0" for x :: size_t by (simp add: word_less_nat_alt unat_eq_zero)
  have wrap: "unat (threads_bytes workers) < 8 * unat workers \<longleftrightarrow> 2 ^ 64 \<le> 8 * unat workers"
  proof -
    have "unat (threads_bytes workers) = (8 * unat workers) mod 2 ^ 64"
      by (simp add: threads_bytes_def unat_word_ariths)
    then show ?thesis by (cases "8 * unat workers < 2 ^ 64") (auto intro: order.strict_trans2[OF mod_less_divisor])
  qed
  have started: "create_workers env (unat workers) r = (if thread_fails env workers then Undefined JoinZeroHandle
      else Pool (r\<lparr>r_created := unat workers\<rparr>))"
    if "r_lock r" "r_notify r" "r_threads r \<noteq> None" "r_created r = 0" "r_workers r = workers" for r
    using create_workers_result[OF that(1-3), of "unat workers" env] that(4,5) by (simp add: thread_fails_def)
  have "0 < unat workers" if "workers \<noteq> 0" using that by (simp add: unat_gt_0)
  then show ?thesis
    by (auto simp: thpool_create_def small wrap started fail_with_def destroy_raw_def finished_pool_def Let_def)
qed

lemma thpool_create_Pool: "thpool_create env workers qsize = Pool r \<Longrightarrow>
    r = finished_pool workers qsize \<and> 0 < workers \<and> 0 < qsize"
  by (auto simp: thpool_create_cases word_gt_0 split: if_splits)

text \<open>
  When every allocation and every pthread call succeeds, \<open>thpool_create\<close> returns a pool
  with both arrays, the mutex and both condition variables set up and all its workers
  created, for every positive worker count whose handle array fits in the address space.
\<close>

theorem thpool_create_success:
  assumes "all_ok env" and "0 < workers" and "0 < qsize" and "8 * unat workers < 2 ^ 64"
  shows "thpool_create env workers qsize = Pool (finished_pool workers qsize)"
  using assms by (auto simp: thpool_create_cases all_ok_def thread_fails_def list_ex_iff word_gt_0)

definition good_env :: create_env where
  "good_env = \<lparr>pool_mem = True, threads_mem = True, queue_mem = True, mutex_rc = 0,
     notify_rc = 0, empty_rc = 0, create_rc = (\<lambda>_. 0), errno_is = Errno 0\<rparr>"

theorem thpool_create_success_witness:
  "thpool_create good_env 4 1024 = Pool (finished_pool 4 1024)"
  by (rule thpool_create_success) (simp_all add: all_ok_def good_env_def)

text \<open>
  C38: The error path never works. \<open>thpool_create\<close> returns NULL exactly for a zero argument or
  when the pool itself could not be allocated, with the right \<open>errno\<close>. It returns a pool
  exactly when nothing fails and the array of handles has room for all of them. In all other
  cases (an array, the mutex, a condition variable or a thread fails, or the byte count of the
  handles wraps around) it ends in undefined behaviour, most often inside \<open>thpool_destroy\<close>, which
  locks or signals what is not initialised or joins a thread never created.
\<close>

theorem thpool_create_null_cases:
  "(thpool_create env workers qsize = Null e \<longleftrightarrow>
      (if workers = 0 \<or> qsize = 0 then e = EINVAL else \<not> pool_mem env \<and> e = errno_is env)) \<and>
   ((\<exists>r. thpool_create env workers qsize = Pool r) \<longleftrightarrow> workers \<noteq> 0 \<and> qsize \<noteq> 0 \<and> pool_mem env \<and>
      \<not> later_failure env workers \<and> 8 * unat workers < 2 ^ 64) \<and>
   ((\<exists>f. thpool_create env workers qsize = Undefined f) \<longleftrightarrow> workers \<noteq> 0 \<and> qsize \<noteq> 0 \<and> pool_mem env \<and>
      (later_failure env workers \<or> 2 ^ 64 \<le> 8 * unat workers))"
  by (auto simp: thpool_create_cases later_failure_def)

theorem thpool_create_null_cases_witness:
  "thpool_create good_env 0 8 = Null EINVAL \<and> (\<exists>r. thpool_create good_env 2 8 = Pool r) \<and>
    (\<exists>f. thpool_create (good_env\<lparr>notify_rc := 12\<rparr>) 2 8 = Undefined f)"
  using thpool_create_null_cases[of good_env 0 8 EINVAL] thpool_create_null_cases[of good_env 2 8]
    thpool_create_null_cases[of "good_env\<lparr>notify_rc := 12\<rparr>" 2 8]
  by (simp add: later_failure_def thread_fails_def list_ex_iff good_env_def)

text \<open>
  The task array has room for \<open>queue_size\<close> tasks exactly when \<open>queue_size < 2 ^ 60\<close>: the
  byte count is computed in 64 bits without a check, so a larger size still yields a pool,
  with an array shorter than the queue believes.
\<close>

theorem thpool_create_queue_room:
  assumes "thpool_create env workers qsize = Pool r"
  shows "\<exists>bytes. r_queue r = Some bytes \<and> r_size r = qsize \<and>
    (unat qsize \<le> unat bytes div 16 \<longleftrightarrow> unat qsize < 2 ^ 60)"
proof -
  have r: "r_queue r = Some (queue_bytes qsize)" "r_size r = qsize"
    using thpool_create_Pool[OF assms] by (simp_all add: finished_pool_def)
  have "unat (queue_bytes qsize) = (16 * unat qsize) mod 2 ^ 64"
    by (simp add: queue_bytes_def unat_word_ariths)
  then have "unat (queue_bytes qsize) div 16 = unat qsize mod 2 ^ 60"
    by (simp add: mod_mult_mult1[of 16 "unat qsize" "2 ^ 60", simplified])
  moreover have "unat qsize \<le> unat qsize mod 2 ^ 60 \<longleftrightarrow> unat qsize < 2 ^ 60"
    by (metis mod_less mod_less_divisor order.refl order.strict_trans1 zero_less_numeral zero_less_power)
  ultimately show ?thesis using r by simp
qed

theorem thpool_create_queue_room_witness:
  "\<exists>r bytes. thpool_create good_env 1 (2 ^ 60) = Pool r \<and> r_queue r = Some bytes \<and>
    \<not> unat (2 ^ 60 :: size_t) \<le> unat bytes div 16"
proof -
  obtain r where r: "thpool_create good_env 1 (2 ^ 60) = Pool r"
    using thpool_create_success[of good_env 1 "2 ^ 60"] by (simp add: all_ok_def good_env_def)
  from thpool_create_queue_room[OF r] r show ?thesis by auto
qed

text \<open>
  What the concurrent pool starts from: the fields as creation left them, the mutex and the
  condition variables it initialised, free and with nobody waiting, and the workers it started.
\<close>

definition created_pool :: "task_t list \<Rightarrow> raw_pool \<Rightarrow> pool" where
  "created_pool junk r = \<lparr>shutdown = the (r_shutdown r), hold = r_hold r, running_count = r_running r, lock = None,
     notify = {}, notify_empty = {}, thread_count = r_workers r,
     queue = \<lparr>task_queue = junk, queue_size = r_size r, queue_count = r_count r, head = r_head r, tail = r_tail r\<rparr>,
     exited = {}, joined = {}, joined_twice = False, freed = False,
     submitted = [], taken = [], finished = [], drain_mark = None\<rparr>"

fun started_at :: "raw_pool \<Rightarrow> tid \<Rightarrow> pc" where
  "started_at r (Worker w) = (if unat w < r_created r then InWorker W_Lock else Returned RVoid)"
| "started_at r (Client c) = Returned RVoid"

definition created_system :: "task_t list \<Rightarrow> raw_pool \<Rightarrow> system option" where
  "created_system junk r = (if r_shutdown r \<noteq> None \<and> r_threads r \<noteq> None \<and> r_lock r \<and> r_notify r \<and> r_empty r
     then Some \<lparr>mem = created_pool junk r, pcs = started_at r\<rparr> else None)"

text \<open>
  C39: A pool \<open>thpool_create\<close> returns has every field set, the mutex and the condition variables
  initialised and all its workers started; when its task array has room for its size and the
  kernel can have as many threads, what creation left is an initial state of the concurrent
  pool of \<open>Thpool\<close>.
\<close>

theorem thpool_create_init:
  assumes "thpool_create env workers qsize = Pool r" and "unat workers \<le> 2 ^ 32"
    and "r_queue r = Some bytes" and "length junk = unat bytes div 16" and "unat qsize < 2 ^ 60"
  shows "\<exists>s. created_system junk r = Some s \<and> thpool_init s \<and> thread_count (mem s) = workers \<and>
    queue_size (queue (mem s)) = qsize"
proof -
  have r: "r = finished_pool workers qsize" "0 < workers" "0 < qsize"
    using thpool_create_Pool[OF assms(1)] by simp_all
  have "unat (queue_bytes qsize) = 16 * unat qsize"
    using times_no_wrap[of 16 qsize] assms(5) by (simp add: queue_bytes_def)
  then have "length junk = unat qsize" using assms(3,4) r(1) by (simp add: finished_pool_def)
  moreover have "started_at r i = (if is_worker (new_pool junk workers qsize) i then InWorker W_Lock else Returned RVoid)" for i
    by (cases i) (simp_all add: r(1) finished_pool_def new_pool_def)
  then have "created_system junk r = Some (new_system junk workers qsize)"
    by (simp add: created_system_def created_pool_def new_system_def Let_def fun_eq_iff)
      (simp add: r(1) finished_pool_def new_pool_def ring_new_def)
  ultimately show ?thesis
    using r(2,3) assms(2) by (auto simp: thpool_init_def new_system_def new_pool_def ring_new_def Let_def)
qed

theorem thpool_create_init_witness:
  "\<exists>r s. thpool_create good_env 1 2 = Pool r \<and>
    created_system [example_task, example_task] r = Some s \<and> thpool_init s"
proof -
  have c: "thpool_create good_env 1 2 = Pool (finished_pool 1 2)"
    using thpool_create_success[of good_env 1 2] by (simp add: all_ok_def good_env_def)
  have "r_queue (finished_pool 1 2) = Some (queue_bytes 2)" by (simp add: finished_pool_def)
  from thpool_create_init[OF c _ this, of "[example_task, example_task]"] c show ?thesis
    by (auto simp: queue_bytes_def)
qed

end
