(* ===== verification/ThpoolCalls.thy ===== *)
theory ThpoolCalls
  imports ThpoolProps
begin

text \<open>
  Whole calls of the locking pool's API: what a client gets back from the pool is what it put
  in, and how many steps a call makes before it returns.
\<close>

section \<open>Putting a task in and taking it out\<close>

text \<open>
  C28: Round trip: on a pool nobody else is using and whose queue has room,
  \<open>thpool_add_task\<close> followed by \<open>thpool_worker_try_once\<close> accepts the task, runs the oldest
  queued task (the very task added when the queue was empty), keeps the order of the rest,
  returns 0 twice, and leaves the mutex free and every other thread and counter as it was.
\<close>

theorem thpool_add_run_roundtrip:
  assumes "reach thpool_init thpool_next s" and "pcs s (Client c) = Returned r"
    and "lock (mem s) = None" and "\<not> ring_full (queue (mem s))"
    and "cond_signal v (notify (mem s)) = Some W"
  shows "\<exists>s' s''.
    run thpool_next (Call c (Add t) # replicate 5 (Step (Client c) v)) s = Some s' \<and>
    pcs s' (Client c) = Returned (RInt 0) \<and>
    run thpool_next (Call c TryOnce # replicate 7 (Step (Client c) v)) s' = Some s'' \<and>
    pcs s'' = (pcs s)(Client c := Returned (RInt 0)) \<and>
    ring_items (queue (mem s'')) = tl (ring_items (queue (mem s)) @ [t]) \<and>
    finished (mem s'') = finished (mem s) @ [hd (ring_items (queue (mem s)) @ [t])] \<and>
    submitted (mem s'') = submitted (mem s) @ [t] \<and>
    lock (mem s'') = None \<and> running_count (mem s'') = running_count (mem s) \<and> notify (mem s'') = W"
proof -
  let ?q = "queue (mem s)" and ?c = "Client c"
  have ok: "ring_ok ?q" using reach_thpool_inv[OF assms(1)] by (simp add: thpool_inv_def queue_inv_def)
  let ?q' = "ring_put t ?q"
  have q': "ring_ok ?q'" and items: "ring_items ?q' = ring_items ?q @ [t]"
    using ring_put_ok[OF ok assms(4)] ring_put_items[OF ok assms(4)] by auto
  then have ne: "queue_count ?q' \<noteq> 0" using ring_items_empty[of ?q'] by (simp del: ring_put_sel)
  have front: "ring_front ?q' = hd (ring_items ?q @ [t])" "ring_items (ring_advance ?q') = tl (ring_items ?q @ [t])"
    using ring_advance_items[OF q' ne] items by (simp_all del: ring_put_sel)
  define m1 where "m1 = (mem s)\<lparr>queue := ?q', submitted := submitted (mem s) @ [t], notify := W\<rparr>"
  define s1 where "s1 = \<lparr>mem = m1, pcs = (pcs s)(?c := Returned (RInt 0))\<rparr>"
  have add: "run thpool_next (Call c (Add t) # replicate 5 (Step ?c v)) s = Some s1"
    using assms(2-5) by (simp add: numeral_eq_Suc prim_defs s1_def m1_def)
  define m2 where "m2 = m1\<lparr>queue := ring_advance ?q', taken := taken (mem s) @ [ring_front ?q'],
    finished := finished (mem s) @ [ring_front ?q']\<rparr>"
  have "queue m1 = ?q'" "lock m1 = None" "pcs s1 ?c = Returned (RInt 0)" "mem s1 = m1"
    using assms(3) by (simp_all add: m1_def s1_def)
  then have "run thpool_next (Call c TryOnce # replicate 7 (Step ?c v)) s1 =
      Some \<lparr>mem = m2, pcs = (pcs s1)(?c := Returned (RInt 0))\<rparr>"
    using ne by (simp add: numeral_eq_Suc prim_defs m2_def m1_def del: ring_put_sel)
  with add front show ?thesis using assms(3)
    by (intro exI[of _ s1] exI[of _ "\<lparr>mem = m2, pcs = (pcs s1)(?c := Returned (RInt 0))\<rparr>"])
      (simp add: s1_def m1_def m2_def del: run.simps)
qed

theorem thpool_add_run_roundtrip_witness:
  "\<exists>s' s''. run thpool_next (Call 0 (Add example_task) # replicate 5 (Step (Client 0) (Client 0))) (small_pool 1) = Some s' \<and>
    run thpool_next (Call 0 TryOnce # replicate 7 (Step (Client 0) (Client 0))) s' = Some s'' \<and>
    finished (mem s'') = [example_task] \<and> ring_items (queue (mem s'')) = []"
proof -
  have "pcs (small_pool 1) (Client 0) = Returned RVoid" "lock (mem (small_pool 1)) = None"
    "\<not> ring_full (queue (mem (small_pool 1)))"
    "cond_signal (Client 0) (notify (mem (small_pool 1))) = Some {}"
    and "ring_items (queue (mem (small_pool 1))) = []" "finished (mem (small_pool 1)) = []"
    by (simp_all add: eval_pool ring_items_def)
  from thpool_add_run_roundtrip[OF small_pool_reach this(1-4), of example_task] this(5,6)
  show ?thesis by (fastforce simp del: run.simps)
qed

section \<open>The steps of \<open>thpool_add_task_try\<close>\<close>

text \<open>The steps a thread inside \<open>thpool_add_task_try\<close> still makes, at most.\<close>

fun try_fuel :: "pc \<Rightarrow> nat" where
  "try_fuel (InAddTry p) = (case p of
       R_Loop t k \<Rightarrow> 5 * nat (k + 1) + 1 | R_Lock t k \<Rightarrow> 5 * nat k + 5 | R_Test t k \<Rightarrow> 5 * nat k + 4
     | R_FullUnlock t k \<Rightarrow> 5 * nat k + 3 | R_Sleep t k \<Rightarrow> 5 * nat k + 2
     | R_Put t \<Rightarrow> 3 | R_Signal \<Rightarrow> 2 | R_Unlock \<Rightarrow> 1)"
| "try_fuel _ = 0"

fun in_add_try :: "pc \<Rightarrow> bool" where
  "in_add_try (InAddTry p) \<longleftrightarrow> True"
| "in_add_try (Returned r) \<longleftrightarrow> True"
| "in_add_try _ \<longleftrightarrow> False"

fun step_of :: "tid \<Rightarrow> event \<Rightarrow> bool" where
  "step_of i (Step j v) \<longleftrightarrow> j = i"
| "step_of i _ \<longleftrightarrow> False"

fun not_called :: "tid \<Rightarrow> event \<Rightarrow> bool" where
  "not_called i (Call c f) \<longleftrightarrow> Client c \<noteq> i"
| "not_called i _ \<longleftrightarrow> True"

lemma exec_try_fuel:
  assumes "exec i v p m = Some (m', p')" and "in_add_try p"
  shows "in_add_try p' \<and> try_fuel p' < try_fuel p"
proof (cases p)
  case (InAddTry q)
  with assms show ?thesis by (cases q) (auto simp: resume_at_Some acquire_def Some_map_option split: if_splits)
qed (use assms in auto)

interpretation add_try: bounded_steps thpool_next "not_called i" "step_of i" "\<lambda>s. in_add_try (pcs s i)"
  "\<lambda>s. try_fuel (pcs s i)" for i
proof
  fix s s' e
  assume good: "in_add_try (pcs s i)" and call: "not_called i e" and n: "thpool_next e s = Some s'"
  have own: "in_add_try (pcs s' i) \<and> try_fuel (pcs s' i) < try_fuel (pcs s i)" if "step_of i e"
  proof -
    from that obtain v where "e = Step i v" by (cases e) auto
    with n obtain m p where "exec i v (pcs s i) (mem s) = Some (m, p)"
      and "s' = \<lparr>mem = m, pcs = (pcs s)(i := p)\<rparr>" by (auto simp only: step_Some)
    with exec_try_fuel good show ?thesis by simp
  qed
  have other: "pcs s' i = pcs s i" if "\<not> step_of i e"
  proof (cases e)
    case (Step j v)
    with n that show ?thesis by (auto simp only: step_Some) simp
  next
    case (Call c f)
    with n call show ?thesis by (auto simp only: call_Some) simp
  next
    case (Spurious j)
    with n show ?thesis by (auto split: if_splits)
  qed
  show "in_add_try (pcs s' i)" using own other good by (cases "step_of i e") auto
  show "step_of i e \<Longrightarrow> try_fuel (pcs s' i) \<le> try_fuel (pcs s i) - 1"
    and "step_of i e \<Longrightarrow> 0 < try_fuel (pcs s i)" using own by auto
  show "\<not> step_of i e \<Longrightarrow> try_fuel (pcs s' i) \<le> try_fuel (pcs s i)" using other by simp
qed

lemma exec_try_enabled:
  assumes "in_add_try p" and "\<And>r. p \<noteq> Returned r" and "lock m = None \<or> holds p"
  shows "\<exists>v. exec i v p m \<noteq> None"
proof (cases "holds p")
  case True
  then obtain v m' p' where "exec i v p m = Some (m', p')" by (rule exec_holder)
  then show ?thesis by blast
next
  case False
  show ?thesis
  proof (cases p)
    case (InAddTry q)
    with assms False show ?thesis by (cases q) (auto simp: acquire_def)
  qed (use assms in auto)
qed

text \<open>
  C30: \<open>thpool_add_task_try\<close> terminates: whatever the other threads do in between, the caller
  makes at most 5 steps for each of its \<open>max_try + 1\<close> attempts and one more, and it is never
  stuck on the way but for a mutex some other thread holds.
\<close>

theorem thpool_add_task_try_terminates:
  assumes "reach thpool_init thpool_next s" and "pcs s i = InAddTry (R_Loop t k)"
    and "run thpool_next es s = Some s'" and "list_all (not_called i) es"
  shows "length (filter (step_of i) es) \<le> 5 * nat (k + 1) + 1 \<and>
    ((\<exists>r. pcs s' i = Returned r) \<or> (\<exists>j. j \<noteq> i \<and> lock (mem s') = Some j) \<or>
      (\<exists>v. thpool_next (Step i v) s' \<noteq> None))"
proof -
  have start: "in_add_try (pcs s i)" by (simp add: assms(2))
  note fuel = add_try.run_fuel[OF start assms(4,3)]
  have "lock_inv s'"
    using reach_thpool_inv[OF reach_run[OF assms(3,1)]] by (simp add: thpool_inv_def)
  then have own: "holds (pcs s' i) \<longleftrightarrow> lock (mem s') = Some i" unfolding lock_inv_def by blast
  have "\<exists>v. thpool_next (Step i v) s' \<noteq> None"
    if "\<And>r. pcs s' i \<noteq> Returned r" "lock (mem s') = None \<or> lock (mem s') = Some i"
  proof -
    have "\<exists>v. exec i v (pcs s' i) (mem s') \<noteq> None"
      by (rule exec_try_enabled) (use fuel that own in auto)
    then show ?thesis by (auto split: option.splits)
  qed
  with fuel assms(2) show ?thesis by (cases "lock (mem s')") auto
qed

text \<open>The queue is full and stays full: two attempts, ten steps, and one to give up.\<close>

theorem thpool_add_task_try_terminates_witness:
  "\<exists>s s'. run thpool_next (steps (Client 1) 11) s = Some s' \<and> pcs s' (Client 1) = Returned (RErr EAGAIN) \<and>
    length (filter (step_of (Client 1)) (steps (Client 1) 11)) \<le> 5 * nat (1 + 1) + 1"
proof -
  obtain s where s: "run thpool_next (Call 0 (Add example_task) # steps (Client 0) 5 @
      [Call 1 (AddTry example_task 1)]) (small_pool 1) = Some s"
    and p: "pcs s (Client 1) = InAddTry (R_Loop example_task 1)"
    and run: "\<exists>s'. run thpool_next (steps (Client 1) 11) s = Some s' \<and> pcs s' (Client 1) = Returned (RErr EAGAIN)"
    by (simp add: eval_pool)
  from run obtain s' where s': "run thpool_next (steps (Client 1) 11) s = Some s'"
    "pcs s' (Client 1) = Returned (RErr EAGAIN)" by blast
  have "list_all (not_called (Client 1)) (steps (Client 1) 11)" by simp
  from thpool_add_task_try_terminates[OF small_pool_run[OF _ s] p s'(1) this] s' show ?thesis by auto
qed

end
