(* ===== verification/NestedCalls.thy ===== *)
theory NestedCalls
  imports Prelude
begin

text \<open>
  Tasks that call back into the pool that runs them. The step relation of a pool lets client
  threads enter its API; the code of a task runs on a thread that is itself inside the pool.
  Here such a call is the call of a stand-in client: the thread stays where it is, at the
  call of its task, until the stand-in's call has returned. A stand-in may run a task of its
  own (\<open>worker_try_once\<close>) and call again, so calls nest to any depth.
\<close>

section \<open>The composed system\<close>

text \<open>What the composition uses of a pool: its steps, who makes them, and where tasks run.\<close>

record ('e, 's, 'c) callable =
  comp_next :: "'e \<Rightarrow> 's \<Rightarrow> 's option"
  comp_thread :: "'e \<Rightarrow> tid option"
  comp_caller :: "'e \<Rightarrow> 32 word option"
  comp_call :: "32 word \<Rightarrow> 'c \<Rightarrow> 'e"
  comp_allowed :: "'c \<Rightarrow> bool"
  comp_in_task :: "'s \<Rightarrow> tid \<Rightarrow> bool"
  comp_idle :: "'s \<Rightarrow> 32 word \<Rightarrow> bool"

record 's nested =
  base :: 's
  inner :: "tid \<Rightarrow> 32 word option"

datatype ('e, 'c) nested_event = Plain 'e | TaskCalls tid "32 word" 'c | TaskResumes tid

definition stands_in :: "'s nested \<Rightarrow> 32 word \<Rightarrow> bool" where
  "stands_in n c \<longleftrightarrow> (\<exists>i. inner n i = Some c)"

definition may_step :: "('e, 's, 'c) callable \<Rightarrow> 'e \<Rightarrow> 's nested \<Rightarrow> bool" where
  "may_step M e n \<longleftrightarrow>
     (case comp_thread M e of None \<Rightarrow> True | Some i \<Rightarrow> inner n i = None) \<and>
     (case comp_caller M e of None \<Rightarrow> True | Some c \<Rightarrow> \<not> stands_in n c)"

fun nested_next :: "('e, 's, 'c) callable \<Rightarrow> ('e, 'c) nested_event \<Rightarrow> 's nested \<Rightarrow> 's nested option" where
  "nested_next M (Plain e) n =
     (if may_step M e n then map_option (\<lambda>s. n\<lparr>base := s\<rparr>) (comp_next M e (base n)) else None)"
| "nested_next M (TaskCalls i c f) n =
     (if comp_in_task M (base n) i \<and> inner n i = None \<and> comp_allowed M f \<and> \<not> stands_in n c
      then map_option (\<lambda>s. \<lparr>base = s, inner = (inner n)(i := Some c)\<rparr>)
        (comp_next M (comp_call M c f) (base n))
      else None)"
| "nested_next M (TaskResumes i) n =
     (case inner n i of None \<Rightarrow> None
      | Some c \<Rightarrow> if comp_idle M (base n) c then Some (n\<lparr>inner := (inner n)(i := None)\<rparr>) else None)"

definition nested_init :: "('s \<Rightarrow> bool) \<Rightarrow> 's nested \<Rightarrow> bool" where
  "nested_init init n \<longleftrightarrow> init (base n) \<and> inner n = (\<lambda>_. None)"

section \<open>A step of the composed system is a step of the pool\<close>

lemma nested_step_base:
  assumes "nested_next M e n = Some n'"
  shows "base n' = base n \<or> (\<exists>e'. comp_next M e' (base n) = Some (base n'))"
  using assms by (cases e) (auto split: if_splits option.splits)

lemma nested_reach_base:
  "reach (nested_init init) (nested_next M) n \<Longrightarrow> reach init (comp_next M) (base n)"
proof (induction rule: reach.induct)
  case (reach_init n)
  then show ?case by (simp add: nested_init_def reach.reach_init)
next
  case (reach_step n e n')
  from nested_step_base[OF reach_step.hyps(2)] reach_step.IH show ?case
    by (metis reach.reach_step)
qed

section \<open>Threads that wait for the call of their task\<close>

text \<open>
  The laws of a pool whose tasks may call it: a call is no thread's step, and a thread inside
  a task leaves it by a step of its own only.
\<close>

locale task_caller =
  fixes M :: "('e, 's, 'c) callable"
  assumes call_no_thread: "comp_thread M (comp_call M c f) = None"
    and stays_in_task: "comp_next M e s = Some s' \<Longrightarrow> comp_in_task M s i \<Longrightarrow>
      comp_thread M e \<noteq> Some i \<Longrightarrow> comp_in_task M s' i"
begin

definition inner_inv :: "'s nested \<Rightarrow> bool" where
  "inner_inv n \<longleftrightarrow> (\<forall>i c. inner n i = Some c \<longrightarrow> comp_in_task M (base n) i) \<and>
     (\<forall>i j c. inner n i = Some c \<and> inner n j = Some c \<longrightarrow> i = j)"

lemma inner_inv_next:
  assumes inv: "inner_inv n" and n: "nested_next M e n = Some n'"
  shows "inner_inv n'"
proof (cases e)
  case (Plain e')
  with n have m: "may_step M e' n" and s: "comp_next M e' (base n) = Some (base n')"
    and i: "inner n' = inner n" by (auto split: if_splits)
  have "comp_in_task M (base n') j" if j: "inner n j = Some c" for j c
  proof -
    have "comp_thread M e' \<noteq> Some j" using m j by (auto simp: may_step_def)
    moreover have "comp_in_task M (base n) j" using inv j unfolding inner_inv_def by blast
    ultimately show ?thesis using stays_in_task[OF s] by blast
  qed
  with inv i show ?thesis by (simp add: inner_inv_def)
next
  case (TaskCalls i c f)
  with n have new: "comp_in_task M (base n) i" "\<not> stands_in n c"
    and s: "comp_next M (comp_call M c f) (base n) = Some (base n')"
    and i: "inner n' = (inner n)(i := Some c)" by (auto split: if_splits)
  have "comp_in_task M (base n') j" if "comp_in_task M (base n) j" for j
    using stays_in_task[OF s that] call_no_thread by simp
  with inv new i show ?thesis by (auto simp: inner_inv_def stands_in_def)
next
  case (TaskResumes i)
  with n inv show ?thesis by (auto simp: inner_inv_def split: option.splits if_splits)
qed

end

sublocale task_caller \<subseteq> nested: safety "nested_init init" "nested_next M" inner_inv
proof
  show "nested_init init n \<Longrightarrow> inner_inv n" for n by (simp add: nested_init_def inner_inv_def)
  show "inner_inv n \<Longrightarrow> nested_next M e n = Some n' \<Longrightarrow> inner_inv n'" for n e n' by (rule inner_inv_next)
qed

text \<open>
  A pool in which a client that makes a call was outside the library, and a client outside
  the library runs no task. There the waiting threads form chains, each the caller of the
  next, and every chain ends in a stand-in that does not wait itself. A stand-in stays
  inside the calls a task may make.
\<close>

definition call_chain :: "'s nested \<Rightarrow> (tid \<times> tid) set" where
  "call_chain n = {(i, Client c) |i c. inner n i = Some c}"

locale chained_caller = task_caller M
  for M :: "('e, 's, 'c) callable" +
  fixes proper :: "'s \<Rightarrow> 32 word \<Rightarrow> bool"
  assumes call_caller: "comp_caller M (comp_call M c f) = Some c"
    and call_idle: "comp_next M (comp_call M c f) s = Some s' \<Longrightarrow> comp_idle M s c"
    and idle_no_task: "comp_idle M s c \<Longrightarrow> \<not> comp_in_task M s (Client c)"
    and call_proper: "comp_next M (comp_call M c f) s = Some s' \<Longrightarrow> comp_allowed M f \<Longrightarrow> proper s' c"
    and stays_proper: "comp_next M e s = Some s' \<Longrightarrow> comp_caller M e \<noteq> Some c \<Longrightarrow>
      proper s c \<Longrightarrow> proper s' c"
begin

definition chain_inv :: "'s nested \<Rightarrow> bool" where
  "chain_inv n \<longleftrightarrow> inner_inv n \<and> acyclic (call_chain n) \<and>
     (\<forall>c. stands_in n c \<longrightarrow> proper (base n) c)"

lemma chain_end:
  assumes "chain_inv n" and "inner n i = Some c"
  shows "\<exists>j d. inner n j = Some d \<and> inner n (Client d) = None"
proof -
  have "wf ((call_chain n)\<inverse>)"
    using assms(1) by (intro finite_acyclic_wf_converse) (auto simp: chain_inv_def)
  moreover have "Client c \<in> {k. \<exists>j d. k = Client d \<and> inner n j = Some d}" using assms(2) by blast
  ultimately obtain k where k: "k \<in> {k. \<exists>j d. k = Client d \<and> inner n j = Some d}"
    and last: "\<And>l. (l, k) \<in> (call_chain n)\<inverse> \<Longrightarrow> l \<notin> {k. \<exists>j d. k = Client d \<and> inner n j = Some d}"
    by (rule wfE_min) blast
  then obtain j d where "k = Client d" "inner n j = Some d" by blast
  moreover have "inner n (Client d) = None"
  proof (cases "inner n (Client d)")
    case (Some e)
    with \<open>k = Client d\<close> last[of "Client e"] show ?thesis by (auto simp: call_chain_def)
  qed
  ultimately show ?thesis by blast
qed

lemma chain_inv_next:
  assumes inv: "chain_inv n" and n: "nested_next M e n = Some n'"
  shows "chain_inv n'"
proof -
  have inner: "inner_inv n'" using inner_inv_next[OF _ n] inv by (simp add: chain_inv_def)
  have "acyclic (call_chain n') \<and> (\<forall>c. stands_in n' c \<longrightarrow> proper (base n') c)"
  proof (cases e)
    case (Plain e')
    with n have m: "may_step M e' n" and s: "comp_next M e' (base n) = Some (base n')"
      and i: "inner n' = inner n" by (auto split: if_splits)
    have "proper (base n') c" if "stands_in n c" for c
    proof -
      have "comp_caller M e' \<noteq> Some c" using m that by (auto simp: may_step_def)
      with stays_proper[OF s] inv that show ?thesis by (simp add: chain_inv_def)
    qed
    with inv i show ?thesis by (simp add: chain_inv_def call_chain_def stands_in_def)
  next
    case (TaskCalls i c f)
    with n have new: "comp_in_task M (base n) i" "comp_allowed M f" "\<not> stands_in n c" "inner n i = None"
      and s: "comp_next M (comp_call M c f) (base n) = Some (base n')"
      and i: "inner n' = (inner n)(i := Some c)" by (auto split: if_splits)
    have out: "\<not> comp_in_task M (base n) (Client c)" using idle_no_task[OF call_idle[OF s]] .
    then have "inner n (Client c) = None"
      using inv unfolding chain_inv_def inner_inv_def by (cases "inner n (Client c)") auto
    then have "(Client c, k) \<notin> call_chain n" for k by (simp add: call_chain_def)
    then have "(Client c, i) \<notin> (call_chain n)\<^sup>*"
      using out new(1) by (metis converse_rtranclE)
    moreover have "call_chain n' = insert (i, Client c) (call_chain n)"
      using new(4) by (auto simp: call_chain_def i)
    ultimately have "acyclic (call_chain n')" using inv by (simp add: chain_inv_def)
    moreover have "proper (base n') d" if "stands_in n' d" for d
    proof (cases "d = c")
      case True
      with call_proper[OF s] new(2) show ?thesis by simp
    next
      case False
      with that i have "stands_in n d" by (auto simp: stands_in_def split: if_splits)
      with stays_proper[OF s] False inv show ?thesis by (simp add: call_caller chain_inv_def)
    qed
    ultimately show ?thesis by blast
  next
    case (TaskResumes i)
    with n have b: "base n' = base n" and i: "inner n' = (inner n)(i := None)"
      by (auto split: option.splits if_splits)
    have "call_chain n' \<subseteq> call_chain n" by (auto simp: call_chain_def i split: if_splits)
    with inv acyclic_subset have "acyclic (call_chain n')" unfolding chain_inv_def by blast
    moreover have "stands_in n' d \<Longrightarrow> stands_in n d" for d by (auto simp: stands_in_def i split: if_splits)
    ultimately show ?thesis using inv b by (simp add: chain_inv_def)
  qed
  with inner show ?thesis by (simp add: chain_inv_def)
qed

end

sublocale chained_caller \<subseteq> chained: safety "nested_init init" "nested_next M" chain_inv
proof
  show "nested_init init n \<Longrightarrow> chain_inv n" for n
    by (simp add: chain_inv_def nested_init_def inner_inv_def call_chain_def stands_in_def acyclic_def)
  show "chain_inv n \<Longrightarrow> nested_next M e n = Some n' \<Longrightarrow> chain_inv n'" for n e n' by (rule chain_inv_next)
qed

section \<open>Calls that never return to their task\<close>

text \<open>
  An operation that does not return while some thread is inside a task cannot return to a
  task: the thread that waits for it is inside a task itself. The law is needed as long as
  the pool is alive only.
\<close>

locale hanging_call = task_caller M
  for M :: "('e, 's, 'c) callable" +
  fixes ok :: "'s \<Rightarrow> bool" and alive :: "'s \<Rightarrow> bool" and inside :: "'s \<Rightarrow> 32 word \<Rightarrow> bool"
  assumes ok_next: "ok s \<Longrightarrow> comp_next M e s = Some s' \<Longrightarrow> ok s'"
    and alive_back: "comp_next M e s = Some s' \<Longrightarrow> alive s' \<Longrightarrow> alive s"
    and stays_inside: "ok s \<Longrightarrow> alive s \<Longrightarrow> comp_in_task M s i \<Longrightarrow> inside s c \<Longrightarrow>
      comp_next M e s = Some s' \<Longrightarrow> inside s' c"
    and inside_busy: "inside s c \<Longrightarrow> \<not> comp_idle M s c"
begin

definition waits :: "tid \<Rightarrow> 32 word \<Rightarrow> 's nested \<Rightarrow> bool" where
  "waits i c n \<longleftrightarrow> inner_inv n \<and> ok (base n) \<and> inner n i = Some c \<and> inside (base n) c"

lemma waits_next:
  assumes w: "waits i c n" and a: "alive (base n')" and n: "nested_next M e n = Some n'"
  shows "waits i c n' \<and> alive (base n)"
proof -
  have inv: "inner_inv n'" using inner_inv_next[OF _ n] w by (simp add: waits_def)
  have base: "ok (base n') \<and> inside (base n') c \<and> alive (base n)"
    using nested_step_base[OF n]
  proof
    assume "base n' = base n"
    with w a show ?thesis by (simp add: waits_def)
  next
    assume "\<exists>e'. comp_next M e' (base n) = Some (base n')"
    then obtain e' where s: "comp_next M e' (base n) = Some (base n')" by blast
    have "comp_in_task M (base n) i" "ok (base n)" "inside (base n) c"
      using w unfolding waits_def inner_inv_def by blast+
    with ok_next[OF _ s] alive_back[OF s a] stays_inside[OF _ _ _ _ s] show ?thesis by blast
  qed
  have "inner n' i = Some c"
  proof (cases e)
    case (TaskResumes j)
    with n w inside_busy[of "base n" c] show ?thesis
      by (auto simp: waits_def split: option.splits if_splits)
  qed (use n w in \<open>auto simp: waits_def split: if_splits\<close>)
  with inv base show ?thesis by (simp add: waits_def)
qed

lemma alive_run_back: "run (nested_next M) es n = Some n' \<Longrightarrow> alive (base n') \<Longrightarrow> alive (base n)"
proof (induction es arbitrary: n)
  case (Cons e es)
  then obtain u where u: "nested_next M e n = Some u" "alive (base u)"
    by (auto split: option.splits)
  with nested_step_base[OF u(1)] alive_back show ?case by metis
qed simp

lemma waits_run:
  "waits i c n \<Longrightarrow> run (nested_next M) es n = Some n' \<Longrightarrow> alive (base n') \<Longrightarrow> waits i c n'"
proof (induction es arbitrary: n)
  case (Cons e es)
  then obtain u where u: "nested_next M e n = Some u" "run (nested_next M) es u = Some n'"
    by (auto split: option.splits)
  with waits_next[OF Cons.prems(1) alive_run_back[OF u(2) Cons.prems(3)]] Cons.IH Cons.prems(3)
  show ?case by blast
qed simp

lemma waits_in_task: "waits i c n \<Longrightarrow> comp_in_task M (base n) i"
  unfolding waits_def inner_inv_def by blast

end

end
