(* ===== verification/ThpoolQuiet.thy ===== *)
theory ThpoolQuiet
  imports ThpoolProps
begin

text \<open>
  When the locking pool comes to rest. A state in which no thread can move by itself has
  nobody left inside the library but idle workers and clients blocked in \<open>thpool_wait\<close>; in
  particular \<open>thpool_shutdown\<close> never deadlocks.
\<close>

section \<open>No worker sleeps through a shutdown\<close>

text \<open>
  Once the flag is set, either the client that set it has still to broadcast, or no worker is
  blocked on \<open>pool->notify\<close> or about to block.
\<close>

fun announcing :: "pc \<Rightarrow> bool" where
  "announcing (InShutdown p) \<longleftrightarrow> (case p of H_Lock d \<Rightarrow> True | H_Broadcast d \<Rightarrow> True | _ \<Rightarrow> False)"
| "announcing _ \<longleftrightarrow> False"

definition stop_inv :: "system \<Rightarrow> bool" where
  "stop_inv s \<longleftrightarrow> (shutdown (mem s) = 1 \<longrightarrow> (\<exists>i. announcing (pcs s i)) \<or>
     notify (mem s) = {} \<and> (\<forall>i. pcs s i \<noteq> InWorker W_Wait))"

lemma exec_stop:
  "exec i v p m = Some (m', p') \<Longrightarrow>
    (shutdown m' = 1 \<longrightarrow> shutdown m = 1 \<or> announcing p') \<and>
    (announcing p \<and> \<not> announcing p' \<longrightarrow> notify m' = {} \<and> holds p) \<and>
    (notify m = {} \<and> p \<noteq> InWorker W_Wait \<longrightarrow> notify m' = {}) \<and>
    (p' = InWorker W_Wait \<longrightarrow> shutdown m' \<noteq> 1)"
  by (erule exec_points; erule step_elims;
      auto simp: outcome_simps step_defs cond_signal_def split: if_splits)

lemma step_stop_inv:
  assumes inv: "thpool_inv s" and stop: "stop_inv s"
    and e: "exec i v (pcs s i) (mem s) = Some (m, p)"
  shows "stop_inv \<lparr>mem = m, pcs = (pcs s)(i := p)\<rparr>"
proof -
  note x = exec_stop[OF e]
  have own: "holds (pcs s j) \<longleftrightarrow> lock (mem s) = Some j" for j
    using inv unfolding thpool_inv_def lock_inv_def by blast
  have "(\<exists>j. announcing (((pcs s)(i := p)) j)) \<or>
      notify m = {} \<and> (\<forall>j. ((pcs s)(i := p)) j \<noteq> InWorker W_Wait)" if now: "shutdown m = 1"
  proof (cases "announcing p \<or> (\<exists>j. j \<noteq> i \<and> announcing (pcs s j))")
    case True
    then show ?thesis
    proof
      assume "announcing p"
      then show ?thesis by (intro disjI1 exI[of _ i]) simp
    next
      assume "\<exists>j. j \<noteq> i \<and> announcing (pcs s j)"
      then obtain j where "j \<noteq> i" "announcing (pcs s j)" by blast
      then show ?thesis by (intro disjI1 exI[of _ j]) simp
    qed
  next
    case False
    have p: "p \<noteq> InWorker W_Wait" using x now by blast
    show ?thesis
    proof (cases "announcing (pcs s i)")
      case True
      with False x have n: "notify m = {}" and "holds (pcs s i)" by blast+
      then have "\<not> holds (pcs s j)" if "j \<noteq> i" for j using own[of i] own[of j] that by simp
      then have "pcs s j \<noteq> InWorker W_Wait" if "j \<noteq> i" for j using that by fastforce
      with n p show ?thesis by simp
    next
      case announced: False
      with False have "\<not> announcing (pcs s j)" for j by (cases "j = i") blast+
      with stop x now False have n: "notify (mem s) = {}" and w: "\<And>j. pcs s j \<noteq> InWorker W_Wait"
        by (auto simp: stop_inv_def)
      from x n w[of i] have "notify m = {}" by blast
      with w p show ?thesis by simp
    qed
  qed
  then show ?thesis by (simp add: stop_inv_def)
qed

lemma stop_inv_next:
  assumes "thpool_inv s" and "stop_inv s" and "thpool_next e s = Some s'"
  shows "stop_inv s'"
proof (cases e)
  case (Step i v)
  then obtain m p where "exec i v (pcs s i) (mem s) = Some (m, p)"
    and "s' = \<lparr>mem = m, pcs = (pcs s)(i := p)\<rparr>"
    using assms(3) by (auto simp only: step_Some)
  with step_stop_inv[OF assms(1,2)] show ?thesis by simp
next
  case (Call c f)
  then obtain r where r: "pcs s (Client c) = Returned r"
    and s': "s' = s\<lparr>pcs := (pcs s)(Client c := entry f)\<rparr>"
    using assms(3) by (auto simp only: call_Some)
  have "announcing (pcs s j) \<Longrightarrow> announcing (pcs s' j)" for j using r by (auto simp: s')
  moreover have "pcs s j \<noteq> InWorker W_Wait \<Longrightarrow> pcs s' j \<noteq> InWorker W_Wait" for j
    by (cases f) (auto simp: s')
  moreover have "mem s' = mem s" by (simp add: s')
  ultimately show ?thesis using assms(2) unfolding stop_inv_def by metis
next
  case (Spurious i)
  with assms(2,3) show ?thesis by (auto simp: stop_inv_def split: if_splits)
qed

interpretation thpool_stop: safety thpool_init thpool_next "\<lambda>s. thpool_inv s \<and> stop_inv s"
proof
  fix s assume init: "thpool_init s"
  then have "shutdown (mem s) = 0"
    by (auto simp: thpool_init_def new_system_def new_pool_def Let_def)
  with thpool_inv_init[OF init] show "thpool_inv s \<and> stop_inv s" by (simp add: stop_inv_def)
next
  fix s e s'
  assume "thpool_inv s \<and> stop_inv s" and "thpool_next e s = Some s'"
  then show "thpool_inv s' \<and> stop_inv s'" using thpool.inv_next stop_inv_next by blast
qed

section \<open>States at rest\<close>

definition at_rest :: "system \<Rightarrow> bool" where
  "at_rest s \<longleftrightarrow> (\<forall>i v. thpool_next (Step i v) s = None)"

lemma at_rest_exec: "at_rest s \<Longrightarrow> exec i v (pcs s i) (mem s) = None"
proof (cases "exec i v (pcs s i) (mem s)")
  case (Some x)
  moreover obtain m p where "x = (m, p)" by (cases x)
  moreover assume "at_rest s"
  ultimately show ?thesis unfolding at_rest_def by (metis option.distinct(1) step_Some)
qed

lemma at_rest_unlocked:
  assumes "thpool_inv s" and "at_rest s"
  shows "lock (mem s) = None"
proof (rule ccontr)
  assume "lock (mem s) \<noteq> None"
  then obtain i where "lock (mem s) = Some i" by blast
  with assms(1) have "holds (pcs s i)" unfolding thpool_inv_def lock_inv_def by blast
  then obtain v m' p' where "exec i v (pcs s i) (mem s) = Some (m', p')" by (rule exec_holder)
  with at_rest_exec[OF assms(2)] show False by (metis option.distinct(1))
qed

text \<open>With the mutex free, the places where a thread cannot go on.\<close>

lemma exec_stuck_points:
  assumes "exec i v p m = None" and "lock m = None" and "\<not> holds p"
  obtains r where "p = Returned r" | "p = InWorker W_Blocked" "i \<in> notify m"
    | "p = InWait E_Blocked" "i \<in> notify_empty m"
    | d k where "p = InShutdown (H_Join d k)" "k < thread_count m" "worker_handle k \<notin> exited m"
proof (cases p)
  case (InWorker q)
  with assms that show thesis by (cases q) (auto simp: acquire_def split: if_splits)
next
  case (InTryOnce q)
  with assms that show thesis by (cases q) (auto simp: acquire_def)
next
  case (InAdd q)
  with assms that show thesis by (cases q) (auto simp: acquire_def)
next
  case (InAddTry q)
  with assms that show thesis by (cases q) (auto simp: acquire_def split: if_splits)
next
  case (InMisc q)
  with assms that show thesis by (cases q) (auto simp: acquire_def)
next
  case (InWait q)
  with assms that show thesis by (cases q) (auto simp: acquire_def split: if_splits)
next
  case (InShutdown q)
  with assms that show thesis
    by (cases q) (auto simp: acquire_def join_worker_def split: if_splits)
qed (use that in blast)

lemma handle_is_worker:
  assumes "k < thread_count m" and "unat (thread_count m) \<le> 2 ^ 32"
  shows "is_worker m (worker_handle k)"
proof -
  have k: "unat k < unat (thread_count m)" using assms(1) by (simp add: word_less_nat_alt)
  then have "unat (ucast k :: 32 word) = unat k"
    using assms(2) by (simp add: unsigned_ucast_eq take_bit_nat_eq_self)
  with k show ?thesis by (simp add: worker_handle_def)
qed

lemma at_rest_worker:
  assumes inv: "thpool_inv s" "stop_inv s" and rest: "at_rest s" and w: "is_worker (mem s) i"
    and run: "i \<notin> exited (mem s)"
  shows "i \<in> notify (mem s)" and "shutdown (mem s) = 0"
proof -
  note free = at_rest_unlocked[OF inv(1) rest]
  have own: "\<not> holds (pcs s j)" for j
    using inv(1) free unfolding thpool_inv_def lock_inv_def by simp
  have "role_ok (mem s) i (pcs s i)" using inv(1) by (simp add: thpool_inv_def role_inv_def)
  with w run obtain q where "pcs s i = InWorker q" by (auto simp: role_ok_def)
  with exec_stuck_points[OF at_rest_exec[OF rest] free own, of i] show n: "i \<in> notify (mem s)" by auto
  have "\<not> announcing (pcs s j)" for j
  proof
    assume "announcing (pcs s j)"
    then obtain d where "pcs s j = InShutdown (H_Lock d) \<or> pcs s j = InShutdown (H_Broadcast d)"
      by (cases "pcs s j") (auto split: hpc.splits)
    with at_rest_exec[OF rest, of j j] free show False by (auto simp: acquire_def)
  qed
  with inv(2) n have "shutdown (mem s) \<noteq> 1" by (auto simp: stop_inv_def)
  then show "shutdown (mem s) = 0" using inv(1) by (auto simp: thpool_inv_def drain_inv_def)
qed

text \<open>The thread is outside the library, or inside \<open>thpool_wait\<close>.\<close>

fun is_returned :: "pc \<Rightarrow> bool" where
  "is_returned (Returned r) \<longleftrightarrow> True"
| "is_returned _ \<longleftrightarrow> False"

fun in_wait :: "pc \<Rightarrow> bool" where
  "in_wait (InWait p) \<longleftrightarrow> True"
| "in_wait _ \<longleftrightarrow> False"

lemma is_returned_iff: "is_returned p \<longleftrightarrow> (\<exists>r. p = Returned r)"
  by (cases p) auto

text \<open>The places where a thread can be; \<open>thpool_shutdown\<close> is not one of them.\<close>

lemma at_rest_points:
  assumes inv: "thpool_inv s" "stop_inv s" and rest: "at_rest s"
  obtains r where "pcs s j = Returned r" | "pcs s j = InWorker W_Blocked" "j \<in> notify (mem s)"
    | "pcs s j = InWait E_Blocked" "j \<in> notify_empty (mem s)"
proof -
  note free = at_rest_unlocked[OF inv(1) rest]
  have own: "\<not> holds (pcs s j)" using inv(1) free unfolding thpool_inv_def lock_inv_def by simp
  show thesis
  proof (rule exec_stuck_points[OF at_rest_exec[OF rest] free own])
    fix d k assume p: "pcs s j = InShutdown (H_Join d k)" and k: "k < thread_count (mem s)"
      and run: "worker_handle k \<notin> exited (mem s)"
    have "knows (pcs s j) (mem s)" "unat (thread_count (mem s)) \<le> 2 ^ 32"
      using inv by (auto simp: thpool_inv_def knows_inv_def size_inv_def)
    with p at_rest_worker(2)[OF inv rest handle_is_worker[OF k] run] show thesis by simp
  qed (use that in blast)+
qed

lemma at_rest_state:
  assumes "reach thpool_init thpool_next s" and "at_rest s"
  shows "((\<exists>r. pcs s i = Returned r) \<or> pcs s i = InWorker W_Blocked \<or> pcs s i = InWait E_Blocked) \<and>
    (exited (mem s) = {} \<longrightarrow> ring_items (queue (mem s)) = [] \<and>
      mset (finished (mem s)) = mset (submitted (mem s))) \<and>
    (exited (mem s) \<noteq> {} \<longrightarrow> (\<forall>i. is_worker (mem s) i \<longrightarrow> pcs s i = Returned RVoid))"
proof -
  have inv: "thpool_inv s" and stop: "stop_inv s" and live: "live_inv s"
    using thpool_stop.reach_inv[OF assms(1)] thpool_live.reach_inv[OF assms(1)] by auto
  note sleeping = at_rest_worker[OF inv stop assms(2)]
  have roles: "role_ok (mem s) j (pcs s j)" and mark: "drain_inv s" for j
    using inv by (auto simp: thpool_inv_def role_inv_def)
  have place: "(\<exists>r. pcs s j = Returned r) \<or> pcs s j = InWorker W_Blocked \<or> pcs s j = InWait E_Blocked" for j
    by (rule at_rest_points[OF inv stop assms(2), of j]) auto
  have idle: "mset (finished (mem s)) = mset (submitted (mem s)) \<and> ring_items (queue (mem s)) = []"
    if none: "exited (mem s) = {}"
  proof -
    have "i \<in> notify (mem s)" if "is_worker (mem s) i" for i using sleeping(1)[OF that] none by simp
    moreover have "\<not> signalling (pcs s j)" for j using place[of j] by auto
    ultimately have "queue_count (queue (mem s)) = 0" using live none unfolding live_inv_def by blast
    moreover have "tsum carried (pcs s) = {#}"
      by (rule tsum_const_zero) (use place in \<open>metis carried.simps empty_iff wpc.simps\<close>)
    ultimately show ?thesis
      using inv by (simp add: thpool_inv_def queue_inv_def task_inv_def ring_items_empty[symmetric])
  qed
  have gone: "pcs s j = Returned RVoid" if "exited (mem s) \<noteq> {}" "is_worker (mem s) j" for j
  proof -
    have "shutdown (mem s) \<noteq> 0" using that(1) mark by (auto simp: drain_inv_def)
    with sleeping(2)[OF that(2)] have "j \<in> exited (mem s)" by blast
    with roles[of j] that(2) show ?thesis by (auto simp: role_ok_def)
  qed
  show ?thesis using place[of i] idle gone by blast
qed

text \<open>
  C4: The locking pool does not deadlock. In a state where no thread can move, each thread
  has returned, is a worker that sleeps because nothing is queued, or sleeps in
  \<open>thpool_wait\<close>; no client is in \<open>thpool_shutdown\<close> any more, and if no worker has returned,
  every task ever accepted has been run.
\<close>

theorem thpool_deadlock_free:
  assumes "reach thpool_init thpool_next s" and "at_rest s"
  shows "((\<exists>r. pcs s i = Returned r) \<or> pcs s i = InWorker W_Blocked \<or> pcs s i = InWait E_Blocked) \<and>
    (exited (mem s) = {} \<longrightarrow> ring_items (queue (mem s)) = [] \<and>
      mset (finished (mem s)) = mset (submitted (mem s))) \<and>
    (exited (mem s) \<noteq> {} \<longrightarrow> (\<forall>i. is_worker (mem s) i \<longrightarrow> pcs s i = Returned RVoid))"
  by (rule at_rest_state[OF assms])

text \<open>A task has been added and run, and the worker went back to sleep.\<close>

definition state_rest :: system where
  "state_rest = \<lparr>mem = (new_pool [example_task] 1 1)\<lparr>notify := {Worker 0},
       submitted := [example_task], taken := [example_task], finished := [example_task]\<rparr>,
     pcs = (pcs (small_pool 1))(Client 0 := Returned (RInt 0), Worker 0 := InWorker W_Blocked)\<rparr>"

lemma run_rest: "run thpool_next (Call 0 (Add example_task) # steps (Client 0) 5 @ steps (Worker 0) 14)
    (small_pool 1) = Some state_rest"
  by (simp add: state_rest_def eval_pool fun_upd_twist)

lemma single_worker: "thread_count m = 1 \<Longrightarrow> is_worker m i \<longleftrightarrow> i = Worker 0"
  by (cases i) (auto simp: less_Suc_eq unat_eq_zero)

lemma state_rest_at_rest: "at_rest state_rest"
proof -
  have "pcs state_rest i = (if i = Worker 0 then InWorker W_Blocked
      else if i = Client 0 then Returned (RInt 0) else Returned RVoid)" for i
    using single_worker[of "new_pool [example_task] 1 1" i]
    by (auto simp: state_rest_def small_pool_def new_system_def Let_def) (simp_all add: new_pool_def)
  moreover have "notify (mem state_rest) = {Worker 0}" by (simp add: state_rest_def)
  ultimately show ?thesis by (simp add: at_rest_def)
qed

theorem thpool_deadlock_free_witness:
  "at_rest state_rest \<and> exited (mem state_rest) = {} \<and>
    mset (finished (mem state_rest)) = mset (submitted (mem state_rest))"
proof -
  have "exited (mem state_rest) = {}" by (simp add: state_rest_def new_pool_def)
  with thpool_deadlock_free[OF small_pool_run[OF _ run_rest] state_rest_at_rest] state_rest_at_rest
  show ?thesis by simp
qed

end
