(* ===== verification/ThpoolTasks.thy ===== *)
theory ThpoolTasks
  imports NestedCalls ThpoolQuiet
begin

text \<open>
  The locking pool with tasks that call its API from a worker or from inside
  \<open>thpool_worker_try_once\<close>. Every such run is a run of the pool, so its promises carry over;
  what is new is that a task may wait for the pool to run the task itself. A task may make
  every call but \<open>thpool_shutdown\<close> and \<open>thpool_destroy\<close>, which would join the worker the
  task runs on.
\<close>

section \<open>The composed system\<close>

fun event_thread :: "event \<Rightarrow> tid option" where
  "event_thread (Step i v) = Some i"
| "event_thread _ = None"

fun event_caller :: "event \<Rightarrow> 32 word option" where
  "event_caller (Call c f) = Some c"
| "event_caller _ = None"

fun from_task :: "call \<Rightarrow> bool" where
  "from_task Shutdown \<longleftrightarrow> False"
| "from_task Destroy \<longleftrightarrow> False"
| "from_task _ \<longleftrightarrow> True"

text \<open>Line 288 and line 348: the thread is inside the code of a task.\<close>

fun at_task :: "pc \<Rightarrow> bool" where
  "at_task (InWorker p) \<longleftrightarrow> (case p of W_Run t \<Rightarrow> True | _ \<Rightarrow> False)"
| "at_task (InTryOnce p) \<longleftrightarrow> (case p of T_Run t \<Rightarrow> True | _ \<Rightarrow> False)"
| "at_task _ \<longleftrightarrow> False"

definition thpool_tasks :: "(event, system, call) callable" where
  "thpool_tasks = \<lparr>comp_next = thpool_next, comp_thread = event_thread, comp_caller = event_caller,
     comp_call = Call, comp_allowed = from_task, comp_in_task = (\<lambda>s i. at_task (pcs s i)),
     comp_idle = (\<lambda>s c. is_returned (pcs s (Client c)))\<rparr>"

abbreviation tasks_init :: "system nested \<Rightarrow> bool" where
  "tasks_init \<equiv> nested_init thpool_init"

abbreviation tasks_next :: "(event, call) nested_event \<Rightarrow> system nested \<Rightarrow> system nested option" where
  "tasks_next \<equiv> nested_next thpool_tasks"

lemma thpool_tasks_sel [simp]:
  "comp_next thpool_tasks = thpool_next" "comp_thread thpool_tasks = event_thread"
  "comp_caller thpool_tasks = event_caller" "comp_call thpool_tasks = Call"
  "comp_allowed thpool_tasks = from_task" "comp_in_task thpool_tasks s i = at_task (pcs s i)"
  "comp_idle thpool_tasks s c = is_returned (pcs s (Client c))"
  by (simp_all add: thpool_tasks_def)

section \<open>The laws\<close>

text \<open>Another thread's program point changes by its own call only.\<close>

lemma next_other:
  assumes "thpool_next e s = Some s'" and "event_thread e \<noteq> Some i"
    and "\<forall>c. event_caller e = Some c \<longrightarrow> i \<noteq> Client c"
  shows "pcs s' i = pcs s i"
  using assms by (cases e) (auto simp: step_Some call_Some split: if_splits simp del: thpool_next.simps(1,2))

lemma stays_at_task:
  assumes n: "thpool_next e s = Some s'" and t: "at_task (pcs s i)" and e: "event_thread e \<noteq> Some i"
  shows "at_task (pcs s' i)"
proof (cases "\<exists>c. event_caller e = Some c \<and> i = Client c")
  case True
  then obtain c where "event_caller e = Some c" "i = Client c" by blast
  with n t show ?thesis by (cases e) (auto simp: call_Some simp del: thpool_next.simps)
next
  case False
  with next_other[OF n e] t show ?thesis by simp
qed

text \<open>Inside a call a task may make.\<close>

fun outside_shutdown :: "pc \<Rightarrow> bool" where
  "outside_shutdown (InShutdown h) \<longleftrightarrow> False"
| "outside_shutdown _ \<longleftrightarrow> True"

lemma exec_outside_shutdown:
  "exec i v p m = Some (m', p') \<Longrightarrow> outside_shutdown p \<Longrightarrow> outside_shutdown p'"
  by (cases p) (auto simp: resume_at_Some)

lemma stays_outside_shutdown:
  assumes n: "thpool_next e s = Some s'" and c: "event_caller e \<noteq> Some c"
    and o: "outside_shutdown (pcs s (Client c))"
  shows "outside_shutdown (pcs s' (Client c))"
proof (cases "event_thread e = Some (Client c)")
  case True
  then obtain v where "e = Step (Client c) v" by (cases e) auto
  with n o show ?thesis using exec_outside_shutdown by (auto simp: step_Some simp del: thpool_next.simps)
next
  case False
  have "\<forall>d. event_caller e = Some d \<longrightarrow> Client c \<noteq> Client d" using c by auto
  with next_other[OF n False] o show ?thesis by simp
qed

interpretation tasks: chained_caller thpool_tasks "\<lambda>s c. outside_shutdown (pcs s (Client c))"
proof
  fix c f e s s' i
  show "comp_thread thpool_tasks (comp_call thpool_tasks c f) = None" by simp
  show "comp_caller thpool_tasks (comp_call thpool_tasks c f) = Some c" by simp
  show "comp_next thpool_tasks e s = Some s' \<Longrightarrow> comp_in_task thpool_tasks s i \<Longrightarrow>
      comp_thread thpool_tasks e \<noteq> Some i \<Longrightarrow> comp_in_task thpool_tasks s' i"
    using stays_at_task by simp
  show "comp_next thpool_tasks (comp_call thpool_tasks c f) s = Some s' \<Longrightarrow> comp_idle thpool_tasks s c"
    by (auto simp: call_Some is_returned_iff simp del: thpool_next.simps)
  show "comp_idle thpool_tasks s c \<Longrightarrow> \<not> comp_in_task thpool_tasks s (Client c)"
    by (auto simp: is_returned_iff)
  show "outside_shutdown (pcs s' (Client c))"
    if "comp_next thpool_tasks (comp_call thpool_tasks c f) s = Some s'" "comp_allowed thpool_tasks f"
    using that by (cases f) (auto simp: call_Some simp del: thpool_next.simps)
  show "comp_next thpool_tasks e s = Some s' \<Longrightarrow> comp_caller thpool_tasks e \<noteq> Some c \<Longrightarrow>
      outside_shutdown (pcs s (Client c)) \<Longrightarrow> outside_shutdown (pcs s' (Client c))"
    using stays_outside_shutdown by simp
qed

section \<open>Waiting from inside a task\<close>

lemma exec_in_wait:
  "exec i v p m = Some (m', p') \<Longrightarrow> in_wait p \<Longrightarrow> in_wait p' \<or> p = InWait E_Return"
  by (cases p) (auto simp: resume_at_Some acquire_def elim!: wait_stepE split: if_splits)

lemma at_task_running: "at_task p \<Longrightarrow> running p"
  by (cases p) (auto split: wpc.splits tpc.splits)

lemma stays_in_wait:
  assumes inv: "thpool_inv s" and t: "at_task (pcs s i)" and w: "in_wait (pcs s (Client c))"
    and n: "thpool_next e s = Some s'"
  shows "in_wait (pcs s' (Client c))"
proof (cases e)
  case (Step j v)
  have "knows (pcs s (Client c)) (mem s)" "running_inv s"
    using inv by (auto simp: thpool_inv_def knows_inv_def)
  with running_count_nonzero[OF _ at_task_running[OF t]]
  have "pcs s (Client c) \<noteq> InWait E_Return" by auto
  then have "in_wait p" if "exec (Client c) v (pcs s (Client c)) (mem s) = Some (m, p)" for m p
    using exec_in_wait[OF that w] by blast
  with Step n w show ?thesis by (auto simp: step_Some simp del: thpool_next.simps)
next
  case (Call d f)
  with n w show ?thesis by (auto simp: call_Some simp del: thpool_next.simps)
next
  case (Spurious j)
  with n w show ?thesis by (auto split: if_splits)
qed

interpretation waiting_task: hanging_call thpool_tasks thpool_inv "\<lambda>_. True"
  "\<lambda>s c. in_wait (pcs s (Client c))"
proof (unfold_locales, goal_cases)
  case 1
  then show ?case by (simp add: thpool.inv_next)
next
  case 3
  then show ?case using stays_in_wait by simp
next
  case 4
  then show ?case by (auto simp: is_returned_iff)
qed simp

section \<open>Properties\<close>

lemma tasks_reach: "reach tasks_init tasks_next n \<Longrightarrow> reach thpool_init thpool_next (base n)"
  using nested_reach_base[of thpool_init thpool_tasks n] by simp

lemma nested_plain_run:
  assumes "inner n = (\<lambda>_. None)" and "run thpool_next es (base n) = Some s"
  shows "run tasks_next (map Plain es) n = Some (n\<lparr>base := s\<rparr>)"
  using assms
proof (induction es arbitrary: n)
  case (Cons e es)
  then obtain u where u: "thpool_next e (base n) = Some u" "run thpool_next es u = Some s"
    by (auto split: option.splits)
  with Cons.IH[of "n\<lparr>base := u\<rparr>"] Cons.prems(1) show ?case
    by (simp add: may_step_def stands_in_def split: option.split)
qed simp

text \<open>The task of \<open>state_running\<close>, on the only worker, calls \<open>f\<close>.\<close>

definition running_nested :: "system nested" where
  "running_nested = \<lparr>base = state_running, inner = (\<lambda>_. None)\<rparr>"

lemma reach_running_nested: "reach tasks_init tasks_next running_nested"
proof -
  let ?n = "\<lparr>base = small_pool 1, inner = (\<lambda>_. None)\<rparr>"
  have "reach tasks_init tasks_next ?n"
    by (rule reach_init) (simp add: nested_init_def small_pool_init)
  moreover have "run tasks_next (map Plain sched_running) ?n = Some running_nested"
    using nested_plain_run[of ?n sched_running] run_running by (simp add: running_nested_def)
  ultimately show ?thesis by (rule reach_run[rotated])
qed

lemmas eval_nested = running_nested_def state_running_def may_step_def stands_in_def eval_pool

text \<open>
  C19: A task that calls \<open>thpool_wait\<close> waits for itself: it keeps \<open>running_count\<close> above zero, so
  whatever the threads do from then on, the call does not return and the task does not end.
\<close>

theorem thpool_wait_in_task_hangs:
  assumes "reach tasks_init tasks_next n" and "inner n i = Some c"
    and "in_wait (pcs (base n) (Client c))" and "run tasks_next es n = Some n'"
  shows "inner n' i = Some c \<and> in_wait (pcs (base n') (Client c)) \<and> at_task (pcs (base n') i)"
proof -
  have "waiting_task.waits i c n"
    using assms(2,3) tasks.nested.reach_inv[OF assms(1)] reach_thpool_inv[OF tasks_reach[OF assms(1)]]
    by (simp add: waiting_task.waits_def)
  from waiting_task.waits_run[OF this assms(4)] have "waiting_task.waits i c n'" by simp
  with waiting_task.waits_in_task[OF this] show ?thesis by (simp add: waiting_task.waits_def)
qed

definition task_waiting :: "system nested" where
  "task_waiting = \<lparr>base = \<lparr>mem = (mem state_running)\<lparr>notify_empty := {Client 5}\<rparr>,
      pcs = (pcs state_running)(Client 5 := InWait E_Blocked)\<rparr>, inner = (\<lambda>_. None)(Worker 0 := Some 5)\<rparr>"

lemma run_task_waiting:
  "run tasks_next (TaskCalls (Worker 0) 5 Wait # map Plain (steps (Client 5) 5)) running_nested =
    Some task_waiting"
  by (simp add: task_waiting_def eval_nested)

lemma reach_task_waiting: "reach tasks_init tasks_next task_waiting"
  by (rule reach_run[OF run_task_waiting reach_running_nested])

theorem thpool_wait_in_task_hangs_witness:
  "\<exists>n'. run tasks_next (map Plain (Spurious (Client 5) # steps (Client 5) 7)) task_waiting = Some n' \<and>
     at_task (pcs (base n') (Worker 0)) \<and> finished (mem (base n')) = []"
proof -
  let ?es = "map Plain (Spurious (Client 5) # steps (Client 5) 7) :: (event, call) nested_event list"
  have w: "inner task_waiting (Worker 0) = Some 5" "in_wait (pcs (base task_waiting) (Client 5))"
    by (simp_all add: task_waiting_def)
  obtain n' where r: "run tasks_next ?es task_waiting = Some n'"
    and f: "finished (mem (base n')) = []"
    by (simp add: task_waiting_def eval_nested)
  from thpool_wait_in_task_hangs[OF reach_task_waiting w r] r f show ?thesis by blast
qed

section \<open>Rest\<close>

text \<open>No thread can move and no task can go on; only new calls or spurious wake-ups could happen.\<close>

definition nested_at_rest :: "system nested \<Rightarrow> bool" where
  "nested_at_rest n \<longleftrightarrow> (\<forall>i v. tasks_next (Plain (Step i v)) n = None) \<and>
     (\<forall>i. tasks_next (TaskResumes i) n = None)"

lemma rest_exec:
  assumes "nested_at_rest n" and "inner n i = None"
  shows "exec i v (pcs (base n) i) (mem (base n)) = None"
proof (rule ccontr)
  assume "exec i v (pcs (base n) i) (mem (base n)) \<noteq> None"
  then obtain m p where "exec i v (pcs (base n) i) (mem (base n)) = Some (m, p)" by auto
  then have "tasks_next (Plain (Step i v)) n \<noteq> None" using assms(2) by (simp add: may_step_def)
  with assms(1) show False by (simp add: nested_at_rest_def)
qed

lemma rest_unlocked:
  assumes "thpool_inv (base n)" and "tasks.inner_inv n" and "nested_at_rest n"
  shows "lock (mem (base n)) = None"
proof (rule ccontr)
  assume "lock (mem (base n)) \<noteq> None"
  then obtain i where "lock (mem (base n)) = Some i" by blast
  then have h: "holds (pcs (base n) i)" using assms(1) unfolding thpool_inv_def lock_inv_def by blast
  then have "\<not> at_task (pcs (base n) i)"
    by (cases "pcs (base n) i") (auto split: wpc.splits tpc.splits)
  then have "inner n i = None"
    using assms(2) by (cases "inner n i") (auto simp: tasks.inner_inv_def)
  moreover obtain v m p where "exec i v (pcs (base n) i) (mem (base n)) = Some (m, p)"
    using exec_holder[OF h] .
  ultimately show False using rest_exec[OF assms(3)] by simp
qed

text \<open>
  C18: Among the calls of the pool other than \<open>thpool_shutdown\<close> and \<open>thpool_destroy\<close>, which the
  tasks here do not make (from a worker they would join the thread they run on),
  \<open>thpool_wait\<close> is the only one that can keep a task: when a pool whose tasks call it comes to rest, either some task is blocked in \<open>thpool_wait\<close>, or no task is waiting for a call and
  the pool is at rest in the sense of the pool alone (so its shutdown has returned, its
  queue is empty or its workers are gone). In particular \<open>thpool_add_task\<close> from a task
  never deadlocks, with a full queue or without.
\<close>

theorem thpool_task_calls_progress:
  assumes "reach tasks_init tasks_next n" and "nested_at_rest n"
  shows "(\<exists>i c. inner n i = Some c \<and> pcs (base n) (Client c) = InWait E_Blocked) \<or>
    inner n = (\<lambda>_. None) \<and> at_rest (base n)"
proof (cases "inner n = (\<lambda>_. None)")
  case True
  then have "exec i v (pcs (base n) i) (mem (base n)) = None" for i v
    using rest_exec[OF assms(2)] by simp
  with True show ?thesis by (simp add: at_rest_def)
next
  case False
  have inv: "thpool_inv (base n)" by (rule reach_thpool_inv[OF tasks_reach[OF assms(1)]])
  have chain: "tasks.chain_inv n" by (rule tasks.chained.reach_inv[OF assms(1)])
  from False obtain i c where "inner n i = Some c" by fastforce
  from tasks.chain_end[OF chain this] obtain j d
    where jd: "inner n j = Some d" "inner n (Client d) = None" by blast
  have "lock (mem (base n)) = None"
    by (rule rest_unlocked[OF inv _ assms(2)]) (use chain in \<open>simp add: tasks.chain_inv_def\<close>)
  moreover from this have "\<not> holds (pcs (base n) (Client d))"
    using inv unfolding thpool_inv_def lock_inv_def by simp
  ultimately have "pcs (base n) (Client d) = InWait E_Blocked"
  proof (rule exec_stuck_points[OF rest_exec[OF assms(2) jd(2)]])
    fix r assume "pcs (base n) (Client d) = Returned r"
    then have "tasks_next (TaskResumes j) n \<noteq> None" using jd(1) by simp
    with assms(2) show ?thesis by (simp add: nested_at_rest_def)
  next
    assume "pcs (base n) (Client d) = InWorker W_Blocked"
    moreover have "role_ok (mem (base n)) (Client d) (pcs (base n) (Client d))"
      using inv by (simp add: thpool_inv_def role_inv_def)
    ultimately show ?thesis by (simp add: role_ok_def)
  next
    fix e k assume "pcs (base n) (Client d) = InShutdown (H_Join e k)"
    moreover have "outside_shutdown (pcs (base n) (Client d))"
      using chain jd(1) by (auto simp: tasks.chain_inv_def stands_in_def)
    ultimately show ?thesis by simp
  qed
  with jd(1) show ?thesis by blast
qed

lemma task_waiting_points:
  "pcs (base task_waiting) i = (if i = Client 5 then InWait E_Blocked
     else if i = Worker 0 then InWorker (W_Run example_task)
     else if i = Client 0 then Returned (RInt 0) else Returned RVoid)"
  using single_worker[of "new_pool [example_task] 1 1" i]
  by (auto simp: task_waiting_def state_running_def small_pool_def new_system_def Let_def)
    (simp_all add: new_pool_def)

lemma task_waiting_at_rest: "nested_at_rest task_waiting"
proof -
  have i: "inner task_waiting = (\<lambda>_. None)(Worker 0 := Some 5)"
    and e: "notify_empty (mem (base task_waiting)) = {Client 5}"
    by (simp_all add: task_waiting_def)
  show ?thesis
    unfolding nested_at_rest_def
    by (simp add: may_step_def task_waiting_points i) (simp add: e)
qed

theorem thpool_task_calls_progress_witness:
  "nested_at_rest task_waiting \<and>
    (\<exists>i c. inner task_waiting i = Some c \<and> pcs (base task_waiting) (Client c) = InWait E_Blocked)"
proof -
  have "inner task_waiting (Worker 0) \<noteq> None" by (simp add: task_waiting_def)
  then have "inner task_waiting \<noteq> (\<lambda>_. None)" by metis
  with thpool_task_calls_progress[OF reach_task_waiting task_waiting_at_rest] task_waiting_at_rest
  show ?thesis by blast
qed

end
