(* ===== verification/ThpoolWait.thy ===== *)
theory ThpoolWait
  imports ThpoolQuiet
begin

text \<open>
  \<open>thpool_wait\<close> with a single waiting thread. Two waiting threads, or a call of
  \<open>thpool_worker_try_once\<close> by another thread, can leave a waiter asleep for ever; a lone
  waiter cannot be: as long as it sleeps, something is queued or some worker has yet to pass
  its test of the running count, after which it signals.
\<close>

section \<open>Use with one waiting thread\<close>

text \<open>Only client 0 calls \<open>thpool_wait\<close> and \<open>thpool_worker_try_once\<close>.\<close>

fun lone_waiter :: "event \<Rightarrow> bool" where
  "lone_waiter (Call c f) \<longleftrightarrow> (f = Wait \<or> f = TryOnce \<longrightarrow> c = 0)"
| "lone_waiter (Step i v) \<longleftrightarrow> True"
| "lone_waiter (Spurious i) \<longleftrightarrow> True"

definition lone_next :: "event \<Rightarrow> system \<Rightarrow> system option" where
  "lone_next e s = (if lone_waiter e then thpool_next e s else None)"

text \<open>A worker that is on its way to the test of line 310.\<close>

fun will_check :: "pc \<Rightarrow> bool" where
  "will_check (InWorker p) \<longleftrightarrow> p \<notin> {W_Shutdown, W_Exit, W_Wait, W_Blocked}"
| "will_check _ \<longleftrightarrow> False"

fun waits_for_work :: "pc \<Rightarrow> bool" where
  "waits_for_work (InWait p) \<longleftrightarrow> (case p of E_Test qc ac \<Rightarrow> qc \<noteq> 0 \<or> ac \<noteq> 0 | E_Wait \<Rightarrow> True | _ \<Rightarrow> False)"
| "waits_for_work _ \<longleftrightarrow> False"

fun off_limits :: "tid \<Rightarrow> pc \<Rightarrow> bool" where
  "off_limits i (InTryOnce p) \<longleftrightarrow> i \<noteq> Client 0"
| "off_limits i (InWait p) \<longleftrightarrow> i \<noteq> Client 0"
| "off_limits i _ \<longleftrightarrow> False"

definition work_left :: "system \<Rightarrow> bool" where
  "work_left s \<longleftrightarrow> queue_count (queue (mem s)) \<noteq> 0 \<or> (\<exists>i. will_check (pcs s i))"

definition lone_inv :: "system \<Rightarrow> bool" where
  "lone_inv s \<longleftrightarrow> (\<forall>i. \<not> off_limits i (pcs s i)) \<and>
     (waits_for_work (pcs s (Client 0)) \<or> Client 0 \<in> notify_empty (mem s) \<longrightarrow> work_left s)"

lemma running_will_check: "running p \<Longrightarrow> \<not> off_limits i p \<Longrightarrow> i \<noteq> Client 0 \<Longrightarrow> will_check p"
  by (cases p) (auto split: wpc.splits)

lemma in_wait_not_running: "in_wait p \<Longrightarrow> \<not> running p \<and> \<not> will_check p"
  by (cases p) auto

lemma exec_off_limits: "exec i v p m = Some (m', p') \<Longrightarrow> \<not> off_limits i p \<Longrightarrow> \<not> off_limits i p'"
  by (cases p) (auto simp: resume_at_Some)

text \<open>How a step of a thread that neither waits nor runs tasks for a client ends its work.\<close>

lemma exec_takes:
  "exec i v p m = Some (m', p') \<Longrightarrow>
    taken m' = taken m \<or> (\<exists>t. p' = InWorker (W_Unlock t)) \<or> (\<exists>q. p = InTryOnce q)"
  by (erule exec_points; erule step_elims; auto simp: outcome_simps step_defs split: if_splits)

lemma exec_stops_checking:
  "exec i v p m = Some (m', p') \<Longrightarrow> will_check p \<and> \<not> will_check p' \<longrightarrow>
    p = InWorker W_Active \<and> running_count m \<noteq> 0 \<or>
    p = InWorker W_NotifyEmpty \<and> cond_signal v (notify_empty m) = Some (notify_empty m')"
  by (erule exec_points; erule step_elims; auto simp: outcome_simps step_defs split: if_splits)

lemma exec_sleeps:
  "exec i v p m = Some (m', p') \<Longrightarrow>
    notify_empty m' \<subseteq> notify_empty m \<or> p = InWait E_Wait \<and> notify_empty m' = insert i (notify_empty m)"
  by (erule exec_points; erule step_elims;
      auto simp: outcome_simps step_defs dest: cond_signal_subset [THEN subsetD] split: if_splits)

text \<open>The queue becomes empty by a worker that takes the last task.\<close>

lemma exec_empties:
  assumes inv: "thpool_inv s" and e: "exec i v (pcs s i) (mem s) = Some (m, p)"
    and off: "\<not> off_limits i (pcs s i)" and wait: "in_wait (pcs s (Client 0))"
    and q: "queue_count (queue (mem s)) \<noteq> 0" "queue_count (queue m) = 0"
  shows "will_check p"
proof -
  have ok: "ring_ok (queue (mem s))" and k: "knows (pcs s i) (mem s)"
    using inv by (simp_all add: thpool_inv_def queue_inv_def knows_inv_def)
  have "taken m \<noteq> taken (mem s)"
    using exec_queue[OF e, rule_format, OF k] q ring_put_items[OF ok]
    by (auto simp: ring_items_empty[symmetric])
  with exec_takes[OF e] off wait show ?thesis by auto
qed

lemma exec_starts_waiting:
  "exec i v p m = Some (m', p') \<Longrightarrow> waits_for_work p' \<and> \<not> waits_for_work p \<longrightarrow>
    m' = m \<and> (\<exists>qc. p = InWait (E_Active qc) \<and> p' = InWait (E_Test qc (running_count m)))"
  by (erule exec_points; erule step_elims; auto simp: outcome_simps step_defs split: if_splits)

lemma waits_for_work_holds: "waits_for_work p \<Longrightarrow> holds p \<and> in_wait p"
  by (cases p) (auto split: epc.splits)

lemma some_running:
  assumes "running_inv s" and "running_count (mem s) \<noteq> 0" and "\<And>i. \<not> off_limits i (pcs s i)"
    and "in_wait (pcs s (Client 0))"
  obtains k where "running (pcs s k)" "will_check (pcs s k)"
proof -
  have "card {i. running (pcs s i)} \<noteq> 0"
    using running_card[OF assms(1)] assms(2) unat_eq_zero[of "running_count (mem s)"] by simp
  then have "{i. running (pcs s i)} \<noteq> {}" by (metis card.empty)
  then obtain k where k: "running (pcs s k)" by blast
  with in_wait_not_running[OF assms(4)] have "k \<noteq> Client 0" by auto
  with k running_will_check assms(3) that show thesis by blast
qed

lemma lone_step:
  assumes inv: "thpool_inv s" and lone: "lone_inv s"
    and e: "exec i v (pcs s i) (mem s) = Some (m, p)"
  shows "lone_inv \<lparr>mem = m, pcs = (pcs s)(i := p)\<rparr>"
proof -
  let ?s = "\<lparr>mem = m, pcs = (pcs s)(i := p)\<rparr>" and ?c = "Client 0"
  have off: "\<not> off_limits j (pcs s j)" for j using lone by (simp add: lone_inv_def)
  note stops = exec_stops_checking[OF e]
  have ri: "running_inv s" using inv by (simp add: thpool_inv_def)
  have own: "holds (pcs s j) \<longleftrightarrow> lock (mem s) = Some j" for j
    using inv by (simp add: thpool_inv_def lock_inv_def)
  have only: "notify_empty (mem s) \<subseteq> {?c}"
  proof
    fix j assume "j \<in> notify_empty (mem s)"
    then have "pcs s j = InWait E_Blocked" using inv by (simp add: thpool_inv_def waiters_inv_def)
    with off[of j] show "j \<in> {?c}" by simp
  qed
  have "\<not> off_limits j (pcs ?s j)" for j using exec_off_limits[OF e off] off by simp
  moreover have "work_left ?s" if w': "waits_for_work (pcs ?s ?c) \<or> ?c \<in> notify_empty (mem ?s)"
  proof (cases "waits_for_work (pcs s ?c) \<or> ?c \<in> notify_empty (mem s)")
    case True
    moreover have "pcs s ?c = InWait E_Blocked" if "?c \<in> notify_empty (mem s)"
      using inv that by (simp add: thpool_inv_def waiters_inv_def)
    ultimately have wait: "in_wait (pcs s ?c)" using waits_for_work_holds by fastforce
    from True lone consider "queue_count (queue (mem s)) \<noteq> 0" | j where "will_check (pcs s j)"
      by (auto simp: lone_inv_def work_left_def)
    then show ?thesis
    proof cases
      case 1
      show ?thesis
      proof (cases "queue_count (queue m) = 0")
        case True
        with exec_empties[OF inv e off wait 1] have "will_check (pcs ?s i)" by simp
        then show ?thesis unfolding work_left_def by blast
      qed (simp add: work_left_def)
    next
      case (2 j)
      show ?thesis
      proof (cases "j = i \<and> \<not> will_check p")
        case False
        with 2 have "will_check (pcs ?s j)" by auto
        then show ?thesis unfolding work_left_def by blast
      next
        case True
        with 2 stops consider "pcs s i = InWorker W_Active" "running_count (mem s) \<noteq> 0"
          | "pcs s i = InWorker W_NotifyEmpty"
            "cond_signal v (notify_empty (mem s)) = Some (notify_empty m)" by blast
        then show ?thesis
        proof cases
          case 1
          obtain k where "running (pcs s k)" "will_check (pcs s k)"
            using some_running[OF ri 1(2) off wait] .
          with 1(1) have "will_check (pcs ?s k)" by (cases "k = i") auto
          then show ?thesis unfolding work_left_def by blast
        next
          case 2
          have "?c \<notin> notify_empty m" using 2(2) only by (auto elim: cond_signal_cases)
          with w' have "waits_for_work (pcs ?s ?c)" by simp
          moreover from this have "?c \<noteq> i" using e 2(1) by (auto split: if_splits simp: resume_at_Some)
          ultimately have "holds (pcs s ?c)" "?c \<noteq> i" by (auto dest: waits_for_work_holds)
          moreover have "holds (pcs s i)" using 2(1) by simp
          ultimately show ?thesis using own[of i] own[of ?c] by simp
        qed
      qed
    qed
  next
    case False
    have "?c \<notin> notify_empty m"
      using exec_sleeps[OF e] False by auto
    with w' False have i: "i = ?c" and p: "waits_for_work p" "\<not> waits_for_work (pcs s i)"
      by (auto split: if_splits)
    from exec_starts_waiting[OF e] p obtain qc where m: "m = mem s" and
      q: "pcs s i = InWait (E_Active qc)" "p = InWait (E_Test qc (running_count (mem s)))" by blast
    have "knows (pcs s i) (mem s)" using inv by (simp add: thpool_inv_def knows_inv_def)
    with q(1) have qc: "qc = queue_count (queue (mem s))" by simp
    show ?thesis
    proof (cases "qc = 0")
      case True
      with p(1) q(2) have "running_count (mem s) \<noteq> 0" by simp
      then obtain k where "running (pcs s k)" "will_check (pcs s k)" 
        using some_running[OF ri _ off] i q(1) by auto
      with q(1) have "will_check (pcs ?s k)" by (cases "k = i") auto
      then show ?thesis unfolding work_left_def by blast
    next
      case False
      with qc m show ?thesis by (simp add: work_left_def)
    qed
  qed
  ultimately show ?thesis by (simp add: lone_inv_def)
qed

lemma lone_inv_next:
  assumes inv: "thpool_inv s" and lone: "lone_inv s" and n: "lone_next e s = Some s'"
  shows "lone_inv s'"
proof (cases e)
  case (Step i v)
  with n lone_step[OF inv lone] show ?thesis by (auto simp: lone_next_def step_Some simp del: thpool_next.simps)
next
  case (Call c f)
  with n have f: "f = Wait \<or> f = TryOnce \<longrightarrow> c = 0" and n': "thpool_next (Call c f) s = Some s'"
    by (auto simp: lone_next_def split: if_splits)
  then obtain r where r: "pcs s (Client c) = Returned r"
    and s': "s' = s\<lparr>pcs := (pcs s)(Client c := entry f)\<rparr>" by (auto simp only: call_Some)
  have mem: "mem s' = mem s" by (simp add: s')
  have "will_check (pcs s j) \<Longrightarrow> will_check (pcs s' j)" for j using r by (auto simp: s')
  then have left: "work_left s \<Longrightarrow> work_left s'" unfolding work_left_def mem by blast
  have "\<not> off_limits (Client c) (entry f)" "\<not> waits_for_work (entry f)" using f by (cases f; simp)+
  with lone left show ?thesis by (auto simp: lone_inv_def mem) (auto simp: s' split: if_splits)
next
  case (Spurious i)
  with n have "pcs s' = pcs s" "queue (mem s') = queue (mem s)" "notify_empty (mem s') \<subseteq> notify_empty (mem s)"
    by (auto simp: lone_next_def split: if_splits)
  with lone show ?thesis by (auto simp: lone_inv_def work_left_def)
qed

interpretation lone_pool: safety thpool_init lone_next "\<lambda>s. thpool_inv s \<and> stop_inv s \<and> live_inv s \<and> lone_inv s"
proof
  fix s assume init: "thpool_init s"
  have "notify_empty (mem s) = {}" "\<not> off_limits i (pcs s i)" "\<not> waits_for_work (pcs s i)" for i
    using init by (auto simp: thpool_init_def new_system_def Let_def split: if_splits) (simp add: new_pool_def)
  then have "lone_inv s" by (simp add: lone_inv_def)
  with thpool_stop.inv_init[OF init] thpool_live.inv_init[OF init]
  show "thpool_inv s \<and> stop_inv s \<and> live_inv s \<and> lone_inv s" by blast
next
  fix s e s'
  assume s: "thpool_inv s \<and> stop_inv s \<and> live_inv s \<and> lone_inv s" and n: "lone_next e s = Some s'"
  then have "thpool_next e s = Some s'" by (simp add: lone_next_def split: if_splits)
  with s n show "thpool_inv s' \<and> stop_inv s' \<and> live_inv s' \<and> lone_inv s'"
    using thpool.inv_next stop_inv_next live_inv_next lone_inv_next by blast
qed

section \<open>A lone waiter is woken\<close>

lemma lone_waiter_rests:
  assumes inv: "thpool_inv s" "stop_inv s" "live_inv s" "lone_inv s"
    and rest: "at_rest s" and alive: "exited (mem s) = {}"
  shows "pcs s i \<noteq> InWait p"
proof
  assume w: "pcs s i = InWait p"
  note points = at_rest_points[OF inv(1,2) rest]
  have "\<not> off_limits i (pcs s i)" using inv(4) by (simp add: lone_inv_def)
  with w have i: "i = Client 0" by simp
  have "i \<in> notify_empty (mem s)" by (rule points[of i]) (use w in auto)
  then have "work_left s" using inv(4) i by (auto simp: lone_inv_def)
  moreover have "\<not> will_check (pcs s j)" for j by (rule points[of j]) auto
  ultimately have "queue_count (queue (mem s)) \<noteq> 0" by (auto simp: work_left_def)
  moreover have "j \<in> notify (mem s)" if "is_worker (mem s) j" for j
    using at_rest_worker(1)[OF inv(1,2) rest that] alive by simp
  moreover have "\<not> signalling (pcs s j)" for j by (rule points[of j]) auto
  ultimately show False using inv(3) alive unfolding live_inv_def by blast
qed

text \<open>
  A lone waiter always gets its answer: when only one thread calls \<open>thpool_wait\<close> and
  \<open>thpool_worker_try_once\<close>, the pool does not come to rest, with its workers alive, while that
  thread is inside \<open>thpool_wait\<close>. (With two waiting threads, or with another thread in
  \<open>thpool_worker_try_once\<close>, it can.)
\<close>

theorem thpool_lone_wait_returns:
  assumes "reach thpool_init lone_next s" and "at_rest s" and "exited (mem s) = {}"
  shows "pcs s i \<noteq> InWait p"
  using lone_waiter_rests[OF _ _ _ _ assms(2,3)] lone_pool.reach_inv[OF assms(1)] by blast

text \<open>
  The schedule of the second waiter, with one client: it falls asleep before the worker
  starts, is signalled, looks again and returns; then the pool is at rest.
\<close>

definition sched_lone :: "event list" where
  "sched_lone = Call 0 (Add example_task) # steps (Client 0) 5 @ Call 0 Wait # steps (Client 0) 5 @
     steps (Worker 0) 11 @ [Step (Worker 0) (Client 0)] @ steps (Worker 0) 2 @ steps (Client 0) 7"

definition state_lone :: system where
  "state_lone = \<lparr>mem = (new_pool [example_task] 1 1)\<lparr>notify := {Worker 0},
       submitted := [example_task], taken := [example_task], finished := [example_task]\<rparr>,
     pcs = (pcs (small_pool 1))(Client 0 := Returned RVoid, Worker 0 := InWorker W_Blocked)\<rparr>"

lemma run_lone: "run lone_next sched_lone (small_pool 1) = Some state_lone"
  by (simp add: sched_lone_def state_lone_def lone_next_def eval_pool fun_upd_twist)

theorem thpool_lone_wait_returns_witness:
  "run lone_next sched_lone (small_pool 1) = Some state_lone \<and> pcs state_lone (Client 0) \<noteq> InWait E_Blocked"
proof -
  have "at_rest state_lone"
    unfolding at_rest_def
  proof (intro allI)
    fix i v
    show "thpool_next (Step i v) state_lone = None"
      by (cases i) (simp_all add: state_lone_def eval_pool unat_eq_zero)
  qed
  moreover have "reach thpool_init lone_next state_lone"
    by (rule reach_run[OF run_lone]) (rule reach_init, rule small_pool_init, simp)
  moreover have "exited (mem state_lone) = {}" by (simp add: state_lone_def new_pool_def)
  ultimately show ?thesis using thpool_lone_wait_returns[of state_lone "Client 0" E_Blocked] run_lone by simp
qed

end
