(* ===== verification/CtestBuffer.thy ===== *)
theory CtestBuffer
  imports Prelude "HOL-Library.Char_ord"
begin

text \<open>
  The message buffer of the test runner \<open>src/ctest.h\<close>: a static array of \<open>MSG_SIZE\<close> bytes, the
  size left in it and the place of the next piece. \<open>vsnprintf\<close> is given by the text it would
  print; what it writes, and where, is modelled byte by byte.
\<close>

section \<open>Colours\<close>

abbreviation NUL :: char where
  "NUL \<equiv> CHR 0x00"

definition escape :: "string \<Rightarrow> string" where
  "escape code = CHR 0x1B # CHR ''['' # code @ ''m''"

definition ANSI_BLACK :: string where "ANSI_BLACK = escape ''0;30''"
definition ANSI_RED :: string where "ANSI_RED = escape ''0;31''"
definition ANSI_GREEN :: string where "ANSI_GREEN = escape ''0;32''"
definition ANSI_YELLOW :: string where "ANSI_YELLOW = escape ''0;33''"
definition ANSI_BLUE :: string where "ANSI_BLUE = escape ''0;34''"
definition ANSI_MAGENTA :: string where "ANSI_MAGENTA = escape ''0;35''"
definition ANSI_CYAN :: string where "ANSI_CYAN = escape ''0;36''"
definition ANSI_GREY :: string where "ANSI_GREY = escape ''0;37''"
definition ANSI_DARKGREY :: string where "ANSI_DARKGREY = escape ''01;30''"
definition ANSI_BRED :: string where "ANSI_BRED = escape ''01;31''"
definition ANSI_BGREEN :: string where "ANSI_BGREEN = escape ''01;32''"
definition ANSI_BYELLOW :: string where "ANSI_BYELLOW = escape ''01;33''"
definition ANSI_BBLUE :: string where "ANSI_BBLUE = escape ''01;34''"
definition ANSI_BMAGENTA :: string where "ANSI_BMAGENTA = escape ''01;35''"
definition ANSI_BCYAN :: string where "ANSI_BCYAN = escape ''01;36''"
definition ANSI_WHITE :: string where "ANSI_WHITE = escape ''01;37''"
definition ANSI_NORMAL :: string where "ANSI_NORMAL = escape ''0''"

lemma colour_lengths [simp]:
  "length ANSI_BLUE = 7" "length ANSI_YELLOW = 7" "length ANSI_NORMAL = 4"
  by (simp_all add: ANSI_BLUE_def ANSI_YELLOW_def ANSI_NORMAL_def escape_def)

lemma colour_no_nul [simp]:
  "NUL \<notin> set ANSI_BLUE" "NUL \<notin> set ANSI_YELLOW" "NUL \<notin> set ANSI_NORMAL"
  by (simp_all add: ANSI_BLUE_def ANSI_YELLOW_def ANSI_NORMAL_def escape_def)

section \<open>The buffer\<close>

text \<open>
  \<open>ctest_errorsize\<close>, and \<open>ctest_errormsg\<close> as an offset into \<open>ctest_errorbuffer\<close>; \<open>overrun\<close>
  records a write outside the array. Both numbers have 64 bits and wrap around.
\<close>

definition MSG_SIZE :: nat where
  "MSG_SIZE = 4096"

record errbuf =
  errorsize :: size_t
  errormsg :: size_t
  errorbuffer :: "char list"
  overrun :: bool

text \<open>Lines 625 to 627: the first byte is cleared and the two variables reset.\<close>

definition reset_buffer :: "errbuf \<Rightarrow> errbuf" where
  "reset_buffer b = b\<lparr>errorbuffer := (errorbuffer b)[0 := NUL], errorsize := of_nat (MSG_SIZE - 1), errormsg := 0\<rparr>"

definition store :: "nat \<Rightarrow> char list \<Rightarrow> errbuf \<Rightarrow> errbuf" where
  "store i cs b = (if i + length cs \<le> length (errorbuffer b)
     then b\<lparr>errorbuffer := take i (errorbuffer b) @ cs @ drop (i + length cs) (errorbuffer b)\<rparr>
     else b\<lparr>overrun := True\<rparr>)"

text \<open>
  \<open>vsnprintf\<close> writes as much of the text as fits into \<open>n - 1\<close> bytes, then a zero, and returns
  the length of the whole text; it writes nothing when \<open>n\<close> is zero. It fails when the text
  cannot be formatted (\<open>None\<close>) or is longer than an \<open>int\<close> can say.
\<close>

definition vsnprintf_result :: "string option \<Rightarrow> int" where
  "vsnprintf_result t = (case t of None \<Rightarrow> - 1 | Some s \<Rightarrow> if length s < 2 ^ 31 then int (length s) else - 1)"

definition vsnprintf_write :: "string option \<Rightarrow> errbuf \<Rightarrow> errbuf" where
  "vsnprintf_write t b = (if vsnprintf_result t < 0 \<or> errorsize b = 0 then b
     else store (unat (errormsg b)) (take (unat (errorsize b) - 1) (the t) @ [NUL]) b)"

definition vprint_errormsg :: "string option \<Rightarrow> errbuf \<Rightarrow> errbuf" where
  "vprint_errormsg t b0 =
     (let ret = vsnprintf_result t; b = vsnprintf_write t b0 in
      if ret < 0 then store (unat (errormsg b)) [NUL] b
      else
        let size = word_of_int ret;
          s = (if errorsize b \<le> size then size - errorsize b else size)
        in b\<lparr>errorsize := errorsize b - s, errormsg := errormsg b + s\<rparr>)"

definition print_errormsg :: "string \<Rightarrow> errbuf \<Rightarrow> errbuf" where
  "print_errormsg s b = vprint_errormsg (Some s) b"

definition msg_start :: "bool \<Rightarrow> string \<Rightarrow> string \<Rightarrow> errbuf \<Rightarrow> errbuf" where
  "msg_start color_output color title b =
     print_errormsg (''  '' @ title @ '': '') (if color_output then print_errormsg color b else b)"

definition msg_end :: "bool \<Rightarrow> errbuf \<Rightarrow> errbuf" where
  "msg_end color_output b = print_errormsg [CHR 0x0A] (if color_output then print_errormsg ANSI_NORMAL b else b)"

text \<open>\<open>CTEST_ERR\<close> then leaves the test with \<open>longjmp\<close>.\<close>

definition CTEST_LOG :: "bool \<Rightarrow> string option \<Rightarrow> errbuf \<Rightarrow> errbuf" where
  "CTEST_LOG color_output t b = msg_end color_output (vprint_errormsg t (msg_start color_output ANSI_BLUE ''LOG'' b))"

definition CTEST_ERR :: "bool \<Rightarrow> string option \<Rightarrow> errbuf \<Rightarrow> errbuf" where
  "CTEST_ERR color_output t b = msg_end color_output (vprint_errormsg t (msg_start color_output ANSI_YELLOW ''ERR'' b))"

text \<open>
  \<open>CTEST_DESCRIPTION_FORMAT\<close>: nothing for a null buffer; else at most \<open>n - 1\<close> characters and a
  zero, at the front of a buffer of the caller.
\<close>

definition CTEST_DESCRIPTION_FORMAT :: "char list option \<Rightarrow> nat \<Rightarrow> string \<Rightarrow> char list option" where
  "CTEST_DESCRIPTION_FORMAT buf n t = (case buf of None \<Rightarrow> None
     | Some cs \<Rightarrow> Some (if n = 0 \<or> 2 ^ 31 \<le> length t then cs
         else take (n - 1) t @ [NUL] @ drop (length (take (n - 1) t) + 1) cs))"

text \<open>What \<open>printf("%s")\<close> prints of an array: the bytes before the first zero.\<close>

definition cstring :: "char list \<Rightarrow> string" where
  "cstring cs = takeWhile (\<lambda>c. c \<noteq> NUL) cs"

section \<open>Within bounds\<close>

definition buffer_ok :: "errbuf \<Rightarrow> bool" where
  "buffer_ok b \<longleftrightarrow> \<not> overrun b \<and> length (errorbuffer b) = MSG_SIZE \<and>
     unat (errormsg b) + unat (errorsize b) = MSG_SIZE - 1"

definition array_ok :: "errbuf \<Rightarrow> bool" where
  "array_ok b \<longleftrightarrow> \<not> overrun b \<and> length (errorbuffer b) = MSG_SIZE"

lemma reset_buffer_ok: "array_ok b \<Longrightarrow> buffer_ok (reset_buffer b)"
  by (simp add: buffer_ok_def array_ok_def reset_buffer_def MSG_SIZE_def)

lemma store_sel [simp]:
  "errorsize (store i cs b) = errorsize b" "errormsg (store i cs b) = errormsg b"
  "length (errorbuffer (store i cs b)) = length (errorbuffer b)"
  by (auto simp: store_def)

lemma store_overrun: "overrun (store i cs b) \<longleftrightarrow> overrun b \<or> length (errorbuffer b) < i + length cs"
  by (auto simp: store_def)

text \<open>A piece of \<open>k\<close> characters, with \<open>n\<close> bytes left at offset \<open>i\<close>.\<close>

lemma size_word: "k < 2 ^ 31 \<Longrightarrow> unat (of_nat k :: size_t) = k"
  by (simp add: unat_of_nat take_bit_nat_eq_self)

lemma vprint_fits:
  assumes "length s < unat (errorsize b)" and "length s < 2 ^ 31"
  shows "vprint_errormsg (Some s) b =
    (store (unat (errormsg b)) (s @ [NUL]) b)\<lparr>errorsize := errorsize b - of_nat (length s),
      errormsg := errormsg b + of_nat (length s)\<rparr>"
proof -
  have "\<not> errorsize b \<le> of_nat (length s)"
    using assms size_word[OF assms(2)] by (simp add: word_le_nat_alt)
  moreover have "errorsize b \<noteq> 0" using assms(1) by (auto simp: unat_eq_zero)
  ultimately show ?thesis
    using assms by (simp add: vprint_errormsg_def vsnprintf_result_def vsnprintf_write_def Let_def)
qed

lemma vprint_cut:
  assumes "unat (errorsize b) \<le> length s" and "length s < 2 ^ 31" and "errorsize b \<noteq> 0"
  shows "vprint_errormsg (Some s) b =
    (store (unat (errormsg b)) (take (unat (errorsize b) - 1) s @ [NUL]) b)\<lparr>
      errorsize := errorsize b - (of_nat (length s) - errorsize b),
      errormsg := errormsg b + (of_nat (length s) - errorsize b)\<rparr>"
proof -
  have "errorsize b \<le> of_nat (length s)"
    using assms size_word[OF assms(2)] by (simp add: word_le_nat_alt)
  then show ?thesis
    using assms by (simp add: vprint_errormsg_def vsnprintf_result_def vsnprintf_write_def Let_def)
qed

lemma vprint_full:
  assumes "errorsize b = 0" and "length s < 2 ^ 31"
  shows "vprint_errormsg (Some s) b = b\<lparr>errorsize := - of_nat (length s), errormsg := errormsg b + of_nat (length s)\<rparr>"
  using assms by (simp add: vprint_errormsg_def vsnprintf_result_def vsnprintf_write_def Let_def)

text \<open>
  The buffer holds the text \<open>txt\<close> and has \<open>n\<close> bytes left. A piece that fits is appended. A piece
  of \<open>L\<close> characters that does not, up to twice as long as what is left, counts as if it had
  only \<open>L - n\<close> characters: that many of them count as written, the next piece overwrites the rest.
\<close>

definition holds_text :: "errbuf \<Rightarrow> string \<Rightarrow> nat \<Rightarrow> bool" where
  "holds_text b txt n \<longleftrightarrow> buffer_ok b \<and> take (unat (errormsg b)) (errorbuffer b) = txt \<and> unat (errorsize b) = n"

lemma holds_text_length: "holds_text b txt n \<Longrightarrow> unat (errormsg b) = length txt \<and> length txt + n = MSG_SIZE - 1"
  by (auto simp: holds_text_def buffer_ok_def MSG_SIZE_def)

lemma unat_plus_small: "unat x + k < 2 ^ 64 \<Longrightarrow> unat (x + of_nat k :: size_t) = unat x + k"
  by (simp add: unat_word_ariths unat_of_nat take_bit_nat_eq_self)

lemma unat_minus_small: "k \<le> unat x \<Longrightarrow> unat (x - of_nat k :: size_t) = unat x - k"
proof -
  assume k: "k \<le> unat x"
  have "unat x < 2 ^ 64" using unsigned_less[of x, where 'a = nat] by simp
  with k have "unat (of_nat k :: size_t) = k" by (simp add: unat_of_nat take_bit_nat_eq_self)
  with k show ?thesis by (simp add: unat_sub word_le_nat_alt)
qed

lemma store_take:
  "i + length cs \<le> length (errorbuffer b) \<Longrightarrow> k \<le> length cs \<Longrightarrow>
    take (i + k) (errorbuffer (store i cs b)) = take i (errorbuffer b) @ take k cs"
  by (simp add: store_def min_def)

lemma vprint_holds_fit:
  assumes "holds_text b txt n" and "length s < n"
  shows "holds_text (vprint_errormsg (Some s) b) (txt @ s) (n - length s)"
    and "errorbuffer (vprint_errormsg (Some s) b) ! length (txt @ s) = NUL"
proof -
  note len = holds_text_length[OF assms(1)]
  have b: "\<not> overrun b" "length (errorbuffer b) = MSG_SIZE" "unat (errorsize b) = n"
    "take (unat (errormsg b)) (errorbuffer b) = txt"
    using assms(1) by (auto simp: holds_text_def buffer_ok_def)
  have small: "length s < 2 ^ 31" using len assms(2) by (simp add: MSG_SIZE_def)
  have fit: "length s < unat (errorsize b)" using b(3) assms(2) by simp
  note v = vprint_fits[OF fit small]
  have room: "unat (errormsg b) + length (s @ [NUL]) \<le> length (errorbuffer b)"
    using len assms(2) b(2) by (simp add: MSG_SIZE_def)
  have off: "unat (errormsg b + of_nat (length s)) = unat (errormsg b) + length s"
    by (rule unat_plus_small) (use len small in \<open>simp add: MSG_SIZE_def\<close>)
  have size: "unat (errorsize b - of_nat (length s)) = n - length s"
    using unat_minus_small[of "length s" "errorsize b"] fit b(3) by simp
  show "holds_text (vprint_errormsg (Some s) b) (txt @ s) (n - length s)"
    unfolding holds_text_def buffer_ok_def v
    using store_take[OF room, of "length s"] b len assms(2) room off size
    by (simp add: store_overrun MSG_SIZE_def)
  show "errorbuffer (vprint_errormsg (Some s) b) ! length (txt @ s) = NUL"
    using room b(4) len unfolding v by (simp add: store_def nth_append)
qed

lemma vprint_holds_cut:
  assumes "holds_text b txt n" and "n \<le> length s" and "length s < 2 * n"
  shows "holds_text (vprint_errormsg (Some s) b) (txt @ take (length s - n) s) (2 * n - length s)"
proof -
  note len = holds_text_length[OF assms(1)]
  have b: "\<not> overrun b" "length (errorbuffer b) = MSG_SIZE" "unat (errorsize b) = n"
    "take (unat (errormsg b)) (errorbuffer b) = txt"
    using assms(1) by (auto simp: holds_text_def buffer_ok_def)
  have small: "length s < 2 ^ 31" using len assms(3) by (simp add: MSG_SIZE_def)
  have long: "unat (errorsize b) \<le> length s" "errorsize b \<noteq> 0" using b(3) assms(2,3) by auto
  note v = vprint_cut[OF long(1) small long(2)]
  let ?w = "take (unat (errorsize b) - 1) s @ [NUL]"
  have k: "(of_nat (length s) :: size_t) - errorsize b = of_nat (length s - n)"
  proof -
    have "errorsize b = of_nat n" using b(3) by (simp flip: b(3))
    with assms(2) show ?thesis by (simp add: of_nat_diff)
  qed
  have room: "unat (errormsg b) + length ?w \<le> length (errorbuffer b)"
    using len assms(2,3) b by (auto simp: MSG_SIZE_def)
  have off: "unat (errormsg b + of_nat (length s - n)) = unat (errormsg b) + (length s - n)"
  proof (rule unat_plus_small)
    have "length s - n < n" using assms(2,3) by linarith
    with len show "unat (errormsg b) + (length s - n) < 2 ^ 64" by (simp add: MSG_SIZE_def)
  qed
  have size: "unat (errorsize b - of_nat (length s - n)) = 2 * n - length s"
    using unat_minus_small[of "length s - n" "errorsize b"] assms(2,3) b(3) by simp
  have w: "length ?w = n" using b(3) assms(2,3) by simp
  have "length s - n \<le> n - 1" "min (length s) (n - 1) = n - 1" using assms(2,3) by linarith+
  then have "take (length s - n) ?w = take (length s - n) s" by (simp add: b(3) min_absorb1)
  with store_take[OF room, of "length s - n"] have "take (unat (errormsg b) + (length s - n))
      (errorbuffer (store (unat (errormsg b)) ?w b)) = txt @ take (length s - n) s"
    using w assms(2,3) b(4) by simp
  then show ?thesis
    unfolding holds_text_def buffer_ok_def v k off size
    using b len assms(2,3) room off size w by (simp add: store_overrun MSG_SIZE_def)
qed

lemma vprint_in_array:
  assumes "buffer_ok b" and "length s < 2 ^ 31"
  shows "\<not> overrun (vprint_errormsg (Some s) b)"
proof -
  have sum: "unat (errormsg b) + unat (errorsize b) = 4095" and "\<not> overrun b" "length (errorbuffer b) = 4096"
    using assms(1) by (auto simp: buffer_ok_def MSG_SIZE_def)
  consider "errorsize b = 0" | "length s < unat (errorsize b)"
    | "unat (errorsize b) \<le> length s" "errorsize b \<noteq> 0" by linarith
  then show ?thesis
  proof cases
    case 1
    with vprint_full[OF 1 assms(2)] \<open>\<not> overrun b\<close> show ?thesis by simp
  next
    case 2
    with vprint_fits[OF 2 assms(2)] sum \<open>\<not> overrun b\<close> \<open>length (errorbuffer b) = 4096\<close> show ?thesis
      by (simp add: store_overrun)
  next
    case 3
    then have n: "0 < unat (errorsize b)" by (simp add: unat_gt_0)
    then have "length (take (unat (errorsize b) - 1) s @ [NUL]) \<le> unat (errorsize b)"
      by auto
    with vprint_cut[OF 3(1) assms(2) 3(2)] sum n \<open>\<not> overrun b\<close> \<open>length (errorbuffer b) = 4096\<close> show ?thesis
      by (auto simp: store_overrun)
  qed
qed

text \<open>A piece more than twice as long as what is left: the next one goes outside the array.\<close>

lemma vprint_too_long:
  assumes "buffer_ok b" and "2 * unat (errorsize b) < length s" and "length s < 2 ^ 31"
  defines "b' \<equiv> vprint_errormsg (Some s) b"
  shows "length (errorbuffer b') = MSG_SIZE" and "MSG_SIZE \<le> unat (errormsg b')" and "errorsize b' \<noteq> 0"
proof -
  have sum: "unat (errormsg b) + unat (errorsize b) = 4095" and len: "length (errorbuffer b) = MSG_SIZE"
    using assms(1) by (auto simp: buffer_ok_def MSG_SIZE_def)
  define d where "d = length s - unat (errorsize b)"
  have n: "of_nat (unat (errorsize b)) = errorsize b" by simp
  have k: "(of_nat (length s) :: size_t) - errorsize b = of_nat d"
    using assms(2) by (simp add: d_def of_nat_diff)
  have d: "unat (errorsize b) < d" "d < 2 ^ 31" using assms(2,3) by (auto simp: d_def)
  have b': "errorsize b' = errorsize b - of_nat d \<and> errormsg b' = errormsg b + of_nat d \<and>
      length (errorbuffer b') = MSG_SIZE"
  proof (cases "errorsize b = 0")
    case True
    with vprint_full[OF True assms(3)] len k show ?thesis by (simp add: b'_def)
  next
    case False
    have "unat (errorsize b) \<le> length s" using assms(2) by simp
    from vprint_cut[OF this assms(3) False] len k show ?thesis by (simp add: b'_def)
  qed
  then show "length (errorbuffer b') = MSG_SIZE" by blast
  have "unat (errormsg b + of_nat d) = unat (errormsg b) + d"
    by (rule unat_plus_small) (use sum d(2) in simp)
  with b' sum d assms(2) show "MSG_SIZE \<le> unat (errormsg b')" by (simp add: d_def MSG_SIZE_def)
  have "unat (of_nat d :: size_t) = d" using d(2) by (simp add: size_word)
  with d(1) have "errorsize b \<noteq> of_nat d" by auto
  with b' show "errorsize b' \<noteq> 0" by simp
qed

lemma vprint_outside:
  assumes "length (errorbuffer b) = MSG_SIZE" and "MSG_SIZE \<le> unat (errormsg b)" and "errorsize b \<noteq> 0"
  shows "overrun (vprint_errormsg t b)"
  using assms by (auto simp: vprint_errormsg_def vsnprintf_write_def Let_def store_overrun)

lemma overrun_stays: "overrun b \<Longrightarrow> overrun (vprint_errormsg t b)"
  by (auto simp: vprint_errormsg_def vsnprintf_write_def Let_def store_overrun)

lemma vprint_ok:
  assumes b: "buffer_ok b" and fits: "length s \<le> 2 * unat (errorsize b)"
  shows "buffer_ok (vprint_errormsg (Some s) b)"
    and "unat (errorsize (vprint_errormsg (Some s) b)) =
      (if length s < unat (errorsize b) then unat (errorsize b) else 2 * unat (errorsize b)) - length s"
proof -
  let ?n = "unat (errorsize b)"
  have sum: "unat (errormsg b) + ?n = 4095" "length (errorbuffer b) = 4096" and "\<not> overrun b"
    using b by (auto simp: buffer_ok_def MSG_SIZE_def)
  have small: "length s < 2 ^ 31" using fits sum by simp
  define k where "k = (if length s < ?n then length s else length s - ?n)"
  have k: "k \<le> ?n" using fits by (auto simp: k_def)
  have sel: "errorsize (vprint_errormsg (Some s) b) = errorsize b - of_nat k \<and>
      errormsg (vprint_errormsg (Some s) b) = errormsg b + of_nat k \<and>
      length (errorbuffer (vprint_errormsg (Some s) b)) = 4096"
  proof (cases "length s < ?n")
    case True
    with vprint_fits[OF True small] sum show ?thesis by (simp add: k_def)
  next
    case False
    have "(of_nat (length s) :: size_t) - errorsize b = of_nat k"
      using False by (simp add: k_def of_nat_diff)
    moreover have "?n \<le> length s" using False by simp
    ultimately show ?thesis
      using vprint_cut[OF _ small, of b] vprint_full[OF _ small, of b] sum fits
      by (cases "errorsize b = 0") auto
  qed
  have "unat (errormsg b + of_nat k) = unat (errormsg b) + k"
    by (rule unat_plus_small) (use sum k in simp)
  moreover have size: "unat (errorsize b - of_nat k) = ?n - k" by (rule unat_minus_small[OF k])
  ultimately show "buffer_ok (vprint_errormsg (Some s) b)"
    using sel sum k vprint_in_array[OF b small] by (simp add: buffer_ok_def MSG_SIZE_def)
  show "unat (errorsize (vprint_errormsg (Some s) b)) = (if length s < ?n then ?n else 2 * ?n) - length s"
    using sel size fits by (auto simp: k_def)
qed

section \<open>Whole messages\<close>

lemma msg_start_holds:
  assumes "array_ok b" and "color = ANSI_YELLOW \<or> color = ANSI_BLUE" and "length title = 3"
  shows "holds_text (msg_start c color title (reset_buffer b))
    ((if c then color else []) @ ''  '' @ title @ '': '') (if c then 4081 else 4088)"
proof -
  have start: "holds_text (reset_buffer b) [] 4095"
    using reset_buffer_ok[OF assms(1)] by (auto simp: holds_text_def reset_buffer_def MSG_SIZE_def)
  have seven: "length color = 7" using assms(2) by auto
  show ?thesis
  proof (cases c)
    case True
    have "holds_text (print_errormsg color (reset_buffer b)) color 4088"
      using vprint_holds_fit(1)[OF start, of color] seven by (simp add: print_errormsg_def)
    from vprint_holds_fit(1)[OF this, of "''  '' @ title @ '': ''"] True assms(3) show ?thesis
      by (simp add: msg_start_def print_errormsg_def)
  next
    case False
    with vprint_holds_fit(1)[OF start, of "''  '' @ title @ '': ''"] assms(3) show ?thesis
      by (simp add: msg_start_def print_errormsg_def)
  qed
qed

lemma msg_end_holds:
  assumes "holds_text b txt n" and "(if c then 5 else 1) < n"
  defines "full \<equiv> txt @ (if c then ANSI_NORMAL else []) @ [CHR 0x0A]"
  shows "holds_text (msg_end c b) full (n - (if c then 5 else 1))"
    and "errorbuffer (msg_end c b) ! length full = NUL"
proof -
  define b' where "b' = (if c then print_errormsg ANSI_NORMAL b else b)"
  have b': "holds_text b' (txt @ (if c then ANSI_NORMAL else [])) (n - (if c then 4 else 0))"
    using vprint_holds_fit(1)[OF assms(1), of ANSI_NORMAL] assms(1,2)
    by (cases c) (simp_all add: b'_def print_errormsg_def)
  have "length [CHR 0x0A] < n - (if c then 4 else 0)" using assms(2) by (auto split: if_splits)
  note end_piece = vprint_holds_fit[OF b' this]
  have "msg_end c b = vprint_errormsg (Some [CHR 0x0A]) b'"
    by (simp add: msg_end_def b'_def print_errormsg_def)
  with end_piece show "holds_text (msg_end c b) full (n - (if c then 5 else 1))"
    and "errorbuffer (msg_end c b) ! length full = NUL"
    by (auto simp: full_def split: if_splits)
qed

lemma cstring_of_held:
  assumes "holds_text b txt n" and "errorbuffer b ! length txt = NUL" and "NUL \<notin> set txt"
  shows "cstring (errorbuffer b) = txt"
proof -
  have "length txt < length (errorbuffer b)" and t: "take (length txt) (errorbuffer b) = txt"
    using assms(1) holds_text_length[OF assms(1)] by (auto simp: holds_text_def buffer_ok_def MSG_SIZE_def)
  then have "errorbuffer b = txt @ NUL # drop (Suc (length txt)) (errorbuffer b)"
    using assms(2) id_take_nth_drop[of "length txt" "errorbuffer b"] by simp
  moreover have "takeWhile (\<lambda>c. c \<noteq> NUL) (txt @ NUL # r) = txt" for r
    using assms(3) by (subst takeWhile_append2) auto
  ultimately show ?thesis by (metis cstring_def)
qed

text \<open>What \<open>CTEST_ERR\<close> is meant to leave in the buffer.\<close>

definition err_text :: "bool \<Rightarrow> string \<Rightarrow> string" where
  "err_text c m = (if c then ANSI_YELLOW else []) @ ''  ERR: '' @ m @
     (if c then ANSI_NORMAL else []) @ [CHR 0x0A]"

lemma err_text_no_nul: "NUL \<notin> set m \<Longrightarrow> NUL \<notin> set (err_text c m)"
  by (simp add: err_text_def)

lemma ctest_err_holds:
  assumes "array_ok b" and "length (err_text c m) < MSG_SIZE - 1"
  shows "holds_text (CTEST_ERR c (Some m) (reset_buffer b)) (err_text c m) (MSG_SIZE - 1 - length (err_text c m))"
    and "errorbuffer (CTEST_ERR c (Some m) (reset_buffer b)) ! length (err_text c m) = NUL"
proof -
  let ?n = "if c then 4081 else 4088 :: nat"
  have start: "holds_text (msg_start c ANSI_YELLOW ''ERR'' (reset_buffer b))
      ((if c then ANSI_YELLOW else []) @ ''  '' @ ''ERR'' @ '': '') ?n"
    by (rule msg_start_holds[OF assms(1)]) simp_all
  have short: "length m + (if c then 5 else 1) < ?n" using assms(2) by (simp add: err_text_def MSG_SIZE_def split: if_splits)
  then have "length m < ?n" by simp
  note message = vprint_holds_fit(1)[OF start this]
  have "(if c then 5 else 1) < ?n - length m" using short by simp
  note full = msg_end_holds[OF message this]
  have joined: "(((if c then ANSI_YELLOW else []) @ ''  '' @ ''ERR'' @ '': '') @ m) @
      (if c then ANSI_NORMAL else []) @ [CHR 0x0A] = err_text c m"
    by (simp add: err_text_def)
  have err: "msg_end c (vprint_errormsg (Some m) (msg_start c ANSI_YELLOW ''ERR'' (reset_buffer b))) =
      CTEST_ERR c (Some m) (reset_buffer b)" by (simp add: CTEST_ERR_def)
  have "?n - length m - (if c then 5 else 1) = MSG_SIZE - 1 - length (err_text c m)"
    by (simp add: err_text_def MSG_SIZE_def)
  with full show "holds_text (CTEST_ERR c (Some m) (reset_buffer b)) (err_text c m) (MSG_SIZE - 1 - length (err_text c m))"
    and "errorbuffer (CTEST_ERR c (Some m) (reset_buffer b)) ! length (err_text c m) = NUL"
    unfolding joined err by simp_all
qed

text \<open>
  Round trip of a message: what the runner prints of the buffer after \<open>CTEST_ERR\<close> is the
  colour, the title, exactly the message and the reset of the colour, whenever all of it is
  shorter than \<open>MSG_SIZE - 1\<close>; and the buffer is written within its bounds.
\<close>

theorem ctest_err_readback:
  assumes "array_ok b" and "NUL \<notin> set m" and "length (err_text c m) < MSG_SIZE - 1"
  shows "cstring (errorbuffer (CTEST_ERR c (Some m) (reset_buffer b))) = err_text c m \<and>
    buffer_ok (CTEST_ERR c (Some m) (reset_buffer b))"
  using cstring_of_held[OF ctest_err_holds[OF assms(1,3)] err_text_no_nul[OF assms(2)]]
    ctest_err_holds(1)[OF assms(1,3)] by (simp add: holds_text_def)

definition fresh_buffer :: errbuf where
  "fresh_buffer = \<lparr>errorsize = 0, errormsg = 0, errorbuffer = replicate MSG_SIZE NUL, overrun = False\<rparr>"

lemma fresh_array: "array_ok fresh_buffer"
  by (simp add: array_ok_def fresh_buffer_def)

theorem ctest_err_readback_witness:
  "cstring (errorbuffer (CTEST_ERR True (Some ''t.c:7  should be true'') (reset_buffer fresh_buffer))) =
    err_text True ''t.c:7  should be true''"
  using ctest_err_readback[OF fresh_array, of "''t.c:7  should be true''" True]
  by (simp add: err_text_def MSG_SIZE_def del: One_nat_def)

text \<open>
  A message that does not fit loses its end twice: of a message of \<open>L\<close> characters, with
  \<open>n\<close> bytes left for it, the runner shows only the first \<open>L - n\<close>, because the reset of the
  colour is written there; a message of exactly \<open>n\<close> characters disappears altogether.
\<close>

theorem ctest_long_message_cut:
  assumes "array_ok b" and "NUL \<notin> set m"
    and "4081 \<le> length m" and "length m + 5 < 2 * 4081"
  shows "cstring (errorbuffer (CTEST_ERR True (Some m) (reset_buffer b))) = err_text True (take (length m - 4081) m)"
proof -
  have start: "holds_text (msg_start True ANSI_YELLOW ''ERR'' (reset_buffer b))
      ((if True then ANSI_YELLOW else []) @ ''  '' @ ''ERR'' @ '': '') (if True then 4081 else 4088)"
    by (rule msg_start_holds[OF assms(1)]) simp_all
  have start': "holds_text (msg_start True ANSI_YELLOW ''ERR'' (reset_buffer b))
      (ANSI_YELLOW @ ''  '' @ ''ERR'' @ '': '') 4081" using start by (simp only: if_True)
  have "length m < 2 * 4081" using assms(4) by simp
  note piece = vprint_holds_cut[OF start' assms(3) this]
  have "(if True then 5 else 1) < 2 * 4081 - length m" using assms(4) by simp
  note full = msg_end_holds[OF piece this]
  have joined: "((ANSI_YELLOW @ ''  '' @ ''ERR'' @ '': '') @ take (length m - 4081) m) @
      (if True then ANSI_NORMAL else []) @ [CHR 0x0A] = err_text True (take (length m - 4081) m)"
    by (simp add: err_text_def)
  have "NUL \<notin> set (take (length m - 4081) m)" using assms(2) by (meson in_set_takeD)
  from cstring_of_held[OF full(1,2)] err_text_no_nul[OF this, of True] show ?thesis
    unfolding joined by (simp add: CTEST_ERR_def)
qed

theorem ctest_long_message_cut_witness:
  "cstring (errorbuffer (CTEST_ERR True (Some (replicate 4081 CHR ''x'')) (reset_buffer fresh_buffer))) =
    err_text True []"
  using ctest_long_message_cut[OF fresh_array, of "replicate 4081 CHR ''x''"] by simp

section \<open>Overruns\<close>

text \<open>
  The message buffer is written within its bounds as long as each piece has at most twice
  as many characters as the buffer has left; a longer piece wraps the remaining size around,
  and whatever is printed next is written outside the buffer.
\<close>

theorem ctest_buffer_bounds:
  assumes "buffer_ok b" and "length s < 2 ^ 31"
  shows "(length s \<le> 2 * unat (errorsize b) \<longrightarrow> buffer_ok (vprint_errormsg (Some s) b)) \<and>
    (2 * unat (errorsize b) < length s \<longrightarrow> overrun (vprint_errormsg t (vprint_errormsg (Some s) b)))"
  using vprint_ok(1)[OF assms(1)] vprint_outside[OF vprint_too_long[OF assms(1) _ assms(2)]] by blast

theorem ctest_buffer_bounds_witness:
  "overrun (vprint_errormsg (Some []) (vprint_errormsg (Some (replicate 8191 CHR ''x'')) (reset_buffer fresh_buffer))) \<and>
    buffer_ok (vprint_errormsg (Some (replicate 8190 CHR ''x'')) (reset_buffer fresh_buffer))"
proof -
  note ok = reset_buffer_ok[OF fresh_array]
  have "unat (errorsize (reset_buffer fresh_buffer)) = 4095" by (simp add: reset_buffer_def MSG_SIZE_def)
  with ctest_buffer_bounds[OF ok, of "replicate 8191 CHR ''x''" "Some []"]
    ctest_buffer_bounds[OF ok, of "replicate 8190 CHR ''x''" None]
  show ?thesis by simp
qed

lemma msg_end_overrun:
  assumes "buffer_ok b"
  shows "overrun (msg_end c b) \<longleftrightarrow> c \<and> unat (errorsize b) < 2"
proof (cases c)
  case False
  with vprint_in_array[OF assms, of "[CHR 0x0A]"] show ?thesis by (simp add: msg_end_def print_errormsg_def)
next
  case True
  let ?b = "vprint_errormsg (Some ANSI_NORMAL) b"
  have e: "msg_end c b = vprint_errormsg (Some [CHR 0x0A]) ?b"
    using True by (simp add: msg_end_def print_errormsg_def)
  show ?thesis
  proof (cases "unat (errorsize b) < 2")
    case less: True
    then have "2 * unat (errorsize b) < length ANSI_NORMAL" by simp
    then have "overrun (msg_end c b)" unfolding e by (intro vprint_outside vprint_too_long[OF assms]) simp_all
    with less True show ?thesis by simp
  next
    case False
    then have "buffer_ok ?b" by (intro vprint_ok(1)[OF assms]) simp
    from vprint_in_array[OF this, of "[CHR 0x0A]"] False show ?thesis by (simp add: e)
  qed
qed

text \<open>A message \<open>vsnprintf\<close> cannot format is replaced by nothing.\<close>

lemma vprint_fails:
  assumes "buffer_ok b" and "2 ^ 31 \<le> length s"
  shows "buffer_ok (vprint_errormsg (Some s) b) \<and> errorsize (vprint_errormsg (Some s) b) = errorsize b"
proof -
  have "vprint_errormsg (Some s) b = store (unat (errormsg b)) [NUL] b"
    using assms(2) by (simp add: vprint_errormsg_def vsnprintf_result_def vsnprintf_write_def Let_def)
  with assms(1) show ?thesis by (simp add: buffer_ok_def store_overrun MSG_SIZE_def)
qed

text \<open>
  C34: When it is the first to print after the runner has reset the buffer, \<open>CTEST_ERR\<close> with
  colours writes outside the buffer for exactly the messages of 4080 characters and those of 8161
  and more; without colours for those of 8177 and more. (A message of \<open>2 ^ 31\<close> characters or more,
  whose length is no \<open>int\<close>, makes \<open>vsnprintf\<close> fail and is left out, without an overrun.) So one
  failing assertion on long enough strings corrupts what lies behind the buffer.
\<close>

theorem ctest_err_overrun_iff:
  assumes "array_ok b"
  shows "overrun (CTEST_ERR c (Some m) (reset_buffer b)) \<longleftrightarrow>
    (if c then length m = 4080 \<or> 8161 \<le> length m \<and> length m < 2 ^ 31
     else 8177 \<le> length m \<and> length m < 2 ^ 31)"
proof -
  let ?n = "if c then 4081 else 4088 :: nat" and ?s = "msg_start c ANSI_YELLOW ''ERR'' (reset_buffer b)"
  have start: "holds_text ?s ((if c then ANSI_YELLOW else []) @ ''  '' @ ''ERR'' @ '': '') ?n"
    by (rule msg_start_holds[OF assms(1)]) simp_all
  then have ok: "buffer_ok ?s" and n: "unat (errorsize ?s) = ?n" by (simp_all add: holds_text_def)
  let ?b = "vprint_errormsg (Some m) ?s"
  have e: "CTEST_ERR c (Some m) (reset_buffer b) = msg_end c ?b" by (simp add: CTEST_ERR_def)
  consider "length m \<le> 2 * ?n" | "2 * ?n < length m" "length m < 2 ^ 31" | "2 ^ 31 \<le> length m" by linarith
  then show ?thesis
  proof cases
    case 1
    then have fits: "length m \<le> 2 * unat (errorsize ?s)" by (simp only: n)
    note v = vprint_ok[OF ok fits]
    have "unat (errorsize ?b) = (if length m < ?n then ?n else 2 * ?n) - length m"
      using v(2) by (simp only: n)
    with msg_end_overrun[OF v(1), of c] 1 show ?thesis by (auto simp: e split: if_splits)
  next
    case 2
    then have long: "2 * unat (errorsize ?s) < length m" by (simp only: n)
    note v = vprint_too_long[OF ok long 2(2)]
    have "overrun (msg_end c ?b)"
    proof (cases c)
      case True
      let ?r = "vprint_errormsg (Some ANSI_NORMAL) ?b"
      have "overrun ?r" by (rule vprint_outside[OF v])
      then have "overrun (vprint_errormsg (Some [CHR 0x0A]) ?r)" by (rule overrun_stays)
      with True show ?thesis by (simp add: msg_end_def print_errormsg_def)
    next
      case False
      with vprint_outside[OF v, of "Some [CHR 0x0A]"] show ?thesis
        by (simp add: msg_end_def print_errormsg_def)
    qed
    with 2 show ?thesis by (auto simp: e split: if_splits)
  next
    case 3
    from vprint_fails[OF ok this] have "buffer_ok ?b" "unat (errorsize ?b) = ?n" by (simp_all only: n)
    with msg_end_overrun[of ?b c] have "\<not> overrun (CTEST_ERR c (Some m) (reset_buffer b))" by (auto simp: e)
    with 3 show ?thesis by auto
  qed
qed

theorem ctest_err_overrun_iff_witness:
  "overrun (CTEST_ERR True (Some (replicate 4080 CHR ''x'')) (reset_buffer fresh_buffer)) \<and>
    \<not> overrun (CTEST_ERR True (Some (replicate 4081 CHR ''x'')) (reset_buffer fresh_buffer))"
  using ctest_err_overrun_iff[OF fresh_array, where m = "replicate 4080 CHR ''x''" and c = True]
    ctest_err_overrun_iff[OF fresh_array, where m = "replicate 4081 CHR ''x''" and c = True] by simp

end
