(* ===== verification/CtestAssert.thy ===== *)
theory CtestAssert
  imports CtestBuffer
begin

text \<open>
  The assertions of \<open>src/ctest.h\<close>. An assertion that passes returns; one that fails calls
  \<open>CTEST_ERR\<close> with a formatted message and does not return. Each is a function from its
  arguments to the message, \<open>None\<close> when it passes.
\<close>

section \<open>Formatting\<close>

definition digit :: "nat \<Rightarrow> char" where
  "digit n = (if n < 10 then char_of (48 + n) else char_of (87 + n))"

text \<open>Decimal (\<open>%d\<close>, \<open>PRIdMAX\<close>, \<open>PRIuMAX\<close>) and \<open>%02x\<close>.\<close>

fun show_nat :: "nat \<Rightarrow> string" where
  "show_nat n = (if n < 10 then [digit n] else show_nat (n div 10) @ [digit (n mod 10)])"

declare show_nat.simps [simp del]

definition show_int :: "int \<Rightarrow> string" where
  "show_int i = (if i < 0 then CHR ''-'' # show_nat (nat (- i)) else show_nat (nat i))"

definition show_hex2 :: "8 word \<Rightarrow> string" where
  "show_hex2 b = [digit (unat b div 16), digit (unat b mod 16)]"

text \<open>\<open>%s\<close> of a null pointer, which the C standard leaves undefined, prints \<open>(null)\<close> in the GNU library.\<close>

definition show_str :: "string option \<Rightarrow> string" where
  "show_str s = (case s of None \<Rightarrow> ''(null)'' | Some t \<Rightarrow> t)"

text \<open>All messages start with the place; a description is added after a separator.\<close>

definition at_line :: "string \<Rightarrow> int \<Rightarrow> string \<Rightarrow> string" where
  "at_line caller line msg = caller @ '':'' @ show_int line @ ''  '' @ msg"

definition describe :: "string \<Rightarrow> string option \<Rightarrow> string \<Rightarrow> string" where
  "describe sep descr msg = (case descr of None \<Rightarrow> msg | Some d \<Rightarrow> msg @ sep @ d)"

type_synonym check = "string option"

definition assert_fails :: "string \<Rightarrow> int \<Rightarrow> string option \<Rightarrow> string \<Rightarrow> check" where
  "assert_fails caller line descr msg = Some (at_line caller line (describe '': '' descr msg))"

section \<open>The assertions\<close>

definition assert_str :: "string option \<Rightarrow> string option \<Rightarrow> string \<Rightarrow> int \<Rightarrow> string option \<Rightarrow> check" where
  "assert_str expected real caller line descr =
     (if expected = None \<and> real \<noteq> None \<or> expected \<noteq> None \<and> real = None \<or>
        expected \<noteq> None \<and> real \<noteq> None \<and> the expected \<noteq> the real
      then assert_fails caller line descr
        (''expected '' @ [CHR 0x27] @ show_str expected @ [CHR 0x27] @ '', got '' @ [CHR 0x27] @ show_str real @ [CHR 0x27])
      else None)"

text \<open>Wide strings, with what \<open>%ls\<close> prints of them given by \<open>show_wide\<close>.\<close>

definition assert_wstr :: "('w list option \<Rightarrow> string) \<Rightarrow> 'w list option \<Rightarrow> 'w list option \<Rightarrow> string \<Rightarrow> int \<Rightarrow>
    string option \<Rightarrow> check" where
  "assert_wstr show_wide expected real caller line descr =
     (if expected = None \<and> real \<noteq> None \<or> expected \<noteq> None \<and> real = None \<or>
        expected \<noteq> None \<and> real \<noteq> None \<and> the expected \<noteq> the real
      then assert_fails caller line descr
        (''expected '' @ [CHR 0x27] @ show_wide expected @ [CHR 0x27] @ '', got '' @ [CHR 0x27] @ show_wide real @ [CHR 0x27])
      else None)"

text \<open>
  The loop of line 399, with \<open>i\<close> the offset reached and \<open>k\<close> bytes to go. The arrays are as
  long as their sizes say. The message of the loop has no description, and one blank less.
\<close>

definition data_message :: "8 word list \<Rightarrow> 8 word list \<Rightarrow> string \<Rightarrow> int \<Rightarrow> nat \<Rightarrow> string" where
  "data_message expected real caller line i = caller @ '':'' @ show_int line @ '' expected 0x'' @
     show_hex2 (expected ! i) @ '' at offset '' @ show_nat i @ '' got 0x'' @ show_hex2 (real ! i)"

fun data_loop :: "8 word list \<Rightarrow> 8 word list \<Rightarrow> string \<Rightarrow> int \<Rightarrow> nat \<Rightarrow> nat \<Rightarrow> check" where
  "data_loop expected real caller line i 0 = None"
| "data_loop expected real caller line i (Suc k) =
     (if expected ! i \<noteq> real ! i
      then Some (data_message expected real caller line i)
      else data_loop expected real caller line (i + 1) k)"

definition assert_data :: "8 word list \<Rightarrow> 8 word list \<Rightarrow> string \<Rightarrow> int \<Rightarrow> string option \<Rightarrow> check" where
  "assert_data expected real caller line descr =
     (if length expected \<noteq> length real
      then assert_fails caller line descr (''expected '' @ show_nat (length expected) @ '' bytes, got '' @ show_nat (length real))
      else data_loop expected real caller line 0 (length expected))"

text \<open>\<open>intmax_t\<close> and \<open>uintmax_t\<close> have 64 bits.\<close>

definition assert_equal :: "64 word \<Rightarrow> 64 word \<Rightarrow> string \<Rightarrow> int \<Rightarrow> string option \<Rightarrow> check" where
  "assert_equal expected real caller line descr =
     (if expected \<noteq> real
      then assert_fails caller line descr (''expected '' @ show_int (sint expected) @ '', got '' @ show_int (sint real))
      else None)"

definition assert_equal_u :: "64 word \<Rightarrow> 64 word \<Rightarrow> string \<Rightarrow> int \<Rightarrow> string option \<Rightarrow> check" where
  "assert_equal_u expected real caller line descr =
     (if expected \<noteq> real
      then assert_fails caller line descr (''expected '' @ show_int (uint expected) @ '', got '' @ show_int (uint real))
      else None)"

definition assert_not_equal :: "64 word \<Rightarrow> 64 word \<Rightarrow> string \<Rightarrow> int \<Rightarrow> string option \<Rightarrow> check" where
  "assert_not_equal expected real caller line descr =
     (if expected = real then assert_fails caller line descr (''should not be '' @ show_int (sint real)) else None)"

definition assert_not_equal_u :: "64 word \<Rightarrow> 64 word \<Rightarrow> string \<Rightarrow> int \<Rightarrow> string option \<Rightarrow> check" where
  "assert_not_equal_u expected real caller line descr =
     (if expected = real then assert_fails caller line descr (''should not be '' @ show_int (uint real)) else None)"

definition assert_interval :: "64 word \<Rightarrow> 64 word \<Rightarrow> 64 word \<Rightarrow> string \<Rightarrow> int \<Rightarrow> string option \<Rightarrow> check" where
  "assert_interval exp1 exp2 real caller line descr =
     (if real <s exp1 \<or> exp2 <s real
      then assert_fails caller line descr (''expected '' @ show_int (sint exp1) @ ''-'' @ show_int (sint exp2) @
        '', got '' @ show_int (sint real))
      else None)"

definition assert_null :: "addr \<Rightarrow> string \<Rightarrow> int \<Rightarrow> string option \<Rightarrow> check" where
  "assert_null real caller line descr =
     (if real \<noteq> 0 then assert_fails caller line descr ''should be NULL'' else None)"

definition assert_not_null :: "addr \<Rightarrow> string \<Rightarrow> int \<Rightarrow> string option \<Rightarrow> check" where
  "assert_not_null real caller line descr =
     (if real = 0 then assert_fails caller line descr ''should not be NULL'' else None)"

definition assert_true :: "32 word \<Rightarrow> string \<Rightarrow> int \<Rightarrow> string option \<Rightarrow> check" where
  "assert_true real caller line descr =
     (if real = 0 then assert_fails caller line descr ''should be true'' else None)"

definition assert_false :: "32 word \<Rightarrow> string \<Rightarrow> int \<Rightarrow> string option \<Rightarrow> check" where
  "assert_false real caller line descr =
     (if real \<noteq> 0 then assert_fails caller line descr ''should be false'' else None)"

definition assert_fail :: "string \<Rightarrow> int \<Rightarrow> string option \<Rightarrow> check" where
  "assert_fail caller line descr =
     Some (at_line caller line (describe '', '' descr (''shouldn'' @ [CHR 0x27] @ ''t come here'')))"

text \<open>Floating-point numbers, with the operations of the machine as a parameter.\<close>

record 'f double_ops =
  dbl_minus :: "'f \<Rightarrow> 'f \<Rightarrow> 'f"
  dbl_times :: "'f \<Rightarrow> 'f \<Rightarrow> 'f"
  dbl_less :: "'f \<Rightarrow> 'f \<Rightarrow> bool"
  dbl_le :: "'f \<Rightarrow> 'f \<Rightarrow> bool"
  dbl_zero :: 'f
  dbl_minus_one :: 'f
  dbl_tol :: 'f
  dbl_show :: "'f \<Rightarrow> string"

definition absdiff :: "'f double_ops \<Rightarrow> 'f \<Rightarrow> 'f" where
  "absdiff F diff = (if dbl_less F diff (dbl_zero F) then dbl_times F diff (dbl_minus_one F) else diff)"

definition dbl_message :: "'f double_ops \<Rightarrow> 'f \<Rightarrow> 'f \<Rightarrow> 'f \<Rightarrow> 'f \<Rightarrow> string" where
  "dbl_message F expected real diff tol = ''expected '' @ dbl_show F expected @ '', got '' @ dbl_show F real @
     '' (diff '' @ dbl_show F diff @ '', tol '' @ dbl_show F tol @ '')''"

definition assert_dbl_near :: "'f double_ops \<Rightarrow> 'f \<Rightarrow> 'f \<Rightarrow> 'f \<Rightarrow> string \<Rightarrow> int \<Rightarrow> string option \<Rightarrow> check" where
  "assert_dbl_near F expected real tol caller line descr =
     (let diff = dbl_minus F expected real in
      if dbl_less F tol (absdiff F diff) then assert_fails caller line descr (dbl_message F expected real diff tol) else None)"

definition assert_dbl_far :: "'f double_ops \<Rightarrow> 'f \<Rightarrow> 'f \<Rightarrow> 'f \<Rightarrow> string \<Rightarrow> int \<Rightarrow> string option \<Rightarrow> check" where
  "assert_dbl_far F expected real tol caller line descr =
     (let diff = dbl_minus F expected real in
      if dbl_le F (absdiff F diff) tol then assert_fails caller line descr (dbl_message F expected real diff tol) else None)"

section \<open>The macros\<close>

text \<open>
  \<open>ASSERT_...\<close> passes the file, the line and no description; \<open>ASSERT_..._D\<close> passes one. The
  assertion is applied to its own arguments first. For floating-point numbers there are forms
  with a tolerance and forms with the default, \<open>1e-4\<close>, which is \<open>dbl_tol\<close>.
\<close>

definition ASSERT :: "(string \<Rightarrow> int \<Rightarrow> string option \<Rightarrow> check) \<Rightarrow> string \<Rightarrow> int \<Rightarrow> check" where
  "ASSERT assertion file line = assertion file line None"

definition ASSERT_D :: "(string \<Rightarrow> int \<Rightarrow> string option \<Rightarrow> check) \<Rightarrow> string \<Rightarrow> string \<Rightarrow> int \<Rightarrow> check" where
  "ASSERT_D assertion descr file line = assertion file line (Some descr)"

definition ASSERT_DBL_NEAR :: "'f double_ops \<Rightarrow> 'f \<Rightarrow> 'f \<Rightarrow> string \<Rightarrow> int \<Rightarrow> check" where
  "ASSERT_DBL_NEAR F expected real = ASSERT (assert_dbl_near F expected real (dbl_tol F))"

definition ASSERT_DBL_NEAR_D :: "'f double_ops \<Rightarrow> 'f \<Rightarrow> 'f \<Rightarrow> string \<Rightarrow> string \<Rightarrow> int \<Rightarrow> check" where
  "ASSERT_DBL_NEAR_D F expected real = ASSERT_D (assert_dbl_near F expected real (dbl_tol F))"

definition ASSERT_DBL_NEAR_TOL :: "'f double_ops \<Rightarrow> 'f \<Rightarrow> 'f \<Rightarrow> 'f \<Rightarrow> string \<Rightarrow> int \<Rightarrow> check" where
  "ASSERT_DBL_NEAR_TOL F expected real tol = ASSERT (assert_dbl_near F expected real tol)"

definition ASSERT_DBL_NEAR_TOL_D :: "'f double_ops \<Rightarrow> 'f \<Rightarrow> 'f \<Rightarrow> 'f \<Rightarrow> string \<Rightarrow> string \<Rightarrow> int \<Rightarrow> check" where
  "ASSERT_DBL_NEAR_TOL_D F expected real tol = ASSERT_D (assert_dbl_near F expected real tol)"

definition ASSERT_DBL_FAR :: "'f double_ops \<Rightarrow> 'f \<Rightarrow> 'f \<Rightarrow> string \<Rightarrow> int \<Rightarrow> check" where
  "ASSERT_DBL_FAR F expected real = ASSERT (assert_dbl_far F expected real (dbl_tol F))"

definition ASSERT_DBL_FAR_D :: "'f double_ops \<Rightarrow> 'f \<Rightarrow> 'f \<Rightarrow> string \<Rightarrow> string \<Rightarrow> int \<Rightarrow> check" where
  "ASSERT_DBL_FAR_D F expected real = ASSERT_D (assert_dbl_far F expected real (dbl_tol F))"

definition ASSERT_DBL_FAR_TOL :: "'f double_ops \<Rightarrow> 'f \<Rightarrow> 'f \<Rightarrow> 'f \<Rightarrow> string \<Rightarrow> int \<Rightarrow> check" where
  "ASSERT_DBL_FAR_TOL F expected real tol = ASSERT (assert_dbl_far F expected real tol)"

definition ASSERT_DBL_FAR_TOL_D :: "'f double_ops \<Rightarrow> 'f \<Rightarrow> 'f \<Rightarrow> 'f \<Rightarrow> string \<Rightarrow> string \<Rightarrow> int \<Rightarrow> check" where
  "ASSERT_DBL_FAR_TOL_D F expected real tol = ASSERT_D (assert_dbl_far F expected real tol)"

section \<open>Comparing byte arrays\<close>

text \<open>What the loop looks for: the first offset, from \<open>i\<close> on, at which the arrays differ.\<close>

lemma data_loop_find:
  "data_loop expected real caller line i k = map_option (data_message expected real caller line)
     (find (\<lambda>j. expected ! j \<noteq> real ! j) [i..<i + k])"
  by (induction k arbitrary: i) (simp_all add: upt_conv_Cons del: upt_Suc)

text \<open>
  \<open>assert_data\<close> passes exactly on equal arrays. On arrays of the same size that differ, it
  reports the least offset at which they do, with both bytes, and drops the description.
\<close>

theorem assert_data_first_difference:
  "(assert_data expected real caller line descr = None \<longleftrightarrow> expected = real) \<and>
    (length expected = length real \<longrightarrow> i < length expected \<longrightarrow> expected ! i \<noteq> real ! i \<longrightarrow>
      (\<forall>j < i. expected ! j = real ! j) \<longrightarrow>
      assert_data expected real caller line descr = Some (data_message expected real caller line i))"
proof -
  let ?d = "\<lambda>j. expected ! j \<noteq> real ! j"
  have "find ?d [0..<length expected] = None \<longleftrightarrow> expected = real" if "length expected = length real"
    unfolding find_None_iff list_eq_iff_nth_eq using that by simp
  moreover have "find ?d [0..<length expected] = Some i"
    if "i < length expected" "?d i" "\<forall>j < i. \<not> ?d j"
    unfolding find_Some_iff using that by (intro exI[of _ i]) simp
  moreover have "expected \<noteq> real" if "length expected \<noteq> length real" using that by blast
  ultimately show ?thesis
    by (cases "length expected = length real") (simp_all add: assert_data_def data_loop_find assert_fails_def)
qed

lemma sample_line: "show_int 5 = ''5''" "show_nat (Suc 0) = ''1''" "show_hex2 2 = ''02''" "show_hex2 7 = ''07''"
  by code_simp+

theorem assert_data_first_difference_witness:
  "assert_data [1, 2, 3] [1, 7, 3] ''d.c'' 5 None =
    Some ''d.c:5 expected 0x02 at offset 1 got 0x07''"
  using assert_data_first_difference[of "[1, 2, 3]" "[1, 7, 3]" "''d.c''" 5 None 1] by (simp add: data_message_def sample_line)

end
