(* ===== verification/ClientProgram.thy ===== *)
theory ClientProgram
  imports Prelude CtestAssert
begin

text \<open>
  A single-threaded program that uses a pool, as the test programs under
  \<open>src/threads/test\<close> do: a list of calls, some with an assertion of \<open>src/ctest.h\<close> on the
  result, and assertions on a counter that every task increments. It runs as client 0 beside
  the workers, interleaved in any way.
\<close>

text \<open>
  A call whose result is dropped, a call whose result is asserted, an assertion on the
  counter \<open>n\<close> the tasks increment, and a call of \<open>sleep\<close>, \<open>usleep\<close> or \<open>sched_yield\<close>.
\<close>

datatype 'c client_op = Do 'c | Expect 'c "ret \<Rightarrow> check" | Read "32 word \<Rightarrow> check" | Nap

text \<open>
  What the program uses of a pool: its steps, the event of a call, the result of the last
  call of a client that is outside the pool, and the number of tasks run.
\<close>

record ('e, 's, 'c) service =
  svc_next :: "'e \<Rightarrow> 's \<Rightarrow> 's option"
  svc_call :: "32 word \<Rightarrow> 'c \<Rightarrow> 'e"
  svc_is_call :: "'e \<Rightarrow> bool"
  svc_result :: "'s \<Rightarrow> 32 word \<Rightarrow> ret option"
  svc_count :: "'s \<Rightarrow> nat"

text \<open>An assertion that fails leaves its message; the program goes no further.\<close>

record ('s, 'c) client_run =
  pool_sys :: 's
  todo :: "'c client_op list"
  doing :: "('c \<times> (ret \<Rightarrow> check)) option"
  verdict :: check

datatype 'e client_event = Other 'e | Proceed

definition start_call :: "('e, 's, 'c) service \<Rightarrow> 'c \<Rightarrow> (ret \<Rightarrow> check) \<Rightarrow> 'c client_op list \<Rightarrow>
    ('s, 'c) client_run \<Rightarrow> ('s, 'c) client_run option" where
  "start_call P f chk ops s = map_option (\<lambda>p. s\<lparr>pool_sys := p, todo := ops, doing := Some (f, chk)\<rparr>)
     (svc_next P (svc_call P 0 f) (pool_sys s))"

fun start_op :: "('e, 's, 'c) service \<Rightarrow> 'c client_op list \<Rightarrow> ('s, 'c) client_run \<Rightarrow>
    ('s, 'c) client_run option" where
  "start_op P [] s = None"
| "start_op P (Do f # ops) s = start_call P f (\<lambda>_. None) ops s"
| "start_op P (Expect f chk # ops) s = start_call P f chk ops s"
| "start_op P (Read chk # ops) s =
     Some (s\<lparr>todo := ops, verdict := chk (of_nat (svc_count P (pool_sys s)))\<rparr>)"
| "start_op P (Nap # ops) s = Some (s\<lparr>todo := ops\<rparr>)"

fun client_next :: "('e, 's, 'c) service \<Rightarrow> 'e client_event \<Rightarrow> ('s, 'c) client_run \<Rightarrow>
    ('s, 'c) client_run option" where
  "client_next P (Other e) s =
     (if svc_is_call P e then None
      else map_option (\<lambda>p. s\<lparr>pool_sys := p\<rparr>) (svc_next P e (pool_sys s)))"
| "client_next P Proceed s =
     (if verdict s \<noteq> None then None
      else case doing s of
        None \<Rightarrow> start_op P (todo s) s
      | Some (f, chk) \<Rightarrow> (case svc_result P (pool_sys s) 0 of
            Some r \<Rightarrow> Some (s\<lparr>doing := None, verdict := chk r\<rparr>)
          | None \<Rightarrow> None))"

definition client_start :: "('s \<Rightarrow> bool) \<Rightarrow> 'c client_op list \<Rightarrow> ('s, 'c) client_run \<Rightarrow> bool" where
  "client_start init prog s \<longleftrightarrow> init (pool_sys s) \<and> todo s = prog \<and> doing s = None \<and> verdict s = None"

section \<open>What the test programs assert\<close>

text \<open>The conversions of a result to \<open>intmax_t\<close> and \<open>uintmax_t\<close>.\<close>

fun ret_value :: "ret \<Rightarrow> 64 word" where
  "ret_value (RSize n) = n"
| "ret_value (RInt i) = word_of_int i"
| "ret_value (RErr e) = - 1"
| "ret_value RVoid = 0"

text \<open>\<open>n\<close> is an \<open>int\<close>.\<close>

definition count_is :: "64 word \<Rightarrow> string \<Rightarrow> int \<Rightarrow> string option \<Rightarrow> 32 word \<Rightarrow> check" where
  "count_is k file line descr n = assert_equal k (scast n) file line descr"

text \<open>\<open>ASSERT_EQUAL_U\<close> and \<open>ASSERT_EQUAL_D\<close> on the result of a call.\<close>

definition result_is_u :: "64 word \<Rightarrow> string \<Rightarrow> int \<Rightarrow> ret \<Rightarrow> check" where
  "result_is_u k file line r = assert_equal_u k (ret_value r) file line None"

definition result_is :: "64 word \<Rightarrow> string \<Rightarrow> int \<Rightarrow> string \<Rightarrow> ret \<Rightarrow> check" where
  "result_is k file line descr r = assert_equal k (ret_value r) file line (Some descr)"

lemma scast_count: "k < 2 ^ 31 \<Longrightarrow> scast (of_nat k :: 32 word) = (of_nat k :: 64 word)"
  by (simp add: scast_eq signed_of_nat signed_take_bit_int_eq_self)

end
