(* ===== verification/ThpoolClient.thy ===== *)
theory ThpoolClient
  imports ThpoolWait ClientProgram
begin

text \<open>
  Single-threaded programs that use the locking pool. A sequential prediction of what the
  calls return is proved sound for all interleavings with the workers.
\<close>

section \<open>The pool as a service\<close>

fun is_call :: "event \<Rightarrow> bool" where
  "is_call (Call c f) \<longleftrightarrow> True"
| "is_call _ \<longleftrightarrow> False"

fun returned_value :: "pc \<Rightarrow> ret option" where
  "returned_value (Returned r) = Some r"
| "returned_value _ = None"

definition thpool_service :: "(event, system, call) service" where
  "thpool_service = \<lparr>svc_next = thpool_next, svc_call = Call, svc_is_call = is_call,
     svc_result = (\<lambda>s c. returned_value (pcs s (Client c))),
     svc_count = (\<lambda>s. length (finished (mem s)))\<rparr>"

lemma thpool_service_sel [simp]:
  "svc_next thpool_service = thpool_next" "svc_call thpool_service = Call"
  "svc_is_call thpool_service = is_call"
  "svc_result thpool_service s c = returned_value (pcs s (Client c))"
  "svc_count thpool_service s = length (finished (mem s))"
  by (simp_all add: thpool_service_def)

lemma returned_value_Some: "returned_value p = Some r \<longleftrightarrow> p = Returned r"
  by (cases p) auto

type_synonym thpool_run = "(system, call) client_run"

abbreviation thpool_client_next :: "event client_event \<Rightarrow> thpool_run \<Rightarrow> thpool_run option" where
  "thpool_client_next \<equiv> client_next thpool_service"

text \<open>A pool \<open>thpool_create(workers, qsize)\<close> returned.\<close>

definition pool_with :: "size_t \<Rightarrow> size_t \<Rightarrow> system \<Rightarrow> bool" where
  "pool_with workers qsize s \<longleftrightarrow> (\<exists>junk. length junk = unat qsize \<and> s = new_system junk workers qsize) \<and>
     0 < workers \<and> unat workers \<le> 2 ^ 32 \<and> 0 < qsize"

abbreviation client_init :: "size_t \<Rightarrow> size_t \<Rightarrow> call client_op list \<Rightarrow> thpool_run \<Rightarrow> bool" where
  "client_init workers qsize \<equiv> client_start (pool_with workers qsize)"

section \<open>Sequential prediction\<close>

text \<open>
  What the client knows: the tasks it has added, how many of them have certainly run, and
  the state of the pool. \<open>Busy\<close>: workers may be running. \<open>Quiet\<close>: nothing is queued and
  nothing runs. \<open>Held\<close>: the pool is paused, nothing runs and no worker will take a task.
  \<open>Gone\<close>: it was shut down.
\<close>

datatype mode = Busy | Quiet | Held | Gone

record view =
  adds :: nat
  settled :: nat
  vmode :: mode

definition first_view :: view where
  "first_view = \<lparr>adds = 0, settled = 0, vmode = Quiet\<rparr>"

definition calm_mode :: "mode \<Rightarrow> bool" where
  "calm_mode m \<longleftrightarrow> m = Quiet \<or> m = Held"

text \<open>The result of a call and the knowledge after it; \<open>None\<close> when it cannot be foretold.\<close>

fun expects :: "size_t \<Rightarrow> size_t \<Rightarrow> call \<Rightarrow> view \<Rightarrow> (ret \<times> view) option" where
  "expects workers qsize (Add t) v =
     (if vmode v \<noteq> Gone \<and> adds v - settled v < unat qsize
      then Some (RInt 0, v\<lparr>adds := adds v + 1, vmode := (if vmode v = Quiet then Busy else vmode v)\<rparr>)
      else None)"
| "expects workers qsize (AddTry t k) v = None"
| "expects workers qsize Pause v = (if calm_mode (vmode v) then Some (RVoid, v\<lparr>vmode := Held\<rparr>) else None)"
| "expects workers qsize Resume v =
     (case vmode v of Gone \<Rightarrow> None
      | Held \<Rightarrow> Some (RVoid, v\<lparr>vmode := (if settled v = adds v then Quiet else Busy)\<rparr>)
      | _ \<Rightarrow> Some (RVoid, v))"
| "expects workers qsize Active v = (if calm_mode (vmode v) then Some (RSize 0, v) else None)"
| "expects workers qsize Total v =
     (if calm_mode (vmode v) then Some (RSize (of_nat (adds v - settled v)), v) else None)"
| "expects workers qsize WorkersCount v = (if vmode v \<noteq> Gone then Some (RSize workers, v) else None)"
| "expects workers qsize Wait v =
     (case vmode v of Gone \<Rightarrow> None
      | Held \<Rightarrow> if settled v = adds v then Some (RVoid, v) else None
      | _ \<Rightarrow> Some (RVoid, v\<lparr>settled := adds v, vmode := Quiet\<rparr>))"
| "expects workers qsize Shutdown v =
     (if vmode v = Gone \<or> vmode v = Held \<and> settled v \<noteq> adds v then None
      else Some (RVoid, v\<lparr>vmode := Gone\<rparr>))"
| "expects workers qsize Destroy v =
     (if vmode v = Gone \<or> vmode v = Held \<and> settled v \<noteq> adds v then None
      else Some (RVoid, v\<lparr>vmode := Gone\<rparr>))"
| "expects workers qsize TryOnce v =
     (if calm_mode (vmode v)
      then if settled v < adds v then Some (RInt 0, v\<lparr>settled := settled v + 1\<rparr>)
        else Some (RInt (-1), v)
      else None)"

text \<open>The program runs to its end and no assertion of it fails.\<close>

fun predict :: "size_t \<Rightarrow> size_t \<Rightarrow> call client_op list \<Rightarrow> view \<Rightarrow> bool" where
  "predict workers qsize [] v \<longleftrightarrow> True"
| "predict workers qsize (Do f # ops) v \<longleftrightarrow>
     (case expects workers qsize f v of None \<Rightarrow> False | Some (r, v') \<Rightarrow> predict workers qsize ops v')"
| "predict workers qsize (Expect f chk # ops) v \<longleftrightarrow>
     (case expects workers qsize f v of None \<Rightarrow> False
      | Some (r, v') \<Rightarrow> chk r = None \<and> predict workers qsize ops v')"
| "predict workers qsize (Read chk # ops) v \<longleftrightarrow>
     calm_mode (vmode v) \<and> chk (of_nat (settled v)) = None \<and> predict workers qsize ops v"
| "predict workers qsize (Nap # ops) v \<longleftrightarrow> predict workers qsize ops v"

section \<open>What a view means\<close>

text \<open>A worker that neither runs a task nor is about to take one.\<close>

definition resting :: "system \<Rightarrow> bool" where
  "resting s \<longleftrightarrow> (\<forall>w. calm (pcs s (Worker w)) \<and> \<not> running (pcs s (Worker w)))"

definition sees_mem :: "size_t \<Rightarrow> size_t \<Rightarrow> view \<Rightarrow> bool \<Rightarrow> pool \<Rightarrow> bool" where
  "sees_mem workers qsize v rest m \<longleftrightarrow> vmode v \<noteq> Gone \<longrightarrow>
     shutdown m = 0 \<and> thread_count m = workers \<and> queue_size (queue m) = qsize \<and>
     length (submitted m) = adds v \<and> settled v \<le> length (finished m) \<and>
     (vmode v = Quiet \<longrightarrow> settled v = adds v \<and> queue_count (queue m) = 0) \<and>
     (vmode v = Held \<longrightarrow> hold m \<noteq> 0) \<and>
     (calm_mode (vmode v) \<longrightarrow> rest \<and> length (finished m) = settled v)"

definition sees :: "size_t \<Rightarrow> size_t \<Rightarrow> view \<Rightarrow> system \<Rightarrow> bool" where
  "sees workers qsize v s \<longleftrightarrow> sees_mem workers qsize v (resting s) (mem s)"

lemma sees_mem_same [simp]:
  "sees_mem k n v b (m\<lparr>lock := a\<rparr>) = sees_mem k n v b m"
  "sees_mem k n v b (m\<lparr>notify := W\<rparr>) = sees_mem k n v b m"
  "sees_mem k n v b (m\<lparr>notify_empty := W\<rparr>) = sees_mem k n v b m"
  "sees_mem k n v b (m\<lparr>running_count := c\<rparr>) = sees_mem k n v b m"
  by (simp_all add: sees_mem_def)

lemmas sees_defs = sees_def sees_mem_def

text \<open>The other clients are not there.\<close>

definition no_others :: "system \<Rightarrow> bool" where
  "no_others s \<longleftrightarrow> (\<forall>c. c \<noteq> 0 \<longrightarrow> pcs s (Client c) = Returned RVoid)"

subsection \<open>Steps of the workers keep it\<close>

lemma worker_keeps:
  assumes "exec i v p m = Some (m', p')" and "\<exists>q. p = InWorker q \<or> p = Returned r"
  shows "shutdown m' = shutdown m \<and> thread_count m' = thread_count m \<and>
    queue_size (queue m') = queue_size (queue m) \<and> submitted m' = submitted m \<and>
    hold m' = hold m \<and> length (finished m) \<le> length (finished m') \<and>
    (\<not> running p \<longrightarrow> finished m' = finished m) \<and>
    (calm p \<and> \<not> running p \<and> (hold m \<noteq> 0 \<or> queue_count (queue m) = 0) \<and> knows p m \<longrightarrow>
      calm p' \<and> \<not> running p' \<and> queue_count (queue m') = queue_count (queue m))"
  using assms
  by (auto simp: outcome_simps step_defs ring_advance_def elim!: worker_stepE split: if_splits)

lemma sees_worker:
  assumes inv: "thpool_inv s" and v: "sees workers qsize v s"
    and e: "exec (Worker w) u (pcs s (Worker w)) (mem s) = Some (m, p)"
  shows "sees workers qsize v \<lparr>mem = m, pcs = (pcs s)(Worker w := p)\<rparr>"
proof (cases "vmode v = Gone")
  case False
  let ?p = "pcs s (Worker w)" and ?s = "\<lparr>mem = m, pcs = (pcs s)(Worker w := p)\<rparr>"
  have k: "knows ?p (mem s)" and role: "role_ok (mem s) (Worker w) ?p"
    using inv by (auto simp: thpool_inv_def knows_inv_def role_inv_def)
  from role have "\<exists>q. ?p = InWorker q \<or> ?p = Returned RVoid" by (auto simp: role_ok_def split: if_splits)
  note keeps = worker_keeps[OF e this]
  have "resting ?s \<and> finished m = finished (mem s) \<and> queue_count (queue m) = queue_count (queue (mem s))"
    if c: "calm_mode (vmode v)"
  proof -
    have r: "resting s" and "hold (mem s) \<noteq> 0 \<or> queue_count (queue (mem s)) = 0"
      using c v False by (auto simp: sees_defs calm_mode_def)
    moreover from r have "calm ?p \<and> \<not> running ?p" by (simp add: resting_def)
    ultimately show ?thesis using keeps k by (simp add: resting_def)
  qed
  with v keeps False show ?thesis by (auto simp: sees_defs calm_mode_def)
qed (simp add: sees_defs)

subsection \<open>Consequences\<close>

lemma lengths:
  assumes "thpool_inv s"
  shows "length (finished (mem s)) \<le> length (taken (mem s))"
    and "length (submitted (mem s)) = length (taken (mem s)) + unat (queue_count (queue (mem s)))"
proof -
  have t: "mset (taken (mem s)) = mset (finished (mem s)) + tsum carried (pcs s)"
    and q: "submitted (mem s) = taken (mem s) @ ring_items (queue (mem s))"
    using assms by (simp_all add: thpool_inv_def task_inv_def queue_inv_def)
  from arg_cong[OF t, of size] show "length (finished (mem s)) \<le> length (taken (mem s))" by simp
  from q show "length (submitted (mem s)) = length (taken (mem s)) + unat (queue_count (queue (mem s)))"
    by simp
qed

lemma sees_room:
  assumes inv: "thpool_inv s" and v: "sees workers qsize v s" and "vmode v \<noteq> Gone"
    and room: "adds v - settled v < unat qsize"
  shows "\<not> ring_full (queue (mem s))"
proof
  assume "ring_full (queue (mem s))"
  moreover have "ring_ok (queue (mem s))" using inv by (simp add: thpool_inv_def queue_inv_def)
  ultimately have "unat (queue_count (queue (mem s))) = unat qsize"
    using v assms(3) by (auto simp: sees_defs ring_full_def)
  with lengths[OF inv] v assms(3) room show False by (auto simp: sees_defs)
qed

text \<open>Nobody runs a task: the counters say exactly what is queued.\<close>

lemma sees_exact:
  assumes inv: "thpool_inv s" and v: "sees workers qsize v s" "calm_mode (vmode v)"
    and alone: "no_others s" and idle: "\<not> running (pcs s (Client 0))"
  shows "running_count (mem s) = 0" and "unat (queue_count (queue (mem s))) = adds v - settled v"
    and "settled v \<le> adds v" and "queue_count (queue (mem s)) = of_nat (adds v - settled v)"
proof -
  have rest: "resting s" and f: "length (finished (mem s)) = settled v"
    "length (submitted (mem s)) = adds v"
    using v by (auto simp: sees_defs calm_mode_def)
  have none: "\<not> running (pcs s i)" for i
  proof (cases i)
    case (Worker w)
    with rest show ?thesis by (simp add: resting_def)
  next
    case (Client c)
    with alone idle show ?thesis by (cases "c = 0") (auto simp: no_others_def)
  qed
  have ri: "running_inv s" using inv by (simp add: thpool_inv_def)
  have "card {i. running (pcs s i)} = 0" using none by simp
  with running_card[OF ri] show zero: "running_count (mem s) = 0" by (simp add: unat_eq_zero)
  have "tsum carried (pcs s) = {#}" by (rule running_count_zero(2)[OF ri zero])
  then have "mset (taken (mem s)) = mset (finished (mem s))"
    using inv by (simp add: thpool_inv_def task_inv_def)
  from arg_cong[OF this, of size] f lengths[OF inv]
  show q: "unat (queue_count (queue (mem s))) = adds v - settled v" and "settled v \<le> adds v" by simp_all
  from q show "queue_count (queue (mem s)) = of_nat (adds v - settled v)"
    by (simp flip: q)
qed

text \<open>When \<open>thpool_wait\<close> is about to return, the pool is quiet.\<close>

lemma wait_quiet:
  assumes inv: "thpool_inv s" and p: "pcs s i = InWait E_Return"
  shows "queue_count (queue (mem s)) = 0" and "resting s"
    and "length (finished (mem s)) = length (submitted (mem s))"
proof -
  have "knows (pcs s i) (mem s)" using inv by (simp add: thpool_inv_def knows_inv_def)
  with p have q: "queue_count (queue (mem s)) = 0" and r: "running_count (mem s) = 0" by auto
  from q show "queue_count (queue (mem s)) = 0" .
  have ri: "running_inv s" and k: "knows (pcs s j) (mem s)" for j
    using inv by (simp_all add: thpool_inv_def knows_inv_def)
  have "calm (pcs s (Worker w))" for w
  proof -
    have "role_ok (mem s) (Worker w) (pcs s (Worker w))"
      using inv by (simp add: thpool_inv_def role_inv_def)
    with k[of "Worker w"] q show ?thesis by (auto simp: role_ok_def split: if_splits wpc.splits)
  qed
  with running_count_zero(1)[OF ri r] show "resting s" by (simp add: resting_def)
  from idle_empty_done[OF inv q r] show "length (finished (mem s)) = length (submitted (mem s))"
    by (metis size_mset)
qed

section \<open>Inside a call\<close>

text \<open>Where client 0 can be in a call whose result is foretold, and whether it has taken effect.\<close>

fun at_call :: "call \<Rightarrow> ret \<Rightarrow> view \<Rightarrow> pc \<Rightarrow> bool" where
  "at_call (Add t) r v p \<longleftrightarrow> (\<exists>q. p = InAdd q \<and> q \<noteq> A_FullUnlock \<and> q \<noteq> A_Yield)"
| "at_call (AddTry t k) r v p \<longleftrightarrow> False"
| "at_call Pause r v p \<longleftrightarrow> p = InMisc M_Pause"
| "at_call Resume r v p \<longleftrightarrow> p = InMisc M_Resume \<or> p = InMisc M_ResumeLock \<or>
     p = InMisc M_ResumeSignal \<or> p = InMisc M_ResumeUnlock"
| "at_call Active r v p \<longleftrightarrow> p = InMisc M_Active"
| "at_call Total r v p \<longleftrightarrow> p = InMisc M_TotalLock \<or> p = InMisc M_TotalRead \<or>
     (\<exists>n. p = InMisc (M_TotalUnlock n) \<and> r = RSize n)"
| "at_call WorkersCount r v p \<longleftrightarrow> p = InMisc M_WorkersLock \<or> p = InMisc M_WorkersRead \<or>
     (\<exists>n. p = InMisc (M_WorkersUnlock n) \<and> r = RSize n)"
| "at_call Wait r v p \<longleftrightarrow> (\<exists>q. p = InWait q)"
| "at_call Shutdown r v p \<longleftrightarrow> (\<exists>q. p = InShutdown q)"
| "at_call Destroy r v p \<longleftrightarrow> (\<exists>q. p = InShutdown q)"
| "at_call TryOnce r v p \<longleftrightarrow> (\<exists>q. p = InTryOnce q \<and> (q = T_EmptyUnlock \<longrightarrow> \<not> settled v < adds v) \<and>
     (q \<notin> {T_Lock, T_Test, T_EmptyUnlock} \<longrightarrow> settled v < adds v))"

fun has_effect :: "pc \<Rightarrow> bool" where
  "has_effect (InAdd q) \<longleftrightarrow> q = A_Signal \<or> q = A_Unlock"
| "has_effect (InMisc q) \<longleftrightarrow> q = M_ResumeLock \<or> q = M_ResumeSignal \<or> q = M_ResumeUnlock"
| "has_effect (InTryOnce q) \<longleftrightarrow> q = T_Dec"
| "has_effect (InShutdown q) \<longleftrightarrow> True"
| "has_effect (Returned r) \<longleftrightarrow> True"
| "has_effect _ \<longleftrightarrow> False"

definition at_point :: "call \<Rightarrow> ret \<Rightarrow> view \<Rightarrow> pc \<Rightarrow> bool" where
  "at_point f r v p \<longleftrightarrow> p = Returned r \<or> at_call f r v p"

definition during :: "size_t \<Rightarrow> size_t \<Rightarrow> call \<Rightarrow> view \<Rightarrow> ret \<Rightarrow> view \<Rightarrow> system \<Rightarrow> bool" where
  "during workers qsize f v r v' s \<longleftrightarrow> at_point f r v (pcs s (Client 0)) \<and>
     sees workers qsize (if has_effect (pcs s (Client 0)) then v' else v) s"

lemma resting_client [simp]: "resting (\<lparr>mem = m, pcs = (pcs s)(Client c := p)\<rparr>) = resting s"
  by (simp add: resting_def)

lemma sees_at_entry:
  assumes "expects workers qsize f v = Some (r, v')" and "sees workers qsize v s"
    and "thpool_next (Call 0 f) s = Some s'"
  shows "during workers qsize f v r v' s'"
proof -
  have s': "s' = s\<lparr>pcs := (pcs s)(Client 0 := entry f)\<rparr>" using assms(3) by (simp only: call_Some)
  have "at_call f r v (entry f)" using assms(1) by (cases f) auto
  moreover have "sees workers qsize (if has_effect (entry f) then v' else v) s"
    using assms(1,2) by (cases f) (auto simp: sees_defs split: if_splits)
  moreover have "resting s' = resting s" by (simp add: s' resting_def)
  moreover have "mem s' = mem s" "pcs s' (Client 0) = entry f" by (simp_all add: s')
  ultimately show ?thesis by (simp only: during_def at_point_def sees_def simp_thms)
qed

text \<open>
  What is known at a program point of client 0 besides its view: there is room when the
  view says so, the counters are exact when nobody runs, and the pool is quiet where
  \<open>thpool_wait\<close> returns.
\<close>

definition hints :: "size_t \<Rightarrow> view \<Rightarrow> bool \<Rightarrow> pool \<Rightarrow> pc \<Rightarrow> bool" where
  "hints qsize v rest m p \<longleftrightarrow>
     (adds v - settled v < unat qsize \<and> vmode v \<noteq> Gone \<and> \<not> has_effect p \<longrightarrow> \<not> ring_full (queue m)) \<and>
     (calm_mode (vmode v) \<and> \<not> has_effect p \<and> \<not> running p \<longrightarrow> running_count m = 0 \<and>
        total_tasks m = of_nat (adds v - settled v) \<and>
        (queue_count (queue m) = 0 \<longleftrightarrow> \<not> settled v < adds v) \<and> settled v \<le> adds v) \<and>
     (p = InWait E_Return \<longrightarrow> rest \<and> queue_count (queue m) = 0 \<and> length (finished m) = length (submitted m))"

text \<open>One lemma per function: a step of the client stays on the foretold path.\<close>

definition on_path :: "size_t \<Rightarrow> size_t \<Rightarrow> call \<Rightarrow> view \<Rightarrow> ret \<Rightarrow> view \<Rightarrow> bool \<Rightarrow> pool \<Rightarrow> pc \<Rightarrow> bool" where
  "on_path workers qsize f v r v' rest m p \<longleftrightarrow> at_point f r v p \<and>
     sees_mem workers qsize (if has_effect p then v' else v) rest m"

lemma during_on_path:
  "during workers qsize f v r v' s = on_path workers qsize f v r v' (resting s) (mem s) (pcs s (Client 0))"
  by (simp add: during_def on_path_def sees_def)

lemmas path_simps = on_path_def at_point_def outcome_simps step_defs

lemma add_on_path:
  assumes "expects k n (Add t) v = Some (r, v')" and "on_path k n (Add t) v r v' b m (InAdd q)"
    and "hints n v b m (InAdd q)" and "add_task_step i u q m = Some (m', y)"
  shows "on_path k n (Add t) v r v' b m' (case_sum InAdd Returned y)"
proof (cases "\<exists>t'. q = A_Put t'")
  case True
  with assms show ?thesis
    by (auto simp: path_simps sees_mem_def calm_mode_def ring_put_def split: if_splits)
next
  case False
  have "q = A_Test t' \<Longrightarrow> \<not> ring_full (queue m)" for t'
    using assms(1,3) by (auto simp: hints_def split: if_splits)
  with False assms show ?thesis
    by (cases q) (auto simp: path_simps split: if_splits)
qed

lemma pause_on_path:
  assumes "expects k n Pause v = Some (r, v')" and "on_path k n Pause v r v' b m (InMisc q)"
    and "misc_step i u q m = Some (m', y)"
  shows "on_path k n Pause v r v' b m' (case_sum InMisc Returned y)"
  using assms by (auto simp: path_simps sees_mem_def calm_mode_def split: if_splits)

lemma resume_on_path:
  assumes "expects k n Resume v = Some (r, v')" and "on_path k n Resume v r v' b m (InMisc q)"
    and "hints n v b m (InMisc q)" and "misc_step i u q m = Some (m', y)"
  shows "on_path k n Resume v r v' b m' (case_sum InMisc Returned y)"
proof (cases "q = M_Resume")
  case True
  have "vmode v = Held \<Longrightarrow> settled v = adds v \<Longrightarrow> queue_count (queue m) = 0"
    using True assms(3) by (simp add: hints_def calm_mode_def)
  with True assms(1,2,4) show ?thesis
    by (cases "vmode v") (auto simp: path_simps sees_mem_def calm_mode_def split: if_splits)
next
  case False
  have "r = RVoid" using assms(1) by (auto split: mode.splits)
  with False assms(2,4) show ?thesis
    by (cases q) (auto simp: path_simps split: if_splits)
qed

lemma counters_on_path:
  assumes "expects k n f v = Some (r, v')" and "on_path k n f v r v' b m (InMisc q)"
    and "hints n v b m (InMisc q)" and "misc_step i u q m = Some (m', y)"
    and f: "f = Active \<or> f = Total"
  shows "on_path k n f v r v' b m' (case_sum InMisc Returned y)"
proof -
  have c: "calm_mode (vmode v)" "v' = v" "r = RSize (if f = Active then 0 else of_nat (adds v - settled v))"
    using assms(1) f by (auto split: if_splits)
  have "q \<noteq> M_ResumeLock \<and> q \<noteq> M_ResumeSignal \<and> q \<noteq> M_ResumeUnlock"
    using assms(2) f by (auto simp: on_path_def at_point_def)
  then have "active_tasks m = 0" "total_tasks m = of_nat (adds v - settled v)"
    using assms(3) c(1) by (simp_all add: hints_def active_tasks_def)
  with assms(2,4) f c show ?thesis
    by (cases q) (auto simp: on_path_def at_point_def acquire_def release_def split: if_splits)
qed

lemma workers_on_path:
  assumes "expects k n WorkersCount v = Some (r, v')" and "on_path k n WorkersCount v r v' b m (InMisc q)"
    and "misc_step i u q m = Some (m', y)"
  shows "on_path k n WorkersCount v r v' b m' (case_sum InMisc Returned y)"
proof -
  have v: "v' = v" "vmode v \<noteq> Gone" "r = RSize k" using assms(1) by (auto split: if_splits)
  then have "thread_count m = k" using assms(2) by (auto simp: on_path_def sees_mem_def)
  with assms(2,3) v show ?thesis
    by (cases q) (auto simp: path_simps split: if_splits)
qed

lemma wait_on_path:
  assumes "expects k n Wait v = Some (r, v')" and "on_path k n Wait v r v' b m (InWait q)"
    and "hints n v b m (InWait q)" and "wait_step i q m = Some (m', y)"
  shows "on_path k n Wait v r v' b m' (case_sum InWait Returned y)"
proof (cases "q = E_Return")
  case True
  then have "b" "queue_count (queue m) = 0" "length (finished m) = length (submitted m)"
    using assms(3) by (simp_all add: hints_def)
  with True assms(1,2,4) show ?thesis
    by (cases "vmode v") (auto simp: path_simps sees_mem_def calm_mode_def split: if_splits)
next
  case False
  with assms(2,4) show ?thesis by (cases q) (auto simp: path_simps split: if_splits)
qed

lemma shutdown_on_path:
  assumes "expects k n f v = Some (r, v')" and f: "f = Shutdown \<or> f = Destroy"
    and "shutdown_step q i m = Some (m', y)"
  shows "on_path k n f v r v' b m' (case_sum InShutdown Returned y)"
proof -
  have v: "vmode v' = Gone" "r = RVoid" using assms(1) f by (auto split: if_splits)
  have "y = Inr RVoid \<or> (\<exists>q'. y = Inl q')"
    using assms(3) by (auto elim!: shutdown_stepE simp: acquire_def outcome_simps split: if_splits)
  with f v show ?thesis by (auto simp: on_path_def at_point_def sees_mem_def)
qed

lemma try_once_on_path:
  assumes "expects k n TryOnce v = Some (r, v')" and "on_path k n TryOnce v r v' b m (InTryOnce q)"
    and "hints n v b m (InTryOnce q)" and "try_once_step i q m = Some (m', y)"
  shows "on_path k n TryOnce v r v' b m' (case_sum InTryOnce Returned y)"
proof -
  have c: "calm_mode (vmode v)"
    and r: "(r, v') = (if settled v < adds v then (RInt 0, v\<lparr>settled := settled v + 1\<rparr>) else (RInt (-1), v))"
    using assms(1) by (auto split: if_splits)
  show ?thesis
  proof (cases "(\<exists>t. q = T_Run t) \<or> q = T_Take")
    case True
    with assms(2,4) r show ?thesis
      by (auto simp: path_simps sees_mem_def calm_mode_def ring_advance_def split: if_splits)
  next
    case False
    have "q = T_Test \<Longrightarrow> queue_count (queue m) = 0 \<longleftrightarrow> \<not> settled v < adds v"
      using c assms(3) by (simp add: hints_def)
    with False assms(2,4) r show ?thesis
      by (cases q) (auto simp: path_simps split: if_splits)
  qed
qed

text \<open>All functions together.\<close>

lemma exec_on_path:
  assumes x: "expects k n f v = Some (r, v')" and p: "on_path k n f v r v' b m p"
    and h: "hints n v b m p" and e: "exec i u p m = Some (m', p')"
  shows "on_path k n f v r v' b m' p'"
proof (cases p)
  case (InWorker q)
  with p show ?thesis by (cases f) (auto simp: on_path_def at_point_def)
next
  case (InTryOnce q)
  then have "f = TryOnce" using p by (cases f) (auto simp: on_path_def at_point_def)
  with InTryOnce try_once_on_path[of k n v r v' b m q i] x p h e show ?thesis
    by (auto simp only: exec.simps resume_at_Some) auto
next
  case (InAdd q)
  then obtain t where "f = Add t" using p by (cases f) (auto simp: on_path_def at_point_def)
  with InAdd add_on_path[of k n t v r v' b m q i u] x p h e show ?thesis
    by (auto simp only: exec.simps resume_at_Some) auto
next
  case (InAddTry q)
  with p show ?thesis by (cases f) (auto simp: on_path_def at_point_def)
next
  case (InMisc q)
  then consider "f = Pause" | "f = Resume" | "f = Active \<or> f = Total" | "f = WorkersCount"
    using p by (cases f) (auto simp: on_path_def at_point_def)
  then show ?thesis
  proof cases
    case 1
    with InMisc pause_on_path[of k n v r v' b m q i u] x p e show ?thesis
      by (auto simp only: exec.simps resume_at_Some) auto
  next
    case 2
    with InMisc resume_on_path[of k n v r v' b m q i u] x p h e show ?thesis
      by (auto simp only: exec.simps resume_at_Some) auto
  next
    case 3
    with InMisc counters_on_path[of k n f v r v' b m q i u] x p h e show ?thesis
      by (auto simp only: exec.simps resume_at_Some) auto
  next
    case 4
    with InMisc workers_on_path[of k n v r v' b m q i u] x p e show ?thesis
      by (auto simp only: exec.simps resume_at_Some) auto
  qed
next
  case (InWait q)
  then have "f = Wait" using p by (cases f) (auto simp: on_path_def at_point_def)
  with InWait wait_on_path[of k n v r v' b m q i] x p h e show ?thesis
    by (auto simp only: exec.simps resume_at_Some) auto
next
  case (InShutdown q)
  then have "f = Shutdown \<or> f = Destroy" using p by (cases f) (auto simp: on_path_def at_point_def)
  with InShutdown shutdown_on_path[of k n f v r v' q i m] x e show ?thesis
    by (auto simp only: exec.simps resume_at_Some) auto
qed (use e in simp)

section \<open>The invariant of a foretold program\<close>

lemma hints_hold:
  assumes inv: "thpool_inv s" and alone: "no_others s"
    and v: "\<not> has_effect (pcs s (Client 0)) \<Longrightarrow> sees k n v s"
  shows "hints n v (resting s) (mem s) (pcs s (Client 0))"
proof -
  let ?p = "pcs s (Client 0)"
  have "\<not> ring_full (queue (mem s))"
    if "adds v - settled v < unat n" "vmode v \<noteq> Gone" "\<not> has_effect ?p"
    using sees_room[OF inv v] that by blast
  moreover have "running_count (mem s) = 0 \<and> total_tasks (mem s) = of_nat (adds v - settled v) \<and>
      (queue_count (queue (mem s)) = 0 \<longleftrightarrow> \<not> settled v < adds v) \<and> settled v \<le> adds v"
    if "calm_mode (vmode v)" "\<not> has_effect ?p" "\<not> running ?p"
  proof -
    note exact = sees_exact[OF inv v[OF that(2)] that(1) alone that(3)]
    have "queue_count (queue (mem s)) = 0 \<longleftrightarrow> adds v - settled v = 0"
      using exact(2) by (metis unat_eq_zero)
    with exact show ?thesis by (auto simp: total_tasks_def)
  qed
  moreover have "resting s \<and> queue_count (queue (mem s)) = 0 \<and>
      length (finished (mem s)) = length (submitted (mem s))" if "?p = InWait E_Return"
    using wait_quiet[OF inv that] by simp
  ultimately show ?thesis unfolding hints_def by blast
qed

lemma during_client:
  assumes inv: "thpool_inv s" and alone: "no_others s" and x: "expects k n f v = Some (r, v')"
    and d: "during k n f v r v' s" and e: "exec (Client 0) u (pcs s (Client 0)) (mem s) = Some (m, p)"
  shows "during k n f v r v' \<lparr>mem = m, pcs = (pcs s)(Client 0 := p)\<rparr>"
proof -
  have "hints n v (resting s) (mem s) (pcs s (Client 0))"
    by (rule hints_hold[OF inv alone, where k = k]) (use d in \<open>simp add: during_def\<close>)
  from exec_on_path[OF x _ this e] d show ?thesis by (simp add: during_on_path)
qed

lemma during_other:
  assumes inv: "thpool_inv s" and d: "during k n f v r v' s"
    and e: "exec (Worker w) u (pcs s (Worker w)) (mem s) = Some (m, p)"
  shows "during k n f v r v' \<lparr>mem = m, pcs = (pcs s)(Worker w := p)\<rparr>"
  using sees_worker[OF inv _ e] d by (auto simp: during_def)

lemma during_spurious:
  assumes "during k n f v r v' s" and "thpool_next (Spurious i) s = Some s'"
  shows "during k n f v r v' s'"
  using assms by (auto simp: during_def sees_def resting_def split: if_splits)

text \<open>The client is between two calls, or inside one; either way the rest of its program is foretold.\<close>

definition foretold :: "size_t \<Rightarrow> size_t \<Rightarrow> thpool_run \<Rightarrow> bool" where
  "foretold k n s \<longleftrightarrow> (case doing s of
     None \<Rightarrow> (\<exists>v r. pcs (pool_sys s) (Client 0) = Returned r \<and> sees k n v (pool_sys s) \<and> predict k n (todo s) v)
   | Some (f, chk) \<Rightarrow> (\<exists>v r v'. expects k n f v = Some (r, v') \<and> chk r = None \<and>
       predict k n (todo s) v' \<and> during k n f v r v' (pool_sys s)))"

definition client_inv :: "size_t \<Rightarrow> size_t \<Rightarrow> thpool_run \<Rightarrow> bool" where
  "client_inv k n s \<longleftrightarrow> reach thpool_init lone_next (pool_sys s) \<and> no_others (pool_sys s) \<and>
     verdict s = None \<and> foretold k n s"

lemma at_point_Returned [simp]: "at_point f r v (Returned r') \<longleftrightarrow> r' = r"
  by (cases f) (auto simp: at_point_def)

lemma pool_inv: "client_inv k n s \<Longrightarrow> thpool_inv (pool_sys s)"
  using lone_pool.reach_inv by (auto simp: client_inv_def)

lemma foretold_worker:
  assumes c: "foretold k n s" and inv: "thpool_inv (pool_sys s)"
    and e: "exec (Worker w) u (pcs (pool_sys s) (Worker w)) (mem (pool_sys s)) = Some (m, p)"
  shows "foretold k n (s\<lparr>pool_sys := \<lparr>mem = m, pcs = (pcs (pool_sys s))(Worker w := p)\<rparr>\<rparr>)"
proof (cases "doing s")
  case None
  with c obtain v r where "pcs (pool_sys s) (Client 0) = Returned r" "predict k n (todo s) v"
    and v: "sees k n v (pool_sys s)" by (auto simp: foretold_def)
  with sees_worker[OF inv v e] None show ?thesis by (auto simp: foretold_def)
next
  case (Some fc)
  then obtain f chk where fc: "doing s = Some (f, chk)" by (cases fc) auto
  with c obtain v r v' where x: "expects k n f v = Some (r, v')" "chk r = None" "predict k n (todo s) v'"
    and d: "during k n f v r v' (pool_sys s)" by (auto simp: foretold_def)
  from x during_other[OF inv d e] fc show ?thesis by (auto simp: foretold_def)
qed

lemma foretold_client:
  assumes c: "foretold k n s" and inv: "thpool_inv (pool_sys s)" and alone: "no_others (pool_sys s)"
    and e: "exec (Client 0) u (pcs (pool_sys s) (Client 0)) (mem (pool_sys s)) = Some (m, p)"
  shows "foretold k n (s\<lparr>pool_sys := \<lparr>mem = m, pcs = (pcs (pool_sys s))(Client 0 := p)\<rparr>\<rparr>)"
proof (cases "doing s")
  case None
  with c e show ?thesis by (auto simp: foretold_def)
next
  case (Some fc)
  then obtain f chk where fc: "doing s = Some (f, chk)" by (cases fc) auto
  with c obtain v r v' where x: "expects k n f v = Some (r, v')" and y: "chk r = None" "predict k n (todo s) v'"
    and d: "during k n f v r v' (pool_sys s)" by (auto simp: foretold_def)
  from x y during_client[OF inv alone x d e] fc show ?thesis by (auto simp: foretold_def)
qed

lemma foretold_spurious:
  assumes c: "foretold k n s" and e: "thpool_next (Spurious i) (pool_sys s) = Some p"
  shows "foretold k n (s\<lparr>pool_sys := p\<rparr>)"
proof (cases "doing s")
  case None
  with c obtain v r where "pcs (pool_sys s) (Client 0) = Returned r" "predict k n (todo s) v"
    "sees k n v (pool_sys s)" by (auto simp: foretold_def)
  moreover from this(3) e have "sees k n v p" "pcs p = pcs (pool_sys s)"
    by (auto simp: sees_def resting_def split: if_splits)
  ultimately show ?thesis using None by (auto simp: foretold_def)
next
  case (Some fc)
  then obtain f chk where fc: "doing s = Some (f, chk)" by (cases fc) auto
  with c obtain v r v' where x: "expects k n f v = Some (r, v')" "chk r = None" "predict k n (todo s) v'"
    and d: "during k n f v r v' (pool_sys s)" by (auto simp: foretold_def)
  from x during_spurious[OF d e] fc show ?thesis by (auto simp: foretold_def)
qed

lemma client_inv_other:
  assumes c: "client_inv k n s" and n: "thpool_client_next (Other e) s = Some s'"
  shows "client_inv k n s'"
proof -
  from n obtain p where e: "\<not> is_call e" "thpool_next e (pool_sys s) = Some p" and s': "s' = s\<lparr>pool_sys := p\<rparr>"
    by (auto split: if_splits)
  note inv = pool_inv[OF c]
  have alone: "no_others (pool_sys s)" and fore: "foretold k n s" using c by (simp_all add: client_inv_def)
  have "lone_next e (pool_sys s) = Some p" using e by (cases e) (auto simp: lone_next_def)
  with c have r: "reach thpool_init lone_next p" by (auto simp: client_inv_def intro: reach_step)
  have "no_others p \<and> foretold k n s'"
  proof (cases e)
    case (Step i u)
    with e obtain m q where x: "exec i u (pcs (pool_sys s) i) (mem (pool_sys s)) = Some (m, q)"
      and p: "p = \<lparr>mem = m, pcs = (pcs (pool_sys s))(i := q)\<rparr>" by (auto simp only: step_Some)
    show ?thesis
    proof (cases i)
      case (Worker w)
      with foretold_worker[OF fore inv, of w u m q] x p alone show ?thesis by (auto simp: s' no_others_def)
    next
      case (Client d)
      with x alone have "d = 0" by (cases "d = 0") (auto simp: no_others_def)
      with Client foretold_client[OF fore inv alone, of u m q] x p alone show ?thesis
        by (auto simp: s' no_others_def)
    qed
  next
    case (Call d f)
    with e show ?thesis by simp
  next
    case (Spurious i)
    with foretold_spurious[OF fore] e alone show ?thesis
      by (auto simp: s' no_others_def split: if_splits)
  qed
  with r c show ?thesis by (simp add: client_inv_def s')
qed

lemma client_inv_call:
  assumes c: "client_inv k n s" and v: "sees k n v (pool_sys s)" and x: "expects k n f v = Some (r, v')"
    and chk: "chk r = None" "predict k n ops v'" and n: "start_call thpool_service f chk ops s = Some s'"
  shows "client_inv k n s'"
proof -
  from n obtain p where p: "thpool_next (Call 0 f) (pool_sys s) = Some p"
    and s': "s' = s\<lparr>pool_sys := p, todo := ops, doing := Some (f, chk)\<rparr>"
    by (auto simp: start_call_def)
  from p have "lone_next (Call 0 f) (pool_sys s) = Some p" by (simp add: lone_next_def)
  with c have "reach thpool_init lone_next p" by (auto simp: client_inv_def intro: reach_step)
  moreover have "no_others p" using p c by (auto simp only: call_Some client_inv_def) (simp add: no_others_def)
  moreover have "foretold k n s'" using sees_at_entry[OF x v p] x chk by (auto simp: foretold_def s')
  ultimately show ?thesis using c by (simp add: client_inv_def s')
qed

lemma client_inv_proceed:
  assumes c: "client_inv k n s" and n: "thpool_client_next Proceed s = Some s'"
  shows "client_inv k n s'"
proof (cases "doing s")
  case None
  with c obtain v r where v: "sees k n v (pool_sys s)" and p: "predict k n (todo s) v"
    and r: "pcs (pool_sys s) (Client 0) = Returned r"
    by (auto simp: client_inv_def foretold_def)
  from n None have st: "start_op thpool_service (todo s) s = Some s'" by (auto split: if_splits)
  show ?thesis
  proof (cases "todo s")
    case Nil
    with st show ?thesis by simp
  next
    case (Cons op ops)
    show ?thesis
    proof (cases op)
      case (Do f)
      with Cons p obtain r v' where x: "expects k n f v = Some (r, v')" "predict k n ops v'"
        by (auto split: option.splits)
      from client_inv_call[where chk = "\<lambda>_. None", OF c v x(1) _ x(2)] st Do Cons show ?thesis by simp
    next
      case (Expect f chk)
      with Cons p obtain r v' where x: "expects k n f v = Some (r, v')" "chk r = None" "predict k n ops v'"
        by (auto split: option.splits)
      from client_inv_call[where chk = chk, OF c v x] st Expect Cons show ?thesis by simp
    next
      case (Read chk)
      with Cons p have "calm_mode (vmode v)" "chk (of_nat (settled v)) = None" "predict k n ops v" by simp_all
      moreover from this(1) v have "length (finished (mem (pool_sys s))) = settled v"
        by (auto simp: sees_defs calm_mode_def)
      ultimately show ?thesis using st Read Cons c v None r
        by (auto simp: client_inv_def foretold_def)
    next
      case Nap
      with st Cons c v p None r show ?thesis by (auto simp: client_inv_def foretold_def)
    qed
  qed
next
  case (Some fc)
  then obtain f chk where fc: "doing s = Some (f, chk)" by (cases fc) auto
  with c obtain v r v' where x: "chk r = None" "predict k n (todo s) v'"
    and d: "during k n f v r v' (pool_sys s)" by (auto simp: client_inv_def foretold_def)
  from n fc obtain r' where r': "pcs (pool_sys s) (Client 0) = Returned r'"
    and s': "s' = s\<lparr>doing := None, verdict := chk r'\<rparr>"
    by (auto simp: returned_value_Some split: if_splits option.splits)
  from d r' have "r' = r" "sees k n v' (pool_sys s)" by (auto simp: during_def)
  with x r' c show ?thesis by (auto simp: client_inv_def foretold_def s')
qed

lemma client_inv_init:
  assumes "client_init k n prog s" and "predict k n prog first_view"
  shows "client_inv k n s"
proof -
  from assms(1) obtain junk where junk: "length junk = unat n" and k: "0 < k" "unat k \<le> 2 ^ 32" "0 < n"
    and s: "pool_sys s = new_system junk k n" "todo s = prog" "doing s = None" "verdict s = None"
    by (auto simp: client_start_def pool_with_def)
  let ?p = "new_system junk k n"
  have "thpool_init ?p" unfolding thpool_init_def using junk k by blast
  then have "reach thpool_init lone_next ?p" by (rule reach_init)
  moreover have "pcs ?p (Client c) = Returned RVoid" for c by (simp add: new_system_def Let_def)
  moreover have "sees k n first_view ?p"
    by (simp add: sees_defs first_view_def resting_def new_system_def new_pool_def ring_new_def Let_def)
  ultimately show ?thesis using assms(2)
    by (auto simp: client_inv_def no_others_def foretold_def s)
qed

lemma client_reach_inv:
  assumes "reach (client_init k n prog) thpool_client_next s" and "predict k n prog first_view"
  shows "client_inv k n s"
  using assms(1)
proof (induction rule: reach.induct)
  case (reach_init s)
  then show ?case using client_inv_init assms(2) by blast
next
  case (reach_step s e s')
  then show ?case using client_inv_other client_inv_proceed by (cases e) blast+
qed

section \<open>Soundness and completion\<close>

lemma client_verdict:
  assumes "predict workers qsize prog first_view"
    and "reach (client_init workers qsize prog) thpool_client_next s"
  shows "verdict s = None"
  using client_reach_inv[OF assms(2,1)] by (simp add: client_inv_def)

lemma client_done:
  assumes "predict workers qsize prog first_view"
    and "reach (client_init workers qsize prog) thpool_client_next s"
    and "at_rest (pool_sys s)" and "thpool_client_next Proceed s = None"
  shows "todo s = [] \<and> doing s = None"
proof -
  note c = client_reach_inv[OF assms(2,1)]
  then have none: "verdict s = None" and fore: "foretold workers qsize s"
    by (simp_all add: client_inv_def)
  have inv: "thpool_inv (pool_sys s)" "stop_inv (pool_sys s)" "live_inv (pool_sys s)" "lone_inv (pool_sys s)"
    using c lone_pool.reach_inv by (auto simp: client_inv_def)
  show ?thesis
  proof (cases "doing s")
    case None
    with fore obtain r where r: "pcs (pool_sys s) (Client 0) = Returned r" by (auto simp: foretold_def)
    have "start_op thpool_service (todo s) s = None" using assms(4) none None by simp
    with r None show ?thesis
      by (cases "(thpool_service, todo s, s)" rule: start_op.cases) (auto simp: start_call_def)
  next
    case (Some fc)
    then obtain f chk where fc: "doing s = Some (f, chk)" by (cases fc) auto
    with fore obtain v r v' where x: "expects workers qsize f v = Some (r, v')"
      and d: "during workers qsize f v r v' (pool_sys s)" by (auto simp: foretold_def)
    have "\<exists>q. pcs (pool_sys s) (Client 0) = InWait q"
    proof (rule at_rest_points[OF inv(1,2) assms(3), of "Client 0"])
      fix r' assume "pcs (pool_sys s) (Client 0) = Returned r'"
      with assms(4) none fc show ?thesis by simp
    next
      assume "pcs (pool_sys s) (Client 0) = InWorker W_Blocked"
      moreover have "role_ok (mem (pool_sys s)) (Client 0) (pcs (pool_sys s) (Client 0))"
        using inv(1) by (simp add: thpool_inv_def role_inv_def)
      ultimately show ?thesis by (simp add: role_ok_def)
    qed simp
    then obtain q where q: "pcs (pool_sys s) (Client 0) = InWait q" by blast
    with d have "f = Wait" and v: "sees workers qsize v (pool_sys s)"
      by (cases f; auto simp: during_def at_point_def)+
    with x have "vmode v \<noteq> Gone" by auto
    with v have "shutdown (mem (pool_sys s)) = 0" by (simp add: sees_defs)
    then have "exited (mem (pool_sys s)) = {}" using inv(1) by (auto simp: thpool_inv_def drain_inv_def)
    from lone_waiter_rests[OF inv assms(3) this, of "Client 0" q] q show ?thesis by simp
  qed
qed

text \<open>
  A single-threaded client of the locking pool can be reasoned about sequentially: when the
  prediction of its program finds that no assertion fails, none fails in any interleaving of
  the program with the workers of the pool.
\<close>

theorem thpool_client_sound:
  assumes "predict workers qsize prog first_view"
    and "reach (client_init workers qsize prog) thpool_client_next s"
  shows "verdict s = None"
  by (rule client_verdict[OF assms])

text \<open>
  Such a client also gets through: a state in which neither the pool nor the client can make
  a step is one where the program has run to its end; no call of it is left inside the pool.
\<close>

theorem thpool_client_completes:
  assumes "predict workers qsize prog first_view"
    and "reach (client_init workers qsize prog) thpool_client_next s"
    and "at_rest (pool_sys s)" and "thpool_client_next Proceed s = None"
  shows "todo s = [] \<and> doing s = None"
  by (rule client_done[OF assms])

text \<open>A task is added and waited for; then nothing is active.\<close>

definition small_prog :: "call client_op list" where
  "small_prog = [Do (Add example_task), Do Wait, Expect Active (\<lambda>r. assert_equal_u 0 (ret_value r) [] 1 None),
     Read (count_is 1 [] 2 None)]"

lemma small_prog_predicted: "predict 1 1 small_prog first_view"
  by (simp add: small_prog_def first_view_def calm_mode_def assert_equal_u_def assert_equal_def count_is_def)

definition small_start :: thpool_run where
  "small_start = \<lparr>pool_sys = small_pool 1, todo = small_prog, doing = None, verdict = None\<rparr>"

definition sched_small_prog :: "event client_event list" where
  "sched_small_prog = Proceed # map Other (steps (Client 0) 5) @ [Proceed, Proceed] @
     map Other (steps (Client 0) 5 @ steps (Worker 0) 11 @ [Step (Worker 0) (Client 0)] @
       steps (Worker 0) 2 @ steps (Client 0) 7) @
     [Proceed, Proceed] @ map Other (steps (Client 0) 1) @ [Proceed, Proceed]"

lemma small_start_init: "client_init 1 1 small_prog small_start"
proof -
  have "pool_with 1 1 (small_pool 1)"
    unfolding pool_with_def small_pool_def by (intro conjI exI[of _ "replicate (unat 1) example_task"]) simp_all
  then show ?thesis by (simp add: client_start_def small_start_def)
qed

definition small_end :: thpool_run where
  "small_end = \<lparr>pool_sys = state_lone\<lparr>pcs := (pcs state_lone)(Client 0 := Returned (RSize 0))\<rparr>,
     todo = [], doing = None, verdict = None\<rparr>"

lemma run_small_prog: "run thpool_client_next sched_small_prog small_start = Some small_end"
  by (simp add: sched_small_prog_def small_start_def small_end_def small_prog_def start_call_def
      count_is_def assert_equal_def assert_equal_u_def state_lone_def eval_pool fun_upd_twist)

lemma reach_small_end: "reach (client_init 1 1 small_prog) thpool_client_next small_end"
  by (rule reach_run[OF run_small_prog]) (rule reach_init, rule small_start_init)

theorem thpool_client_sound_witness:
  "run thpool_client_next sched_small_prog small_start = Some small_end \<and> verdict small_end = None"
  using thpool_client_sound[OF small_prog_predicted reach_small_end] run_small_prog by blast

lemma small_end_at_rest: "at_rest (pool_sys small_end)"
  unfolding at_rest_def
proof (intro allI)
  fix i v
  show "thpool_next (Step i v) (pool_sys small_end) = None"
    by (cases i) (simp_all add: small_end_def state_lone_def eval_pool unat_eq_zero)
qed

theorem thpool_client_completes_witness:
  "at_rest (pool_sys small_end) \<and> todo small_end = []"
proof -
  have "thpool_client_next Proceed small_end = None" by (simp add: small_end_def)
  from thpool_client_completes[OF small_prog_predicted reach_small_end small_end_at_rest this]
    small_end_at_rest
  show ?thesis by blast
qed

end
