(* ===== verification/ThpoolTests.thy ===== *)
theory ThpoolTests
  imports ThpoolClient
begin

text \<open>
  The test programs of the locking pool under \<open>src/threads/test/thpool\<close> that have one client
  thread, as programs of \<open>ClientProgram\<close>: what each test does after \<open>thpool_create\<close>, with
  its assertions and their places. Every task is the job of the test, which adds one to \<open>n\<close>.
\<close>

section \<open>The programs\<close>

text \<open>\<open>CTEST(thpool_api, test)\<close>, first pool and second pool.\<close>

definition api_first :: "task_t \<Rightarrow> call client_op list" where
  "api_first sleep_job = [Do (Add sleep_job), Do (Add sleep_job), Do (Add sleep_job), Do (Add sleep_job),
     Do Wait,
     Expect Active (result_is_u 0 ''thpool_api.c'' 37),
     Expect Total (result_is_u 0 ''thpool_api.c'' 38),
     Read (count_is 4 ''thpool_api.c'' 39 None),
     Do Destroy]"

definition api_second :: "task_t \<Rightarrow> call client_op list" where
  "api_second sleep_job = [Do (Add sleep_job), Do (Add sleep_job),
     Do Wait,
     Expect Active (result_is_u 0 ''thpool_api.c'' 51),
     Expect Total (result_is_u 0 ''thpool_api.c'' 52),
     Read (count_is 2 ''thpool_api.c'' 53 None),
     Do Destroy]"

text \<open>\<open>wait_jobs\<close>; the loop runs with \<open>i\<close> from \<open>start\<close>, \<open>k\<close> rounds to go.\<close>

fun wait_loop :: "task_t \<Rightarrow> bool \<Rightarrow> nat \<Rightarrow> nat \<Rightarrow> call client_op list" where
  "wait_loop sleep_1 each i 0 = []"
| "wait_loop sleep_1 each i (Suc k) =
     Do (Add sleep_1) #
     (if each then [Do Wait, Read (count_is (of_nat i + 1) ''thpool_wait.c'' 25 None)] else []) @
     wait_loop sleep_1 each (i + 1) k"

definition wait_jobs :: "task_t \<Rightarrow> size_t \<Rightarrow> bool \<Rightarrow> call client_op list" where
  "wait_jobs sleep_1 num_jobs wait_each_job =
     wait_loop sleep_1 wait_each_job 0 (unat num_jobs) @
     (if \<not> wait_each_job then [Do Wait, Read (count_is num_jobs ''thpool_wait.c'' 30 None)] else []) @
     [Do Destroy]"

text \<open>\<open>CTEST(thpool_no_work, test)\<close>\<close>

definition no_work :: "call client_op list" where
  "no_work = [Do Destroy]"

text \<open>\<open>CTEST(thpool_pause_resume, test)\<close>, with \<open>jobs = 2\<close>\<close>

definition pause_resume :: "task_t \<Rightarrow> call client_op list" where
  "pause_resume increment = [Do Pause, Nap, Do (Add increment), Do (Add increment), Nap,
     Read (count_is 0 ''thpool_pause_resume.c'' 33 (Some ''thpool_pause not work'')),
     Do Resume, Nap, Do Wait,
     Read (count_is 2 ''thpool_pause_resume.c'' 41 (Some ''thpool_resume not work'')),
     Do Destroy]"

text \<open>\<open>CTEST(thpool_worker, try_once)\<close>, with \<open>jobs = 2\<close>\<close>

definition worker_try_once :: "task_t \<Rightarrow> call client_op list" where
  "worker_try_once increment = [Do Pause, Nap, Do (Add increment), Do (Add increment), Nap,
     Read (count_is 0 ''thpool_worker_try_once.c'' 32 (Some ''thpool_pause not work'')),
     Expect TryOnce (result_is 0 ''thpool_worker_try_once.c'' 35 ''thpool_worker_try_once can't process task''),
     Expect TryOnce (result_is 0 ''thpool_worker_try_once.c'' 35 ''thpool_worker_try_once can't process task''),
     Expect TryOnce (result_is (- 1) ''thpool_worker_try_once.c'' 38 ''thpool_worker_try_once proccess task, it's error''),
     Read (count_is 2 ''thpool_worker_try_once.c'' 40 (Some ''thpool_resume not work'')),
     Do Destroy]"

text \<open>Each test with the arguments of its \<open>thpool_create\<close>; \<open>job\<close> adds one to \<open>n\<close>.\<close>

definition thpool_tests :: "task_t \<Rightarrow> (size_t \<times> size_t \<times> call client_op list) list" where
  "thpool_tests job = [(10, 10, api_first job), (5, 5, api_second job),
     (1, 1000, wait_jobs job 1000 True), (4, 1000, wait_jobs job 1000 True),
     (1, 1000, wait_jobs job 1000 False), (8, 1000, wait_jobs job 1000 False),
     (8, 4, no_work), (4, 2, pause_resume job), (4, 2, worker_try_once job)]"

section \<open>They are foretold to pass\<close>

lemma count_is_nat: "k < 2 ^ 31 \<Longrightarrow> k' = of_nat k \<Longrightarrow> count_is k' fl line descr (of_nat k) = None"
  by (simp add: count_is_def assert_equal_def scast_count)

lemma wait_loop_each:
  "0 < n \<Longrightarrow> i + k < 2 ^ 31 \<Longrightarrow>
    predict w n (wait_loop job True i k @ ops) \<lparr>adds = i, settled = i, vmode = Quiet\<rparr> =
    predict w n ops \<lparr>adds = i + k, settled = i + k, vmode = Quiet\<rparr>"
proof (induction k arbitrary: i)
  case (Suc k)
  have "count_is (of_nat i + 1) fl line descr (of_nat (Suc i)) = None" for fl line descr
    by (rule count_is_nat) (use Suc.prems in simp_all)
  moreover have "n \<noteq> 0" using Suc.prems(1) by auto
  ultimately show ?case using Suc by (simp add: calm_mode_def unat_gt_0)
qed simp

lemma wait_loop_all:
  "a + k \<le> unat n \<Longrightarrow> m = Quiet \<and> a = 0 \<or> m = Busy \<Longrightarrow>
    predict w n (wait_loop job False i k @ ops) \<lparr>adds = a, settled = 0, vmode = m\<rparr> =
    predict w n ops \<lparr>adds = a + k, settled = 0, vmode = (if k = 0 then m else Busy)\<rparr>"
proof (induction k arbitrary: a m i)
  case (Suc k)
  from Suc.prems show ?case using Suc.IH[of "Suc a" Busy "i + 1"] by auto
qed simp

lemma wait_jobs_predicted:
  assumes "0 < num_jobs" and "unat num_jobs < 2 ^ 31"
  shows "predict w num_jobs (wait_jobs job num_jobs wait_each_job) first_view"
proof -
  have c: "count_is num_jobs fl line descr (of_nat (unat num_jobs)) = None" for fl line descr
    by (rule count_is_nat) (use assms(2) in simp_all)
  show ?thesis
  proof (cases wait_each_job)
    case True
    with wait_loop_each[of num_jobs 0 "unat num_jobs" w job "[Do Destroy]"] assms show ?thesis
      by (simp add: wait_jobs_def first_view_def)
  next
    case False
    have "unat num_jobs \<noteq> 0" using assms(1) by (simp add: unat_gt_0)
    with False wait_loop_all[of 0 "unat num_jobs" num_jobs Quiet w job 0] assms c show ?thesis
      by (simp add: wait_jobs_def first_view_def calm_mode_def)
  qed
qed

lemmas test_simps = first_view_def calm_mode_def result_is_def result_is_u_def count_is_def
  assert_equal_def assert_equal_u_def

lemma tests_predicted:
  assumes "(workers, qsize, prog) \<in> set (thpool_tests job)"
  shows "predict workers qsize prog first_view"
proof -
  have "predict 10 10 (api_first job) first_view" "predict 5 5 (api_second job) first_view"
    "predict 8 4 no_work first_view" "predict 4 2 (pause_resume job) first_view"
    "predict 4 2 (worker_try_once job) first_view"
    by (simp_all add: api_first_def api_second_def no_work_def pause_resume_def worker_try_once_def test_simps)
  moreover have "predict w 1000 (wait_jobs job 1000 each) first_view" for w each
    by (rule wait_jobs_predicted) simp_all
  ultimately show ?thesis using assms by (auto simp: thpool_tests_def)
qed

section \<open>They pass\<close>

text \<open>
  C7: The single-client tests of the locking pool pass in every interleaving of the test with
  the workers: no assertion of them fails, and when nothing can move any more the test has
  run to its end.
\<close>

theorem thpool_tests_pass:
  assumes "(workers, qsize, prog) \<in> set (thpool_tests job)"
    and "reach (client_init workers qsize prog) thpool_client_next s"
  shows "verdict s = None \<and>
    (at_rest (pool_sys s) \<and> thpool_client_next Proceed s = None \<longrightarrow> todo s = [] \<and> doing s = None)"
  using client_verdict[OF tests_predicted[OF assms(1)] assms(2)]
    client_done[OF tests_predicted[OF assms(1)] assms(2)] by blast

text \<open>\<open>worker_try_once\<close> up to the call of \<open>thpool_destroy\<close>, while the workers do not run.\<close>

definition test_start :: "size_t \<Rightarrow> size_t \<Rightarrow> call client_op list \<Rightarrow> thpool_run" where
  "test_start workers qsize prog = \<lparr>pool_sys = new_system (replicate (unat qsize) example_task) workers qsize,
     todo = prog, doing = None, verdict = None\<rparr>"

lemma test_start_init:
  assumes "0 < workers" and "unat workers \<le> 2 ^ 32" and "0 < qsize"
  shows "client_init workers qsize prog (test_start workers qsize prog)"
proof -
  have "pool_with workers qsize (new_system (replicate (unat qsize) example_task) workers qsize)"
    unfolding pool_with_def by (intro conjI exI[of _ "replicate (unat qsize) example_task"]) (use assms in simp_all)
  then show ?thesis by (simp add: client_start_def test_start_def)
qed

lemma test_start_reach:
  assumes "0 < workers" and "unat workers \<le> 2 ^ 32" and "0 < qsize"
    and "run thpool_client_next es (test_start workers qsize prog) = Some s"
  shows "reach (client_init workers qsize prog) thpool_client_next s"
  using reach_run[OF assms(4) reach_init] test_start_init[OF assms(1-3)] by blast

definition client_call :: "nat \<Rightarrow> event client_event list" where
  "client_call k = Proceed # map Other (steps (Client 0) k) @ [Proceed]"

definition sched_test :: "event client_event list" where
  "sched_test = client_call 1 @ [Proceed] @ client_call 5 @ client_call 5 @ [Proceed, Proceed] @
     client_call 7 @ client_call 7 @ client_call 3 @ [Proceed]"

lemmas eval_test = test_start_def client_call_def start_call_def new_system_def new_pool_def ring_new_def
  prim_defs ring_full_def ring_put_def ring_advance_def ring_front_def cond_signal_def test_simps

theorem thpool_tests_pass_witness:
  "\<exists>s. run thpool_client_next sched_test (test_start 4 2 (worker_try_once example_task)) = Some s \<and>
     todo s = [Do Destroy] \<and> length (finished (mem (pool_sys s))) = 2 \<and> verdict s = None"
proof -
  let ?prog = "worker_try_once example_task"
  obtain s where r: "run thpool_client_next sched_test (test_start 4 2 ?prog) = Some s"
    and e: "todo s = [Do Destroy]" "length (finished (mem (pool_sys s))) = 2"
    by (simp add: sched_test_def worker_try_once_def eval_test)
  have "(4, 2, ?prog) \<in> set (thpool_tests example_task)" by (simp add: thpool_tests_def)
  moreover have "reach (client_init 4 2 ?prog) thpool_client_next s"
    by (rule test_start_reach[OF _ _ _ r]) simp_all
  ultimately have "verdict s = None" using thpool_tests_pass by blast
  with r e show ?thesis by blast
qed

text \<open>
  \<open>wait_jobs\<close> passes with any number of workers, and any number of jobs the counter can hold,
  whether it waits for each job or for all.
\<close>

theorem wait_jobs_passes:
  assumes "0 < num_jobs" and "unat num_jobs < 2 ^ 31"
    and "reach (client_init num_thpool num_jobs (wait_jobs sleep_1 num_jobs wait_each_job)) thpool_client_next s"
  shows "verdict s = None"
  by (rule client_verdict[OF wait_jobs_predicted[OF assms(1,2)] assms(3)])

definition sched_wait_jobs :: "event client_event list" where
  "sched_wait_jobs = client_call 5 @ Proceed # map Other (steps (Client 0) 5 @ steps (Worker 0) 11 @
     [Step (Worker 0) (Client 0)] @ steps (Client 0) 0 @ steps (Worker 0) 2 @ steps (Client 0) 7) @ [Proceed, Proceed]"

theorem wait_jobs_passes_witness:
  "\<exists>s. run thpool_client_next sched_wait_jobs (test_start 1 1 (wait_jobs example_task 1 True)) = Some s \<and>
     todo s = [Do Destroy] \<and> verdict s = None"
proof -
  let ?prog = "wait_jobs example_task 1 True"
  obtain s where r: "run thpool_client_next sched_wait_jobs (test_start 1 1 ?prog) = Some s"
    and e: "todo s = [Do Destroy]"
    by (simp add: sched_wait_jobs_def wait_jobs_def eval_test fun_upd_twist)
  have "reach (client_init 1 1 ?prog) thpool_client_next s"
    by (rule test_start_reach[OF _ _ _ r]) simp_all
  with wait_jobs_passes[of 1 1 example_task True s] have "verdict s = None" by simp
  with r e show ?thesis by blast
qed

end
