(* ===== verification/ThpoolEnds.thy ===== *)
theory ThpoolEnds
  imports ThpoolQuiet
begin

text \<open>
  The locking pool comes to rest. While it is not paused, nobody calls it and no thread wakes
  without a signal, the number of steps its threads can make is bounded: every task is run
  once, every signal wakes one thread once, and what is woken without need goes back to
  sleep. The bound is a sum over the program points and the queue.
\<close>

section \<open>Fuel\<close>

text \<open>
  What the steps from a program point on can cost, up to the next point at which the thread
  sleeps or has returned. A thread that signals pays for the thread it may wake: 16 steps for
  a worker, 9 for a client in \<open>thpool_wait\<close>, all workers for a broadcast; one that adds a
  task pays 10 for its execution.
\<close>

fun worker_cost :: "wpc \<Rightarrow> int" where
  "worker_cost W_Lock = 17" | "worker_cost W_Test = 15" | "worker_cost W_Active = 14"
| "worker_cost W_NotifyEmpty = 13" | "worker_cost W_Shutdown = 3" | "worker_cost W_Exit = 2"
| "worker_cost W_Wait = 2" | "worker_cost W_Blocked = 16" | "worker_cost W_Hold = 14"
| "worker_cost W_HoldUnlock = 0" | "worker_cost W_Sleep = 0" | "worker_cost W_Inc = 13"
| "worker_cost W_Take = 12" | "worker_cost (W_Unlock t) = 20" | "worker_cost (W_Run t) = 19"
| "worker_cost W_Dec = 18"

fun try_once_cost :: "tpc \<Rightarrow> int" where
  "try_once_cost T_Lock = 8" | "try_once_cost T_Test = 7" | "try_once_cost T_EmptyUnlock = 1"
| "try_once_cost T_Inc = 6" | "try_once_cost T_Take = 5" | "try_once_cost (T_Unlock t) = 4"
| "try_once_cost (T_Run t) = 3" | "try_once_cost T_Dec = 2"

fun add_cost :: "apc \<Rightarrow> int" where
  "add_cost (A_Lock t) = 32" | "add_cost (A_Test t) = 31" | "add_cost A_FullUnlock = 3"
| "add_cost A_Yield = 2" | "add_cost (A_Put t) = 30" | "add_cost A_Signal = 19"
| "add_cost A_Unlock = 2"

fun add_try_cost :: "rpc \<Rightarrow> int" where
  "add_try_cost (R_Loop t k) = 5 * int (nat (k + 1)) + 32"
| "add_try_cost (R_Lock t k) = 5 * int (nat k) + 36"
| "add_try_cost (R_Test t k) = 5 * int (nat k) + 35"
| "add_try_cost (R_FullUnlock t k) = 5 * int (nat k) + 34"
| "add_try_cost (R_Sleep t k) = 5 * int (nat k) + 33"
| "add_try_cost (R_Put t) = 29" | "add_try_cost R_Signal = 18" | "add_try_cost R_Unlock = 1"

fun misc_cost :: "mpc \<Rightarrow> int" where
  "misc_cost M_Pause = 1" | "misc_cost M_Resume = 21" | "misc_cost M_ResumeLock = 20"
| "misc_cost M_ResumeSignal = 19" | "misc_cost M_ResumeUnlock = 2" | "misc_cost M_Active = 1"
| "misc_cost M_TotalLock = 3" | "misc_cost M_TotalRead = 2" | "misc_cost (M_TotalUnlock n) = 1"
| "misc_cost M_WorkersLock = 3" | "misc_cost M_WorkersRead = 2" | "misc_cost (M_WorkersUnlock n) = 1"

fun wait_cost :: "epc \<Rightarrow> int" where
  "wait_cost E_Lock = 7" | "wait_cost E_Count = 6" | "wait_cost (E_Active qc) = 5"
| "wait_cost (E_Test qc ac) = 4" | "wait_cost E_Return = 1" | "wait_cost E_Wait = 2"
| "wait_cost E_Blocked = 9" | "wait_cost E_Unlock = 8"

fun shutdown_cost :: "int \<Rightarrow> hpc \<Rightarrow> int" where
  "shutdown_cost n (H_Store d) = 17 * n + 6" | "shutdown_cost n (H_Lock d) = 17 * n + 5"
| "shutdown_cost n (H_Broadcast d) = 17 * n + 4" | "shutdown_cost n (H_Unlock d) = n + 3"
| "shutdown_cost n (H_Join d k) = int (nat (n - uint k)) + 2" | "shutdown_cost n H_Free = 1"

text \<open>\<open>n\<close> is the number of workers.\<close>

fun cost :: "int \<Rightarrow> pc \<Rightarrow> int" where
  "cost n (InWorker p) = worker_cost p"
| "cost n (InTryOnce p) = try_once_cost p"
| "cost n (InAdd p) = add_cost p"
| "cost n (InAddTry p) = add_try_cost p"
| "cost n (InMisc p) = misc_cost p"
| "cost n (InWait p) = wait_cost p"
| "cost n (InShutdown p) = shutdown_cost n p"
| "cost n (Returned r) = 0"

text \<open>A thread that sleeps costs nothing; a queued task costs what its worker does for it.\<close>

definition shared_cost :: "pool \<Rightarrow> int" where
  "shared_cost m = 10 * uint (queue_count (queue m)) -
     16 * int (card (notify m)) - 9 * int (card (notify_empty m))"

definition steps_left :: "system \<Rightarrow> int" where
  "steps_left s = tsum (cost (uint (thread_count (mem s)))) (pcs s) + shared_cost (mem s)"

text \<open>The pool is not paused, and nobody is about to pause it.\<close>

fun not_pausing :: "pc \<Rightarrow> bool" where
  "not_pausing (InMisc p) \<longleftrightarrow> p \<noteq> M_Pause"
| "not_pausing (InWorker p) \<longleftrightarrow> p \<noteq> W_HoldUnlock \<and> p \<noteq> W_Sleep"
| "not_pausing _ \<longleftrightarrow> True"

definition unpaused :: "system \<Rightarrow> bool" where
  "unpaused s \<longleftrightarrow> hold (mem s) = 0 \<and> (\<forall>i. not_pausing (pcs s i))"

section \<open>Every step uses fuel\<close>

lemma exec_unpaused:
  "exec i v p m = Some (m', p') \<Longrightarrow> hold m = 0 \<and> not_pausing p \<longrightarrow> hold m' = 0 \<and> not_pausing p'"
  by (erule exec_points; erule step_elims; auto simp: outcome_simps step_defs split: if_splits)

lemma card_signal: "cond_signal v W = Some W' \<Longrightarrow> int (card W) \<le> int (card W') + 1" for W :: "tid set"
  by (auto elim!: cond_signal_cases simp: card_Diff_singleton)

lemma count_down: "c \<noteq> 0 \<Longrightarrow> uint (c - 1) = uint c - 1" for c :: size_t
  using unat_minus_one[of c] by (simp add: uint_nat unat_gt_0 of_nat_diff Suc_le_eq del: of_nat_unat int_nat_eq)

lemma count_up: "uint (c + 1) \<le> uint c + 1" for c :: size_t
  using zmod_le_nonneg_dividend[of "uint c + 1" "2 ^ 64"] by (simp add: uint_word_ariths)

lemma join_cost: "k < n \<Longrightarrow> uint (k + 1) = uint k + 1" for k n :: size_t
  using unsigned_less[of n, where 'a = int] by (simp add: uint_word_ariths word_less_def)

lemma cost_nonneg: "0 \<le> n \<Longrightarrow> 0 \<le> cost n p"
proof (cases p)
  case (InWorker q) then show ?thesis by (cases q) auto
next
  case (InTryOnce q) then show ?thesis by (cases q) auto
next
  case (InAdd q) then show ?thesis by (cases q) auto
next
  case (InAddTry q) then show ?thesis by (cases q) auto
next
  case (InMisc q) then show ?thesis by (cases q) auto
next
  case (InWait q) then show ?thesis by (cases q) auto
next
  case (InShutdown q) then show "0 \<le> n \<Longrightarrow> ?thesis" by (cases q) auto
qed simp

text \<open>Only workers wait on \<open>pool->notify\<close>.\<close>

lemma card_workers:
  assumes "unat (thread_count m) \<le> 2 ^ 32"
  shows "card {i. is_worker m i} = unat (thread_count m)"
proof -
  have "{i. is_worker m i} = Worker ` {w. unat w < unat (thread_count m)}"
    by (rule set_eqI, case_tac x) auto
  then show ?thesis using assms by (simp add: card_image inj_on_def card_words_below)
qed

lemma card_notify:
  assumes "thpool_inv s"
  shows "int (card (notify (mem s))) \<le> uint (thread_count (mem s))"
proof -
  have "is_worker (mem s) i" if "i \<in> notify (mem s)" for i
  proof -
    have "pcs s i = InWorker W_Blocked" using that assms by (simp add: thpool_inv_def waiters_inv_def)
    moreover have "role_ok (mem s) i (pcs s i)" using assms by (simp add: thpool_inv_def role_inv_def)
    ultimately show ?thesis by (auto simp: role_ok_def split: if_splits)
  qed
  then have "card (notify (mem s)) \<le> card {i. is_worker (mem s) i}" by (intro card_mono) auto
  with assms card_workers[of "mem s"] show ?thesis
    by (simp add: thpool_inv_def size_inv_def uint_nat del: of_nat_unat)
qed

text \<open>The waiters are where the library left them, as \<open>waiters_inv\<close> has it.\<close>

definition sleeps_only :: "tid \<Rightarrow> pc \<Rightarrow> pool \<Rightarrow> bool" where
  "sleeps_only i p m \<longleftrightarrow> (i \<in> notify m \<longrightarrow> p = InWorker W_Blocked) \<and>
     (i \<in> notify_empty m \<longrightarrow> p = InWait E_Blocked)"

lemma exec_cost:
  "exec i v p m = Some (m', p') \<Longrightarrow> knows p m \<and> hold m = 0 \<and> not_pausing p \<and> sleeps_only i p m \<and>
      int (card (notify m)) \<le> uint (thread_count m) \<longrightarrow>
    cost (uint (thread_count m)) p' + shared_cost m' < cost (uint (thread_count m)) p + shared_cost m"
  by (insert count_up[of "queue_count (queue m)"], erule exec_points; erule step_elims;
      auto simp: outcome_simps step_defs shared_cost_def sleeps_only_def count_down join_cost cond_broadcast_def
        word_less_def
      dest!: card_signal split: if_splits)

lemma step_uses_fuel:
  assumes "thpool_inv s" and "unpaused s" and "thpool_next (Step i v) s = Some s'"
  shows "unpaused s' \<and> steps_left s' < steps_left s \<and> thread_count (mem s') = thread_count (mem s)"
proof -
  let ?n = "uint (thread_count (mem s))"
  obtain m p where e: "exec i v (pcs s i) (mem s) = Some (m, p)"
    and s': "s' = \<lparr>mem = m, pcs = (pcs s)(i := p)\<rparr>"
    using assms(3) by (auto simp only: step_Some)
  have "knows (pcs s i) (mem s)" "sleeps_only i (pcs s i) (mem s)"
    using assms(1) by (auto simp: thpool_inv_def knows_inv_def waiters_inv_def sleeps_only_def)
  with exec_cost[OF e] exec_unpaused[OF e] assms(2) card_notify[OF assms(1)]
  have "cost ?n p + shared_cost m < cost ?n (pcs s i) + shared_cost (mem s)" "hold m = 0" "not_pausing p"
    by (auto simp: unpaused_def)
  with tsum_upd[of "cost ?n" "pcs s" i p] exec_frame[OF e] assms(2) show ?thesis
    by (auto simp: unpaused_def steps_left_def s')
qed

lemma steps_left_nonneg:
  assumes "thpool_inv s"
  shows "0 \<le> steps_left s"
proof -
  let ?n = "uint (thread_count (mem s))" and ?N = "notify (mem s)" and ?E = "notify_empty (mem s)"
  have "16 * of_bool (i \<in> ?N) + 9 * of_bool (i \<in> ?E) \<le> cost ?n (pcs s i)" for i
    using assms cost_nonneg[of ?n "pcs s i"] by (auto simp: thpool_inv_def waiters_inv_def)
  then have "(\<Sum>i\<in>UNIV. 16 * of_bool (i \<in> ?N) + 9 * of_bool (i \<in> ?E)) \<le> tsum (cost ?n) (pcs s)"
    unfolding tsum_def by (rule sum_mono)
  moreover have "(\<Sum>i\<in>UNIV. 16 * of_bool (i \<in> ?N) + 9 * of_bool (i \<in> ?E)) = 16 * int (card ?N) + 9 * int (card ?E)"
    by (simp add: sum.distrib sum_distrib_left[symmetric] of_bool_def sum.If_cases)
  moreover have "0 \<le> uint (queue_count (queue (mem s)))" by simp
  ultimately show ?thesis unfolding steps_left_def shared_cost_def by linarith
qed

section \<open>The pool comes to rest\<close>

fun is_step :: "event \<Rightarrow> bool" where
  "is_step (Step i v) \<longleftrightarrow> True"
| "is_step _ \<longleftrightarrow> False"

interpretation quiescing: bounded_steps thpool_next is_step is_step
  "\<lambda>s. thpool_inv s \<and> unpaused s" "\<lambda>s. nat (steps_left s)"
proof
  fix s s' e
  assume good: "thpool_inv s \<and> unpaused s" and e: "is_step e" and n: "thpool_next e s = Some s'"
  from e obtain i v where "e = Step i v" by (cases e) auto
  with step_uses_fuel good n have u: "unpaused s'" "steps_left s' < steps_left s" by blast+
  have inv: "thpool_inv s'" using good n thpool.inv_next by blast
  with u show "thpool_inv s' \<and> unpaused s'" by blast
  from u steps_left_nonneg[OF inv] show "nat (steps_left s') \<le> nat (steps_left s) - 1"
    and "0 < nat (steps_left s)" by linarith+
qed simp

lemma at_rest_steps: "(\<forall>e. is_step e \<longrightarrow> thpool_next e s = None) \<longleftrightarrow> at_rest s"
  unfolding at_rest_def by (metis event.exhaust is_step.simps)

text \<open>
  C16: The locking pool comes to rest: from a state in which it is not paused and nobody is about
  to pause it, as long as nobody calls it and no thread wakes without a signal, its threads make
  at most \<open>steps_left\<close> steps, whatever their order; and however they start they can go on to a
  state at rest, in which, unless a worker has returned after a shutdown, nothing is queued and
  every task accepted has been run.
\<close>

theorem thpool_quiesces:
  assumes "reach thpool_init thpool_next s" and "unpaused s"
    and "run thpool_next es s = Some s'" and "list_all is_step es"
  shows "int (length es) \<le> steps_left s \<and>
    (\<exists>es' s''. list_all is_step es' \<and> run thpool_next es' s' = Some s'' \<and> at_rest s'' \<and>
      (exited (mem s'') = {} \<longrightarrow> ring_items (queue (mem s'')) = [] \<and>
        mset (finished (mem s'')) = mset (submitted (mem s''))))"
proof -
  have good: "thpool_inv s \<and> unpaused s" using reach_thpool_inv[OF assms(1)] assms(2) by blast
  from quiescing.run_fuel[OF good assms(4,3)] assms(4)
  have g: "thpool_inv s' \<and> unpaused s'" and "length es \<le> nat (steps_left s)"
    by (simp_all add: filter_id_conv list_all_iff)
  moreover have "0 \<le> steps_left s" using good steps_left_nonneg by blast
  ultimately have "int (length es) \<le> steps_left s" by linarith
  moreover obtain es' s'' where last: "list_all is_step es'" "run thpool_next es' s' = Some s''" "at_rest s''"
    using quiescing.settles[OF g] by (auto simp: at_rest_steps)
  moreover have "reach thpool_init thpool_next s''"
    by (rule reach_run[OF last(2) reach_run[OF assms(3,1)]])
  ultimately show ?thesis using at_rest_state last(3) by blast
qed

text \<open>A task is added to a pool with one worker: 19 steps of the client and the worker.\<close>

theorem thpool_quiesces_witness:
  "\<exists>s. run thpool_next [Call 0 (Add example_task)] (small_pool 1) = Some s \<and>
    run thpool_next (steps (Client 0) 5 @ steps (Worker 0) 14) s = Some state_rest \<and> 19 \<le> steps_left s"
proof -
  let ?es = "steps (Client 0) 5 @ steps (Worker 0) 14"
  obtain s where s: "run thpool_next [Call 0 (Add example_task)] (small_pool 1) = Some s"
      "s = (small_pool 1)\<lparr>pcs := (pcs (small_pool 1))(Client 0 := InAdd (A_Lock example_task))\<rparr>"
    by (simp add: eval_pool)
  have "unpaused s" by (auto simp: unpaused_def s(2) small_pool_def new_system_def new_pool_def Let_def)
  moreover have r: "run thpool_next ?es s = Some state_rest"
    using run_rest s(1) run_append[of thpool_next "[Call 0 (Add example_task)]" ?es "small_pool 1"] by simp
  moreover have "list_all is_step ?es" by simp
  ultimately have "int (length ?es) \<le> steps_left s"
    using thpool_quiesces[OF small_pool_run[OF _ s(1)], of ?es state_rest] by simp
  with s(1) r show ?thesis by (intro exI[of _ s]) simp
qed

end
