(* ===== verification/ThpoolTotal.thy ===== *)
theory ThpoolTotal
  imports ThpoolTests ThpoolEnds
begin

text \<open>
  Total correctness of single-threaded programs over the locking pool. \<open>ThpoolClient\<close> shows
  that their assertions hold if they are reached; here a program that does not pause the pool
  reaches its end in a bounded number of steps of itself and of the workers.
\<close>

section \<open>Fuel of a program\<close>

text \<open>The steps a call can cost the whole system, the start and the end of the call included.\<close>

fun op_cost :: "int \<Rightarrow> call client_op \<Rightarrow> int" where
  "op_cost n (Do f) = cost n (entry f) + 2"
| "op_cost n (Expect f chk) = cost n (entry f) + 2"
| "op_cost n (Read chk) = 1"
| "op_cost n Nap = 1"

definition prog_cost :: "size_t \<Rightarrow> call client_op list \<Rightarrow> int" where
  "prog_cost workers ops = sum_list (map (op_cost (uint workers)) ops)"

fun no_pause :: "call client_op \<Rightarrow> bool" where
  "no_pause (Do f) \<longleftrightarrow> f \<noteq> Pause"
| "no_pause (Expect f chk) \<longleftrightarrow> f \<noteq> Pause"
| "no_pause _ \<longleftrightarrow> True"

text \<open>Steps of the pool's threads and of the program; nobody is woken without a signal.\<close>

fun is_client_step :: "event client_event \<Rightarrow> bool" where
  "is_client_step (Other e) \<longleftrightarrow> is_step e"
| "is_client_step Proceed \<longleftrightarrow> True"

definition run_fuel :: "thpool_run \<Rightarrow> int" where
  "run_fuel s = steps_left (pool_sys s) + prog_cost (thread_count (mem (pool_sys s))) (todo s) + (if doing s = None then 0 else 1)"

definition run_good :: "size_t \<Rightarrow> size_t \<Rightarrow> thpool_run \<Rightarrow> bool" where
  "run_good k n s \<longleftrightarrow> client_inv k n s \<and> unpaused (pool_sys s) \<and> list_all no_pause (todo s)"

lemma prog_cost_nonneg: "0 \<le> prog_cost n ops"
proof -
  have "0 \<le> op_cost (uint n) c" for c by (cases c) (auto intro: add_nonneg_nonneg cost_nonneg)
  then show ?thesis unfolding prog_cost_def by (intro sum_list_nonneg) auto
qed

lemma run_fuel_nonneg: "client_inv k n s \<Longrightarrow> 0 \<le> run_fuel s"
  using steps_left_nonneg[OF pool_inv] prog_cost_nonneg[of _ "todo s"] by (fastforce simp: run_fuel_def)

lemma call_fuel:
  assumes "thpool_next (Call c f) s = Some s'" and "unpaused s" and "f \<noteq> Pause"
  shows "unpaused s' \<and> steps_left s' = steps_left s + cost (uint (thread_count (mem s))) (entry f) \<and>
    thread_count (mem s') = thread_count (mem s)"
proof -
  from assms(1) obtain r where r: "pcs s (Client c) = Returned r"
    and s': "s' = s\<lparr>pcs := (pcs s)(Client c := entry f)\<rparr>" by (auto simp only: call_Some)
  have "not_pausing (entry f)" using assms(3) by (cases f) auto
  with r assms(2) tsum_upd[of "cost (uint (thread_count (mem s)))" "pcs s" "Client c" "entry f"] show ?thesis
    by (auto simp: s' unpaused_def steps_left_def)
qed

lemma client_call_fuel:
  assumes "start_call thpool_service f chk ops s = Some s'" and "unpaused (pool_sys s)" and "f \<noteq> Pause"
  shows "unpaused (pool_sys s') \<and> todo s' = ops \<and> doing s' \<noteq> None \<and>
    thread_count (mem (pool_sys s')) = thread_count (mem (pool_sys s)) \<and>
    steps_left (pool_sys s') = steps_left (pool_sys s) + cost (uint (thread_count (mem (pool_sys s)))) (entry f)"
  using assms call_fuel[of 0 f "pool_sys s"] by (auto simp: start_call_def)

lemma proceed_fuel:
  assumes "thpool_client_next Proceed s = Some s'" and "unpaused (pool_sys s)" and "list_all no_pause (todo s)"
  shows "unpaused (pool_sys s') \<and> list_all no_pause (todo s') \<and> run_fuel s' < run_fuel s"
proof (cases "doing s")
  case None
  with assms(1) have st: "start_op thpool_service (todo s) s = Some s'" by (auto split: if_splits)
  then show ?thesis
  proof (cases "todo s")
    case (Cons op ops)
    with st assms(2,3) None show ?thesis
      by (cases op) (auto simp: run_fuel_def prog_cost_def dest: client_call_fuel)
  qed simp
next
  case (Some fc)
  with assms show ?thesis by (cases fc) (auto simp: run_fuel_def split: if_splits option.splits)
qed

lemma pool_step_fuel:
  assumes "thpool_client_next (Other e) s = Some s'" and "is_step e" and "thpool_inv (pool_sys s)"
    and "unpaused (pool_sys s)"
  shows "unpaused (pool_sys s') \<and> todo s' = todo s \<and> run_fuel s' < run_fuel s"
proof -
  obtain i v where e: "e = Step i v" using assms(2) by (cases e) auto
  with assms(1) obtain p where p: "thpool_next (Step i v) (pool_sys s) = Some p" "s' = s\<lparr>pool_sys := p\<rparr>"
    by (auto simp del: thpool_next.simps)
  with step_uses_fuel[OF assms(3,4) p(1)] show ?thesis by (auto simp: run_fuel_def)
qed

interpretation ending: bounded_steps thpool_client_next is_client_step is_client_step
  "run_good k n" "\<lambda>s. nat (run_fuel s)" for k n
proof
  fix s s' :: thpool_run and e
  assume good: "run_good k n s" and e: "is_client_step e" and nx: "thpool_client_next e s = Some s'"
  have inv: "client_inv k n s'"
    using good nx client_inv_other[of k n s _ s'] client_inv_proceed[of k n s s'] unfolding run_good_def
    by (cases e) blast+
  moreover have u: "unpaused (pool_sys s') \<and> list_all no_pause (todo s') \<and> run_fuel s' < run_fuel s"
  proof (cases e)
    case (Other d)
    with pool_step_fuel[of d s s'] good e nx pool_inv[of k n s] show ?thesis by (simp add: run_good_def del: client_next.simps)
  next
    case Proceed
    with proceed_fuel[of s s'] good nx show ?thesis by (simp add: run_good_def del: client_next.simps)
  qed
  ultimately show "run_good k n s'" by (simp add: run_good_def)
  from u run_fuel_nonneg[OF inv] show "nat (run_fuel s') \<le> nat (run_fuel s) - 1" and "0 < nat (run_fuel s)"
    by linarith+
qed simp

section \<open>Total correctness\<close>

text \<open>A new pool: each worker takes the mutex, finds nothing to do and goes to sleep.\<close>

lemma steps_left_new:
  assumes "unat workers \<le> 2 ^ 32"
  shows "steps_left (new_system junk workers qsize) = 17 * int (unat workers)"
proof -
  let ?m = "new_pool junk workers qsize"
  have "thread_count ?m = workers" by (simp add: new_pool_def)
  with card_workers[of ?m] assms have "card {i. is_worker ?m i} = unat workers" by simp
  moreover have "steps_left (new_system junk workers qsize) = (\<Sum>i\<in>UNIV. if is_worker ?m i then 17 else 0)"
    by (simp add: steps_left_def new_system_def Let_def tsum_def shared_cost_def if_distrib[of "cost _"] cong: if_cong)
      (simp add: new_pool_def ring_new_def)
  ultimately show ?thesis by (simp add: sum.If_cases)
qed

lemma run_good_start:
  assumes "predict workers qsize prog first_view" and "list_all no_pause prog"
    and "client_init workers qsize prog s"
  shows "run_good workers qsize s \<and> run_fuel s = 17 * int (unat workers) + prog_cost workers prog"
proof -
  from assms(3) obtain junk where s: "pool_sys s = new_system junk workers qsize" "unat workers \<le> 2 ^ 32"
    "todo s = prog" "doing s = None" by (auto simp: client_start_def pool_with_def)
  have "unpaused (pool_sys s)" "thread_count (mem (pool_sys s)) = workers"
    by (simp_all add: s unpaused_def new_system_def new_pool_def Let_def)
  with s client_inv_init[OF assms(3,1)] assms(2) steps_left_new[OF s(2)] show ?thesis
    by (simp add: run_good_def run_fuel_def)
qed

lemma client_total:
  assumes "predict workers qsize prog first_view" and "list_all no_pause prog"
    and "client_init workers qsize prog s"
    and "run thpool_client_next es s = Some s'" and "list_all is_client_step es"
  shows "int (length es) \<le> 17 * int (unat workers) + prog_cost workers prog \<and> verdict s' = None \<and>
    ((\<exists>e s''. is_client_step e \<and> thpool_client_next e s' = Some s'') \<or> todo s' = [] \<and> doing s' = None)"
proof -
  note start = run_good_start[OF assms(1-3)]
  then have good: "run_good workers qsize s" by blast
  have "0 \<le> run_fuel s" using good run_fuel_nonneg unfolding run_good_def by blast
  moreover have "length es \<le> nat (run_fuel s)"
    using ending.run_fuel[OF good assms(5,4)] assms(5) by (simp add: filter_id_conv list_all_iff)
  ultimately have len: "int (length es) \<le> 17 * int (unat workers) + prog_cost workers prog" using start by linarith
  have r: "reach (client_init workers qsize prog) thpool_client_next s'"
    by (rule reach_run[OF assms(4)]) (rule reach_init, rule assms(3))
  have "todo s' = [] \<and> doing s' = None"
    if stuck: "\<And>e. is_client_step e \<Longrightarrow> thpool_client_next e s' = None"
  proof (rule client_done[OF assms(1) r])
    show "at_rest (pool_sys s')"
      using stuck[of "Other (Step _ _)"] by (simp add: at_rest_def del: thpool_next.simps)
    show "thpool_client_next Proceed s' = None" by (rule stuck) simp
  qed
  with len client_verdict[OF assms(1) r] show ?thesis by (meson not_Some_eq)
qed

text \<open>
  C6: A single-threaded program over the locking pool that is foretold to pass, and does not
  pause the pool, is totally correct as long as no thread wakes without a signal (there is no
  bound on how often one may): with the workers it makes at most \<open>17 * workers\<close> plus
  \<open>prog_cost\<close> steps in any order, no assertion fails on the way, from everywhere it can go on,
  and where nothing can move any more it has run to its end.
\<close>

theorem thpool_client_total:
  assumes "predict workers qsize prog first_view" and "list_all no_pause prog"
    and "client_init workers qsize prog s"
    and "run thpool_client_next es s = Some s'" and "list_all is_client_step es"
  shows "int (length es) \<le> 17 * int (unat workers) + prog_cost workers prog \<and> verdict s' = None \<and>
    ((\<exists>e s''. is_client_step e \<and> thpool_client_next e s' = Some s'') \<or> todo s' = [] \<and> doing s' = None)"
  by (rule client_total[OF assms])

lemma small_prog_cost: "prog_cost 1 small_prog = 47"
  by (simp add: prog_cost_def small_prog_def)

theorem thpool_client_total_witness:
  "run thpool_client_next sched_small_prog small_start = Some small_end \<and>
    int (length sched_small_prog) \<le> 64 \<and> verdict small_end = None"
proof -
  have "list_all no_pause small_prog" by (simp add: small_prog_def)
  moreover have "list_all is_client_step sched_small_prog" by (simp add: sched_small_prog_def)
  ultimately show ?thesis
    using thpool_client_total[OF small_prog_predicted _ small_start_init run_small_prog] run_small_prog
    by (simp add: small_prog_cost)
qed

section \<open>The tests end\<close>

lemma prog_cost_simps [simp]:
  "prog_cost n [] = 0" "prog_cost n (c # ops) = op_cost (uint n) c + prog_cost n ops"
  "prog_cost n (xs @ ys) = prog_cost n xs + prog_cost n ys"
  by (simp_all add: prog_cost_def)

lemma wait_loop_cost: "prog_cost w (wait_loop job each i k) = int k * (if each then 44 else 34)"
  by (induction k arbitrary: i) (simp_all add: algebra_simps)

lemma wait_loop_no_pause: "list_all no_pause (wait_loop job each i k)"
  by (induction k arbitrary: i) simp_all

text \<open>
  C8: \<open>wait_jobs\<close> ends: with any number of workers and from 1 to \<open>2 ^ 31 - 1\<close> jobs, it and the workers make at most 44 steps for
  each job, 34 for each worker and 18 more before the pool is destroyed and every assertion has
  passed, in any order, unless a thread wakes without a signal.
\<close>

theorem wait_jobs_total:
  assumes "0 < num_jobs" and "unat num_jobs < 2 ^ 31"
    and "client_init num_thpool num_jobs (wait_jobs sleep_1 num_jobs wait_each_job) s"
    and "run thpool_client_next es s = Some s'" and "list_all is_client_step es"
  shows "int (length es) \<le> 44 * int (unat num_jobs) + 34 * int (unat num_thpool) + 18 \<and>
    ((\<exists>e s''. is_client_step e \<and> thpool_client_next e s' = Some s'') \<or>
      todo s' = [] \<and> doing s' = None \<and> verdict s' = None)"
proof -
  have "list_all no_pause (wait_jobs sleep_1 num_jobs wait_each_job)"
    by (simp add: wait_jobs_def wait_loop_no_pause)
  note total = client_total[OF wait_jobs_predicted[OF assms(1,2)] this assms(3-5)]
  have "prog_cost num_thpool (wait_jobs sleep_1 num_jobs wait_each_job) \<le>
      44 * int (unat num_jobs) + 17 * int (unat num_thpool) + 18"
    by (simp add: wait_jobs_def wait_loop_cost)
  with total have "int (length es) \<le> 44 * int (unat num_jobs) + 34 * int (unat num_thpool) + 18" by linarith
  with total show ?thesis by blast
qed

theorem wait_jobs_total_witness:
  "\<exists>s. run thpool_client_next sched_wait_jobs (test_start 1 1 (wait_jobs example_task 1 True)) = Some s \<and>
     int (length sched_wait_jobs) \<le> 96 \<and> (\<exists>e s''. thpool_client_next e s = Some s'')"
proof -
  let ?prog = "wait_jobs example_task 1 True"
  obtain s where r: "run thpool_client_next sched_wait_jobs (test_start 1 1 ?prog) = Some s"
    and e: "todo s = [Do Destroy]"
    by (simp add: sched_wait_jobs_def wait_jobs_def eval_test fun_upd_twist)
  have i: "client_init 1 1 ?prog (test_start 1 1 ?prog)" by (rule test_start_init) simp_all
  have "list_all is_client_step sched_wait_jobs" by (simp add: sched_wait_jobs_def client_call_def)
  from wait_jobs_total[OF _ _ i r this] r e show ?thesis by auto
qed

end
