(* ===== verification/ThpoolWriters.thy ===== *)
theory ThpoolWriters
  imports ThpoolQuiet
begin

text \<open>
  The test \<open>CTEST(thpool_api, threads_test)\<close> of \<open>src/threads/test/thpool/thpool_api.c\<close> (and
  the loop of \<open>thpool_bench.c\<close>): several writer threads add tasks with
  \<open>thpool_add_task_try\<close> in a loop and drop its result; the main thread joins them and calls
  \<open>thpool_wait\<close>. The number of tasks run is the number of calls less those that failed, each
  after finding the queue full \<open>max_try + 1\<close> times.
\<close>

section \<open>The program\<close>

text \<open>
  Client 0 is the main thread, clients 1 to \<open>writers\<close> run \<open>add_task_thread\<close>. \<open>loops_left\<close> is
  what remains of each loop. The rest is history: \<open>fulls i\<close> counts how often the current call of
  thread \<open>i\<close> has found the queue full, and \<open>failed_after\<close> lists that count for each call that
  returned something else than 0, which the program does not look at.
\<close>

record threads_run =
  tsys :: system
  loops_left :: "32 word \<Rightarrow> nat"
  fulls :: "tid \<Rightarrow> nat"
  failed_after :: "nat list"

definition writer_ids :: "nat \<Rightarrow> (32 word) set" where
  "writer_ids writers = {c. 1 \<le> unat c \<and> unat c \<le> writers}"

datatype threads_event = PoolStep event | NextAdd "32 word" | JoinAndWait

fun try_failed :: "pc \<Rightarrow> pc \<Rightarrow> bool" where
  "try_failed (InAddTry q) (Returned r) \<longleftrightarrow> r \<noteq> RInt 0"
| "try_failed _ _ \<longleftrightarrow> False"

text \<open>The test \<open>pool->queue_count == pool->queue_size\<close> comes out true.\<close>

fun finds_full :: "pc \<Rightarrow> pool \<Rightarrow> bool" where
  "finds_full (InAddTry (R_Test t k)) m \<longleftrightarrow> ring_full (queue m)"
| "finds_full _ m \<longleftrightarrow> False"

definition try_history :: "tid \<Rightarrow> system \<Rightarrow> threads_run \<Rightarrow> threads_run" where
  "try_history i p s = s\<lparr>tsys := p,
     fulls := (if finds_full (pcs (tsys s) i) (mem (tsys s)) then (fulls s)(i := fulls s i + 1) else fulls s),
     failed_after := failed_after s @ (if try_failed (pcs (tsys s) i) (pcs p i) then [fulls s i] else [])\<rparr>"

fun threads_next :: "nat \<Rightarrow> task_t \<Rightarrow> int \<Rightarrow> threads_event \<Rightarrow> threads_run \<Rightarrow> threads_run option" where
  "threads_next writers job max_try (PoolStep (Call c f)) s = None"
| "threads_next writers job max_try (PoolStep (Spurious i)) s =
     map_option (\<lambda>p. s\<lparr>tsys := p\<rparr>) (thpool_next (Spurious i) (tsys s))"
| "threads_next writers job max_try (PoolStep (Step i v)) s =
     map_option (\<lambda>p. try_history i p s) (thpool_next (Step i v) (tsys s))"
| "threads_next writers job max_try (NextAdd c) s =
     (if c \<in> writer_ids writers \<and> 0 < loops_left s c
      then map_option (\<lambda>p. s\<lparr>tsys := p, loops_left := (loops_left s)(c := loops_left s c - 1),
            fulls := (fulls s)(Client c := 0)\<rparr>)
        (thpool_next (Call c (AddTry job max_try)) (tsys s))
      else None)"
| "threads_next writers job max_try JoinAndWait s =
     (if \<forall>c \<in> writer_ids writers. loops_left s c = 0 \<and> is_returned (pcs (tsys s) (Client c))
      then map_option (\<lambda>p. s\<lparr>tsys := p\<rparr>) (thpool_next (Call 0 Wait) (tsys s))
      else None)"

definition threads_init :: "nat \<Rightarrow> nat \<Rightarrow> threads_run \<Rightarrow> bool" where
  "threads_init writers loop_count s \<longleftrightarrow> thpool_init (tsys s) \<and>
     loops_left s = (\<lambda>c. if c \<in> writer_ids writers then loop_count else 0) \<and>
     failed_after s = []"

section \<open>Accounting\<close>

text \<open>A call that has neither put its task in the queue nor failed.\<close>

fun trying :: "pc \<Rightarrow> bool" where
  "trying (InAddTry q) \<longleftrightarrow> (case q of R_Signal \<Rightarrow> False | R_Unlock \<Rightarrow> False | _ \<Rightarrow> True)"
| "trying _ \<longleftrightarrow> False"

fun plain_add :: "pc \<Rightarrow> bool" where
  "plain_add (InAdd q) \<longleftrightarrow> True"
| "plain_add _ \<longleftrightarrow> False"

lemma exec_accounts:
  "exec i v p m = Some (m', p') \<Longrightarrow> \<not> plain_add p \<longrightarrow> \<not> plain_add p' \<and>
    length (submitted m') + of_bool (try_failed p p') + of_bool (trying p') =
      length (submitted m) + of_bool (trying p)"
  by (erule exec_points; erule step_elims; auto simp: outcome_simps step_defs split: if_splits)

definition calls_left :: "nat \<Rightarrow> threads_run \<Rightarrow> nat" where
  "calls_left writers s = (\<Sum>c \<in> writer_ids writers. loops_left s c)"

definition account_inv :: "nat \<Rightarrow> nat \<Rightarrow> threads_run \<Rightarrow> bool" where
  "account_inv writers calls s \<longleftrightarrow>
     length (submitted (mem (tsys s))) + length (failed_after s) + tsum (\<lambda>p. of_bool (trying p)) (pcs (tsys s)) +
       calls_left writers s = calls \<and>
     (\<forall>i. \<not> plain_add (pcs (tsys s) i))"

text \<open>What a call has left of its tries, and how its failure came about.\<close>

fun tries_ok :: "int \<Rightarrow> nat \<Rightarrow> pc \<Rightarrow> bool" where
  "tries_ok M n (InAddTry q) \<longleftrightarrow> (case q of
       R_Loop t k \<Rightarrow> int n = M - k \<and> (k = M \<or> -1 \<le> k)
     | R_Lock t k \<Rightarrow> int n = M - k \<and> 0 \<le> k | R_Test t k \<Rightarrow> int n = M - k \<and> 0 \<le> k
     | R_FullUnlock t k \<Rightarrow> int n = M - k + 1 \<and> 0 \<le> k | R_Sleep t k \<Rightarrow> int n = M - k + 1 \<and> 0 \<le> k
     | _ \<Rightarrow> True)"
| "tries_ok M n _ \<longleftrightarrow> True"

lemma exec_tries:
  "exec i v p m = Some (m', p') \<Longrightarrow> tries_ok M n p \<longrightarrow>
    tries_ok M (n + of_bool (finds_full p m)) p' \<and> (try_failed p p' \<longrightarrow> n = nat (M + 1))"
  by (erule exec_points; erule step_elims; auto simp: outcome_simps step_defs split: if_splits)

definition tries_inv :: "int \<Rightarrow> threads_run \<Rightarrow> bool" where
  "tries_inv M s \<longleftrightarrow> (\<forall>i. tries_ok M (fulls s i) (pcs (tsys s) i)) \<and>
     set (failed_after s) \<subseteq> {nat (M + 1)}"

text \<open>Once the main thread waits, the writers have returned for good.\<close>

definition joined_inv :: "nat \<Rightarrow> threads_run \<Rightarrow> bool" where
  "joined_inv writers s \<longleftrightarrow>
     (\<forall>c. c \<notin> writer_ids writers \<longrightarrow> \<not> trying (pcs (tsys s) (Client c))) \<and>
     (\<forall>w. \<not> trying (pcs (tsys s) (Worker w))) \<and>
     (in_wait (pcs (tsys s) (Client 0)) \<longrightarrow>
        (\<forall>c \<in> writer_ids writers. loops_left s c = 0 \<and> is_returned (pcs (tsys s) (Client c))))"

lemma exec_trying:
  "exec i v p m = Some (m', p') \<Longrightarrow> \<not> is_returned p \<and> (trying p' \<longrightarrow> trying p) \<and> (in_wait p' \<longrightarrow> in_wait p)"
  by (cases p) (auto simp: outcome_simps step_defs elim!: add_try_stepE split: if_splits)

lemma account_step:
  assumes inv: "account_inv k calls s" and e: "exec i v (pcs (tsys s) i) (mem (tsys s)) = Some (m, p)"
  shows "account_inv k calls (try_history i \<lparr>mem = m, pcs = (pcs (tsys s))(i := p)\<rparr> s)"
proof -
  let ?f = "pcs (tsys s)"
  have "\<not> plain_add (?f i)" using inv by (simp add: account_inv_def)
  with exec_accounts[OF e] have step: "\<not> plain_add p"
    "length (submitted m) + of_bool (try_failed (?f i) p) + of_bool (trying p) =
      length (submitted (mem (tsys s))) + of_bool (trying (?f i))" by simp_all
  have "tsum (\<lambda>p. of_bool (trying p)) (?f(i := p)) + of_bool (trying (?f i)) =
      tsum (\<lambda>p. of_bool (trying p) :: nat) ?f + of_bool (trying p)" by (rule tsum_upd)
  with inv step show ?thesis
    by (cases "try_failed (?f i) p") (simp_all add: account_inv_def calls_left_def try_history_def)
qed

lemma tries_step:
  assumes inv: "tries_inv M s" and e: "exec i v (pcs (tsys s) i) (mem (tsys s)) = Some (m, p)"
  shows "tries_inv M (try_history i \<lparr>mem = m, pcs = (pcs (tsys s))(i := p)\<rparr> s)"
  using inv exec_tries[OF e, of M "fulls s i"]
  by (auto simp: tries_inv_def try_history_def)

lemma calls_left_upd:
  "c \<in> writer_ids k \<Longrightarrow> 0 < f c \<Longrightarrow>
    (\<Sum>d \<in> writer_ids k. (f(c := f c - 1)) d) + 1 = (\<Sum>d \<in> writer_ids k. f d :: nat)"
  by (simp add: sum.remove[of "writer_ids k" c])

lemma threads_inv_next:
  assumes inv: "account_inv k calls s" "joined_inv k s" "tries_inv max_try s"
    and n: "threads_next k job max_try e s = Some s'"
  shows "account_inv k calls s' \<and> joined_inv k s' \<and> tries_inv max_try s'"
proof (cases e)
  case (PoolStep e')
  show ?thesis
  proof (cases e')
    case (Step i v)
    with PoolStep n obtain q where q: "thpool_next (Step i v) (tsys s) = Some q"
      and s'': "s' = try_history i q s"
      by (auto simp del: thpool_next.simps)
    from q obtain m p where x: "exec i v (pcs (tsys s) i) (mem (tsys s)) = Some (m, p)"
      and q': "q = \<lparr>mem = m, pcs = (pcs (tsys s))(i := p)\<rparr>" unfolding step_Some by blast
    have "joined_inv k s'" using exec_trying[OF x] inv(2)
      by (auto simp: s'' q' try_history_def joined_inv_def)
    with account_step[OF inv(1) x] tries_step[OF inv(3) x] show ?thesis by (simp add: s'' q')
  next
    case (Spurious i)
    with PoolStep n obtain q where "s' = s\<lparr>tsys := q\<rparr>" "pcs q = pcs (tsys s)"
      "submitted (mem q) = submitted (mem (tsys s))" by (auto split: if_splits)
    with inv show ?thesis by (simp add: account_inv_def joined_inv_def tries_inv_def calls_left_def)
  qed (use PoolStep n in simp)
next
  case (NextAdd c)
  with n have c: "c \<in> writer_ids k" "0 < loops_left s c"
    and r: "\<exists>r. pcs (tsys s) (Client c) = Returned r"
    and s': "s' = s\<lparr>tsys := (tsys s)\<lparr>pcs := (pcs (tsys s))(Client c := InAddTry (R_Loop job max_try))\<rparr>,
      loops_left := (loops_left s)(c := loops_left s c - 1), fulls := (fulls s)(Client c := 0)\<rparr>"
    by (auto simp: call_Some simp del: thpool_next.simps split: if_splits)
  from r obtain r where r: "pcs (tsys s) (Client c) = Returned r" ..
  have "tsum (\<lambda>p. of_bool (trying p) :: nat) ((pcs (tsys s))(Client c := InAddTry (R_Loop job max_try))) =
      tsum (\<lambda>p. of_bool (trying p)) (pcs (tsys s)) + 1"
    using tsum_upd[of "\<lambda>p. of_bool (trying p) :: nat" "pcs (tsys s)" "Client c" "InAddTry (R_Loop job max_try)"] r
    by simp
  moreover have "calls_left k s' + 1 = calls_left k s"
    using calls_left_upd[of c k "loops_left s"] c by (simp add: calls_left_def s')
  moreover have "(0 :: 32 word) \<notin> writer_ids k" by (simp add: writer_ids_def)
  moreover have "\<not> in_wait (pcs (tsys s) (Client 0))" using inv(2) c by (auto simp: joined_inv_def)
  ultimately show ?thesis using inv c r
    by (auto simp: account_inv_def joined_inv_def tries_inv_def s')
next
  case JoinAndWait
  with n have j: "\<forall>c \<in> writer_ids k. loops_left s c = 0 \<and> is_returned (pcs (tsys s) (Client c))"
    and r: "\<exists>r. pcs (tsys s) (Client 0) = Returned r"
    and s': "s' = s\<lparr>tsys := (tsys s)\<lparr>pcs := (pcs (tsys s))(Client 0 := InWait E_Lock)\<rparr>\<rparr>"
    by (auto simp: call_Some simp del: thpool_next.simps split: if_splits)
  have "tsum (\<lambda>p. of_bool (trying p) :: nat) ((pcs (tsys s))(Client 0 := InWait E_Lock)) =
      tsum (\<lambda>p. of_bool (trying p)) (pcs (tsys s))"
    by (rule tsum_upd_eq) (use r in auto)
  moreover have "(0 :: 32 word) \<notin> writer_ids k" by (simp add: writer_ids_def)
  ultimately show ?thesis using inv j
    by (auto simp: account_inv_def joined_inv_def tries_inv_def calls_left_def s')
qed

lemma threads_next_pool:
  assumes "threads_next k job max_try e s = Some s'"
  shows "\<exists>e'. thpool_next e' (tsys s) = Some (tsys s')"
proof (cases e)
  case (PoolStep e')
  with assms show ?thesis
    by (cases e') (auto simp: try_history_def simp del: thpool_next.simps)
qed (use assms in \<open>auto simp del: thpool_next.simps split: if_splits\<close>)

lemma card_writer_ids:
  assumes "k < 2 ^ 32"
  shows "card (writer_ids k) = k"
proof -
  have "writer_ids k = word_of_nat ` {1..k}"
  proof
    show "writer_ids k \<subseteq> word_of_nat ` {1..k}"
    proof
      fix c :: "32 word" assume "c \<in> writer_ids k"
      then have "unat c \<in> {1..k}" "c = word_of_nat (unat c)" by (simp_all add: writer_ids_def)
      then show "c \<in> word_of_nat ` {1..k}" by blast
    qed
    show "word_of_nat ` {1..k} \<subseteq> writer_ids k"
      using assms by (auto simp: writer_ids_def unat_of_nat take_bit_nat_eq_self)
  qed
  moreover have "inj_on (word_of_nat :: nat \<Rightarrow> 32 word) {1..k}"
  proof (rule inj_onI)
    fix x y assume "x \<in> {1..k}" "y \<in> {1..k}" "(word_of_nat x :: 32 word) = word_of_nat y"
    then have "unat (word_of_nat x :: 32 word) = unat (word_of_nat y :: 32 word)" "x < 2 ^ 32" "y < 2 ^ 32"
      using assms by simp_all
    then show "x = y" by (simp add: unat_of_nat take_bit_nat_eq_self)
  qed
  ultimately show ?thesis by (simp add: card_image)
qed

interpretation threads: safety "threads_init k n" "threads_next k job max_try"
  "\<lambda>s. thpool_inv (tsys s) \<and> account_inv k (card (writer_ids k) * n) s \<and> joined_inv k s \<and>
    tries_inv max_try s"
proof
  fix s assume i: "threads_init k n s"
  then have p: "thpool_inv (tsys s)" and l: "loops_left s = (\<lambda>c. if c \<in> writer_ids k then n else 0)"
    and f: "failed_after s = []" and ti: "thpool_init (tsys s)"
    using thpool.inv_init by (simp_all add: threads_init_def)
  have pts: "pcs (tsys s) i = InWorker W_Lock \<or> pcs (tsys s) i = Returned RVoid" for i
    using ti by (auto simp: thpool_init_def new_system_def Let_def split: if_splits)
  have "submitted (mem (tsys s)) = []" using ti by (auto simp: thpool_init_def new_system_def new_pool_def Let_def)
  moreover have not: "\<not> trying (pcs (tsys s) i) \<and> \<not> plain_add (pcs (tsys s) i) \<and> \<not> in_wait (pcs (tsys s) i)" for i
    using pts[of i] by auto
  moreover from not have "tsum (\<lambda>p. of_bool (trying p) :: nat) (pcs (tsys s)) = 0" by (intro tsum_const_zero) simp
  moreover have "tries_ok max_try (fulls s i) (pcs (tsys s) i)" for i using pts[of i] by auto
  ultimately show "thpool_inv (tsys s) \<and> account_inv k (card (writer_ids k) * n) s \<and> joined_inv k s \<and>
      tries_inv max_try s"
    using p l f by (simp add: account_inv_def joined_inv_def tries_inv_def calls_left_def)
next
  fix s e s'
  assume inv: "thpool_inv (tsys s) \<and> account_inv k (card (writer_ids k) * n) s \<and> joined_inv k s \<and>
      tries_inv max_try s"
    and n: "threads_next k job max_try e s = Some s'"
  have "\<exists>e'. thpool_next e' (tsys s) = Some (tsys s')"
    using n threads_next_pool by blast
  with inv n threads_inv_next thpool.inv_next
  show "thpool_inv (tsys s') \<and> account_inv k (card (writer_ids k) * n) s' \<and> joined_inv k s' \<and>
      tries_inv max_try s'" by blast
qed

section \<open>The result of the test\<close>

lemma returned_not_trying: "is_returned p \<Longrightarrow> \<not> trying p"
  by (cases p) auto

text \<open>
  C9: When \<open>thpool_wait\<close> returns to the main thread, after it has joined the writers, every call
  of \<open>thpool_add_task_try\<close> has either run its task or failed: the counter the test compares
  with \<open>WRITERS * LOOP_COUNT\<close> is that number less the calls that failed, each of which had found
  the queue full exactly \<open>max_try + 1\<close> times (not once for a negative \<open>max_try\<close>).
\<close>

theorem threads_test_counts:
  assumes "writers < 2 ^ 32"
    and "reach (threads_init writers loop_count) (threads_next writers increment_job max_try) s"
    and "pcs (tsys s) (Client 0) = InWait E_Return"
  shows "length (finished (mem (tsys s))) + length (failed_after s) = writers * loop_count \<and>
    set (failed_after s) \<subseteq> {nat (max_try + 1)}"
proof -
  have inv: "thpool_inv (tsys s)" and acc: "account_inv writers (writers * loop_count) s"
    and join: "joined_inv writers s" and tries: "tries_inv max_try s"
    using threads.reach_inv[OF assms(2)] card_writer_ids[OF assms(1)] by auto
  have gone: "loops_left s c = 0 \<and> \<not> trying (pcs (tsys s) (Client c))" if "c \<in> writer_ids writers" for c
    using join assms(3) that returned_not_trying by (auto simp: joined_inv_def)
  then have "calls_left writers s = 0" by (simp add: calls_left_def)
  moreover have "\<not> trying (pcs (tsys s) i)" for i
    using gone join by (cases i) (auto simp: joined_inv_def)
  then have "tsum (\<lambda>p. of_bool (trying p) :: nat) (pcs (tsys s)) = 0" by (intro tsum_const_zero) simp
  moreover have "knows (pcs (tsys s) (Client 0)) (mem (tsys s))" using inv by (simp add: thpool_inv_def knows_inv_def)
  with assms(3) idle_empty_done[OF inv] have "mset (finished (mem (tsys s))) = mset (submitted (mem (tsys s)))" by simp
  from arg_cong[OF this, of size] have "length (finished (mem (tsys s))) = length (submitted (mem (tsys s)))" by simp
  ultimately show ?thesis using acc tries by (simp add: account_inv_def tries_inv_def)
qed

text \<open>Two writers, one call each, a queue of one task and no second try: the second call fails.\<close>

definition sched_two_writers :: "threads_event list" where
  "sched_two_writers = NextAdd 1 # map PoolStep (steps (Client 1) 6) @
     NextAdd 2 # map PoolStep (steps (Client 2) 6 @ steps (Worker 0) 8) @
     JoinAndWait # map PoolStep (steps (Client 0) 4)"

lemma writer_ids_2: "writer_ids 2 = {1, 2}"
proof -
  have "c \<in> writer_ids 2 \<longleftrightarrow> unat c = 1 \<or> unat c = 2" for c by (auto simp: writer_ids_def)
  moreover have "unat c = 1 \<longleftrightarrow> c = 1" "unat c = 2 \<longleftrightarrow> c = 2" for c :: "32 word"
    by (simp_all add: word_unat_eq_iff)
  ultimately show ?thesis by auto
qed

definition two_writers_start :: threads_run where
  "two_writers_start = \<lparr>tsys = small_pool 1, loops_left = (\<lambda>_. 0)(1 := 1, 2 := 1), fulls = (\<lambda>_. 0),
     failed_after = []\<rparr>"

theorem threads_test_counts_witness:
  "\<exists>s. run (threads_next 2 example_task 0) sched_two_writers two_writers_start = Some s \<and>
     failed_after s = [1] \<and> length (finished (mem (tsys s))) + 1 = 2 * 1"
proof -
  obtain s where r: "run (threads_next 2 example_task 0) sched_two_writers two_writers_start = Some s"
    and p: "pcs (tsys s) (Client 0) = InWait E_Return" and f: "failed_after s = [1]"
    by (simp add: try_history_def sched_two_writers_def two_writers_start_def writer_ids_2 eval_pool fun_upd_twist)
  have "threads_init 2 1 two_writers_start"
    using small_pool_init[of 1] by (auto simp: threads_init_def two_writers_start_def writer_ids_2)
  then have "reach (threads_init 2 1) (threads_next 2 example_task 0) two_writers_start"
    by (rule reach_init)
  from threads_test_counts[OF _ reach_run[OF r this] p] r f show ?thesis by auto
qed

end
