(* ===== verification/Lfthpool.thy ===== *)
theory Lfthpool
  imports Ring
begin

text \<open>
  The pool of \<open>src/threads/lfthpool.c\<close>, which has no mutex: its tasks are heap blocks whose
  pointers go through a lock-free queue. As in the locking pool every function is a step
  function over its own program points, one step per access to shared state. The queue
  comes from another library, so its operations are parameters of the model.
\<close>

section \<open>The external queue\<close>

text \<open>
  What the code calls of \<open>concurrent/mpmc_ring_queue.h\<close>. Each call takes effect at one
  point in time. \<open>q_drain\<close> gives the pointers \<open>mpmc_ring_queue_delete\<close> passes to \<open>free\<close>.
\<close>

datatype qerr = QERR_OK | QERR_FULL | QERR_OTHER int

record 'q queue_ops =
  q_enqueue :: "addr \<Rightarrow> 'q \<Rightarrow> qerr \<times> 'q"
  q_dequeue :: "'q \<Rightarrow> addr option \<times> 'q"
  q_len :: "'q \<Rightarrow> size_t"
  q_drain :: "'q \<Rightarrow> addr list"

section \<open>State\<close>

text \<open>
  \<open>struct lfthpool\<close>: a handle is zero or names a worker. \<open>heap\<close> holds the task blocks;
  \<open>bad_access\<close> records a use or a free of a block that is not allocated. The rest is what
  the system knows of the threads, and history: when thread \<open>i\<close> last read the queue length in
  \<open>lfthpool_wait\<close>, the number read was \<open>lf_report i\<close>, \<open>lf_seen i\<close> tasks had been accepted and
  \<open>lf_gone i\<close> of them taken out of the queue.
\<close>

record 'q lfpool =
  lf_shutdown :: int
  lf_hold :: int
  lf_running_count :: size_t
  lf_handle :: "tid \<Rightarrow> bool"
  lf_thread_count :: size_t
  lf_task_queue :: 'q
  heap :: "addr \<Rightarrow> task_t option"
  bad_access :: bool
  lf_exited :: "tid set"
  lf_joined :: "tid set"
  lf_joined_twice :: bool
  lf_deleted :: bool
  lf_submitted :: "task_t list"
  lf_taken :: "task_t list"
  lf_finished :: "task_t list"
  lf_seen :: "tid \<Rightarrow> nat"
  lf_gone :: "tid \<Rightarrow> nat"
  lf_report :: "tid \<Rightarrow> size_t"

type_synonym ('q, 'p) lf_outcome = "('q lfpool \<times> ('p + ret)) option"

section \<open>Heap blocks\<close>

definition load :: "'q lfpool \<Rightarrow> addr \<Rightarrow> task_t" where
  "load s p = the (heap s p)"

text \<open>\<open>malloc\<close> and the two assignments that fill the block; \<open>v\<close> is what \<open>malloc\<close> returned.\<close>

definition malloc_task :: "addr option \<Rightarrow> task_t \<Rightarrow> 'q lfpool \<Rightarrow> (addr \<Rightarrow> 'p) \<Rightarrow> ('q, 'p) lf_outcome" where
  "malloc_task v t s k = (case v of
       None \<Rightarrow> Some (s, Inr (RErr ENOMEM))
     | Some p \<Rightarrow> if p \<noteq> 0 \<and> heap s p = None
         then Some (s\<lparr>heap := (heap s)(p := Some t)\<rparr>, Inl (k p)) else None)"

definition free_task :: "addr \<Rightarrow> 'q lfpool \<Rightarrow> 'q lfpool" where
  "free_task p s = s\<lparr>heap := (heap s)(p := None), bad_access := (bad_access s \<or> heap s p = None)\<rparr>"

definition lf_run_task :: "addr \<Rightarrow> 'q lfpool \<Rightarrow> 'q lfpool" where
  "lf_run_task p s = s\<lparr>lf_finished := lf_finished s @ [load s p],
     bad_access := (bad_access s \<or> heap s p = None)\<rparr>"

section \<open>Operations on the shared fields\<close>

definition lf_enqueue :: "'q queue_ops \<Rightarrow> addr \<Rightarrow> 'q lfpool \<Rightarrow> qerr \<times> 'q lfpool" where
  "lf_enqueue Q p s = (case q_enqueue Q p (lf_task_queue s) of (r, q') \<Rightarrow>
     (r, if r = QERR_OK
         then s\<lparr>lf_task_queue := q', lf_submitted := lf_submitted s @ [load s p]\<rparr>
         else s\<lparr>lf_task_queue := q'\<rparr>))"

definition lf_dequeue :: "'q queue_ops \<Rightarrow> 'q lfpool \<Rightarrow> addr option \<times> 'q lfpool" where
  "lf_dequeue Q s = (case q_dequeue Q (lf_task_queue s) of
       (None, q') \<Rightarrow> (None, s\<lparr>lf_task_queue := q'\<rparr>)
     | (Some p, q') \<Rightarrow> (Some p, s\<lparr>lf_task_queue := q', lf_taken := lf_taken s @ [load s p]\<rparr>))"

definition lf_add_running :: "'q lfpool \<Rightarrow> 'q lfpool" where
  "lf_add_running s = s\<lparr>lf_running_count := lf_running_count s + 1\<rparr>"

definition lf_sub_running :: "'q lfpool \<Rightarrow> 'q lfpool" where
  "lf_sub_running s = s\<lparr>lf_running_count := lf_running_count s - 1\<rparr>"

definition lf_active_tasks :: "'q lfpool \<Rightarrow> size_t" where
  "lf_active_tasks s = lf_running_count s"

section \<open>The background worker\<close>

datatype lwpc = LW_Shutdown | LW_Hold | LW_Sleep | LW_Dequeue | LW_Nap | LW_Inc addr
  | LW_Run addr | LW_Dec addr | LW_Free addr

fun lf_worker_step :: "'q queue_ops \<Rightarrow> tid \<Rightarrow> lwpc \<Rightarrow> 'q lfpool \<Rightarrow> ('q, lwpc) lf_outcome" where
  "lf_worker_step Q i LW_Shutdown s =
     (if lf_shutdown s = 1 then Some (s\<lparr>lf_exited := insert i (lf_exited s)\<rparr>, Inr RVoid)
      else Some (s, Inl LW_Hold))"
| "lf_worker_step Q i LW_Hold s = Some (s, Inl (if lf_hold s \<noteq> 0 then LW_Sleep else LW_Dequeue))"
| "lf_worker_step Q i LW_Sleep s = Some (s, Inl LW_Shutdown)"
| "lf_worker_step Q i LW_Dequeue s =
     (case lf_dequeue Q s of (None, s') \<Rightarrow> Some (s', Inl LW_Nap)
      | (Some p, s') \<Rightarrow> Some (s', Inl (LW_Inc p)))"
| "lf_worker_step Q i LW_Nap s = Some (s, Inl LW_Shutdown)"
| "lf_worker_step Q i (LW_Inc p) s = Some (lf_add_running s, Inl (LW_Run p))"
| "lf_worker_step Q i (LW_Run p) s = Some (lf_run_task p s, Inl (LW_Dec p))"
| "lf_worker_step Q i (LW_Dec p) s = Some (lf_sub_running s, Inl (LW_Free p))"
| "lf_worker_step Q i (LW_Free p) s = Some (free_task p s, Inl LW_Shutdown)"

section \<open>The API\<close>

subsection \<open>\<open>lfthpool_worker_try_once\<close>\<close>

datatype ltpc = LT_Dequeue | LT_Inc addr | LT_Run addr | LT_Free addr | LT_Dec

fun lf_try_once_step :: "'q queue_ops \<Rightarrow> ltpc \<Rightarrow> 'q lfpool \<Rightarrow> ('q, ltpc) lf_outcome" where
  "lf_try_once_step Q LT_Dequeue s =
     (case lf_dequeue Q s of (None, s') \<Rightarrow> Some (s', Inr (RErr EAGAIN))
      | (Some p, s') \<Rightarrow> Some (s', Inl (LT_Inc p)))"
| "lf_try_once_step Q (LT_Inc p) s = Some (lf_add_running s, Inl (LT_Run p))"
| "lf_try_once_step Q (LT_Run p) s = Some (lf_run_task p s, Inl (LT_Free p))"
| "lf_try_once_step Q (LT_Free p) s = Some (free_task p s, Inl LT_Dec)"
| "lf_try_once_step Q LT_Dec s = Some (lf_sub_running s, Inr (RInt 0))"

subsection \<open>\<open>lfthpool_add_task\<close> and \<open>lfthpool_add_task_try\<close>\<close>

datatype lapc = LA_Malloc task_t | LA_Enqueue addr | LA_Free addr

fun lf_add_task_step :: "'q queue_ops \<Rightarrow> addr option \<Rightarrow> lapc \<Rightarrow> 'q lfpool \<Rightarrow> ('q, lapc) lf_outcome" where
  "lf_add_task_step Q v (LA_Malloc t) s = malloc_task v t s LA_Enqueue"
| "lf_add_task_step Q v (LA_Enqueue p) s =
     (case lf_enqueue Q p s of
        (r, s') \<Rightarrow> Some (s', if r \<noteq> QERR_OK then Inl (LA_Free p) else Inr (RInt 0)))"
| "lf_add_task_step Q v (LA_Free p) s = Some (free_task p s, Inr (RErr EAGAIN))"

text \<open>The program points carry the current value of \<open>max_try\<close>, and the error to return.\<close>

datatype lrpc = LR_Malloc task_t int | LR_Enqueue addr int | LR_Free addr ret | LR_Sleep addr int

fun lf_add_try_step :: "'q queue_ops \<Rightarrow> addr option \<Rightarrow> lrpc \<Rightarrow> 'q lfpool \<Rightarrow> ('q, lrpc) lf_outcome" where
  "lf_add_try_step Q v (LR_Malloc t k) s = malloc_task v t s (\<lambda>p. LR_Enqueue p k)"
| "lf_add_try_step Q v (LR_Enqueue p k) s =
     (case lf_enqueue Q p s of
        (QERR_OK, s') \<Rightarrow> Some (s', Inr (RInt 0))
      | (QERR_OTHER err, s') \<Rightarrow> Some (s', Inl (LR_Free p (RInt err)))
      | (QERR_FULL, s') \<Rightarrow>
          Some (s', Inl (if k < 0 then LR_Free p (RErr EAGAIN) else LR_Sleep p k)))"
| "lf_add_try_step Q v (LR_Free p r) s = Some (free_task p s, Inr r)"
| "lf_add_try_step Q v (LR_Sleep p k) s = Some (s, Inl (LR_Enqueue p (k - 1)))"

subsection \<open>Pause, resume and the counters\<close>

text \<open>\<open>lfthpool_total_tasks\<close> makes two reads; the running count is taken to come first.\<close>

datatype lmpc = LM_Pause | LM_Resume | LM_Active | LM_Total | LM_TotalLen size_t | LM_Workers

fun lf_misc_step :: "'q queue_ops \<Rightarrow> lmpc \<Rightarrow> 'q lfpool \<Rightarrow> ('q, lmpc) lf_outcome" where
  "lf_misc_step Q LM_Pause s = Some (s\<lparr>lf_hold := 1\<rparr>, Inr RVoid)"
| "lf_misc_step Q LM_Resume s = Some (s\<lparr>lf_hold := 0\<rparr>, Inr RVoid)"
| "lf_misc_step Q LM_Active s = Some (s, Inr (RSize (lf_active_tasks s)))"
| "lf_misc_step Q LM_Total s = Some (s, Inl (LM_TotalLen (lf_running_count s)))"
| "lf_misc_step Q (LM_TotalLen n) s = Some (s, Inr (RSize (n + q_len Q (lf_task_queue s))))"
| "lf_misc_step Q LM_Workers s = Some (s, Inr (RSize (lf_thread_count s)))"

subsection \<open>\<open>lfthpool_wait\<close>\<close>

datatype lepc = LE_Active | LE_Len | LE_Recheck | LE_Sleep

fun lf_wait_step :: "'q queue_ops \<Rightarrow> tid \<Rightarrow> lepc \<Rightarrow> 'q lfpool \<Rightarrow> ('q, lepc) lf_outcome" where
  "lf_wait_step Q i LE_Active s = Some (s, Inl (if 0 < lf_active_tasks s then LE_Sleep else LE_Len))"
| "lf_wait_step Q i LE_Len s =
     Some (s\<lparr>lf_seen := (lf_seen s)(i := length (lf_submitted s)), lf_gone := (lf_gone s)(i := length (lf_taken s)),
         lf_report := (lf_report s)(i := q_len Q (lf_task_queue s))\<rparr>,
       Inl (if 0 < q_len Q (lf_task_queue s) then LE_Sleep else LE_Recheck))"
| "lf_wait_step Q i LE_Recheck s =
     Some (s, if 0 < lf_active_tasks s then Inl LE_Sleep else Inr RVoid)"
| "lf_wait_step Q i LE_Sleep s = Some (s, Inl LE_Active)"

subsection \<open>\<open>lfthpool_shutdown\<close> and \<open>lfthpool_destroy\<close>\<close>

text \<open>
  The flag tells whether \<open>lfthpool_destroy\<close> made the call. Deleting the queue frees every
  block still in it; after that the pool may not be used.
\<close>

datatype lhpc = LH_Store bool | LH_Test bool size_t | LH_Join bool size_t | LH_Clear bool size_t
  | LH_DeleteQueue

definition lf_worker_handle :: "size_t \<Rightarrow> tid" where
  "lf_worker_handle k = Worker (ucast k)"

definition lf_join :: "tid \<Rightarrow> 'q lfpool \<Rightarrow> 'q lfpool option" where
  "lf_join w s =
     (if w \<in> lf_joined s then Some (s\<lparr>lf_joined_twice := True\<rparr>)
      else if w \<in> lf_exited s then Some (s\<lparr>lf_joined := insert w (lf_joined s)\<rparr>)
      else None)"

fun lf_shutdown_step :: "'q queue_ops \<Rightarrow> lhpc \<Rightarrow> 'q lfpool \<Rightarrow> ('q, lhpc) lf_outcome" where
  "lf_shutdown_step Q (LH_Store d) s = Some (s\<lparr>lf_shutdown := 1\<rparr>, Inl (LH_Test d 0))"
| "lf_shutdown_step Q (LH_Test d k) s =
     (if k < lf_thread_count s
      then Some (s, Inl (if lf_handle s (lf_worker_handle k) then LH_Join d k else LH_Test d (k + 1)))
      else Some (s, if d then Inl LH_DeleteQueue else Inr RVoid))"
| "lf_shutdown_step Q (LH_Join d k) s =
     map_option (\<lambda>s'. (s', Inl (LH_Clear d k))) (lf_join (lf_worker_handle k) s)"
| "lf_shutdown_step Q (LH_Clear d k) s =
     Some (s\<lparr>lf_handle := (lf_handle s)(lf_worker_handle k := False)\<rparr>, Inl (LH_Test d (k + 1)))"
| "lf_shutdown_step Q LH_DeleteQueue s =
     Some ((fold free_task (q_drain Q (lf_task_queue s)) s)\<lparr>lf_deleted := True\<rparr>, Inr RVoid)"

section \<open>The system of threads\<close>

datatype lfpc = LfWorker lwpc | LfTryOnce ltpc | LfAdd lapc | LfAddTry lrpc | LfMisc lmpc
  | LfWait lepc | LfShutdown lhpc | LfReturned ret

datatype lf_call = LfCallAdd task_t | LfCallAddTry task_t int | LfCallPause | LfCallResume
  | LfCallActive | LfCallTotal | LfCallWorkers | LfCallWait | LfCallShutdown | LfCallDestroy
  | LfCallTryOnce

fun lf_entry :: "lf_call \<Rightarrow> lfpc" where
  "lf_entry (LfCallAdd t) = LfAdd (LA_Malloc t)"
| "lf_entry (LfCallAddTry t k) = LfAddTry (LR_Malloc t k)"
| "lf_entry LfCallPause = LfMisc LM_Pause"
| "lf_entry LfCallResume = LfMisc LM_Resume"
| "lf_entry LfCallActive = LfMisc LM_Active"
| "lf_entry LfCallTotal = LfMisc LM_Total"
| "lf_entry LfCallWorkers = LfMisc LM_Workers"
| "lf_entry LfCallWait = LfWait LE_Active"
| "lf_entry LfCallShutdown = LfShutdown (LH_Store False)"
| "lf_entry LfCallDestroy = LfShutdown (LH_Store True)"
| "lf_entry LfCallTryOnce = LfTryOnce LT_Dequeue"

fun lf_resume_at :: "('p \<Rightarrow> lfpc) \<Rightarrow> ('q, 'p) lf_outcome \<Rightarrow> ('q lfpool \<times> lfpc) option" where
  "lf_resume_at lift None = None"
| "lf_resume_at lift (Some (s, Inl p)) = Some (s, lift p)"
| "lf_resume_at lift (Some (s, Inr r)) = Some (s, LfReturned r)"

fun lf_exec :: "'q queue_ops \<Rightarrow> tid \<Rightarrow> addr option \<Rightarrow> lfpc \<Rightarrow> 'q lfpool \<Rightarrow> ('q lfpool \<times> lfpc) option" where
  "lf_exec Q i v (LfWorker p) s = lf_resume_at LfWorker (lf_worker_step Q i p s)"
| "lf_exec Q i v (LfTryOnce p) s = lf_resume_at LfTryOnce (lf_try_once_step Q p s)"
| "lf_exec Q i v (LfAdd p) s = lf_resume_at LfAdd (lf_add_task_step Q v p s)"
| "lf_exec Q i v (LfAddTry p) s = lf_resume_at LfAddTry (lf_add_try_step Q v p s)"
| "lf_exec Q i v (LfMisc p) s = lf_resume_at LfMisc (lf_misc_step Q p s)"
| "lf_exec Q i v (LfWait p) s = lf_resume_at LfWait (lf_wait_step Q i p s)"
| "lf_exec Q i v (LfShutdown p) s = lf_resume_at LfShutdown (lf_shutdown_step Q p s)"
| "lf_exec Q i v (LfReturned r) s = None"

record 'q lf_system =
  lf_mem :: "'q lfpool"
  lf_pcs :: "tid \<Rightarrow> lfpc"

text \<open>An event is a step of a thread, with the result of a \<open>malloc\<close>, or a call by a client.\<close>

datatype lf_event = LfStep tid "addr option" | LfCall "32 word" lf_call

fun lf_next :: "'q queue_ops \<Rightarrow> lf_event \<Rightarrow> 'q lf_system \<Rightarrow> 'q lf_system option" where
  "lf_next Q (LfStep i v) s =
     (case lf_exec Q i v (lf_pcs s i) (lf_mem s) of None \<Rightarrow> None
      | Some (m, p) \<Rightarrow> Some \<lparr>lf_mem = m, lf_pcs = (lf_pcs s)(i := p)\<rparr>)"
| "lf_next Q (LfCall c f) s =
     (case lf_pcs s (Client c) of
        LfReturned r \<Rightarrow> Some (s\<lparr>lf_pcs := (lf_pcs s)(Client c := lf_entry f)\<rparr>)
      | _ \<Rightarrow> None)"

fun lf_is_worker :: "'q lfpool \<Rightarrow> tid \<Rightarrow> bool" where
  "lf_is_worker s (Worker w) \<longleftrightarrow> unat w < unat (lf_thread_count s)"
| "lf_is_worker s (Client c) \<longleftrightarrow> False"

text \<open>
  The pool as a successful \<open>lfthpool_create_sched\<close> leaves it, around the queue \<open>q\<close> that
  \<open>mpmc_ring_queue_new\<close> returned: every handle is set and every worker at its start.
\<close>

definition lf_new_pool :: "size_t \<Rightarrow> 'q \<Rightarrow> 'q lfpool" where
  "lf_new_pool workers q = \<lparr>lf_shutdown = 0, lf_hold = 0, lf_running_count = 0,
     lf_handle = (\<lambda>i. case i of Worker w \<Rightarrow> unat w < unat workers | Client c \<Rightarrow> False),
     lf_thread_count = workers, lf_task_queue = q, heap = (\<lambda>_. None), bad_access = False,
     lf_exited = {}, lf_joined = {}, lf_joined_twice = False, lf_deleted = False,
     lf_submitted = [], lf_taken = [], lf_finished = [], lf_seen = (\<lambda>_. 0), lf_gone = (\<lambda>_. 0), lf_report = (\<lambda>_. 0)\<rparr>"

definition lf_new_system :: "size_t \<Rightarrow> 'q \<Rightarrow> 'q lf_system" where
  "lf_new_system workers q = (let m = lf_new_pool workers q in
     \<lparr>lf_mem = m, lf_pcs = (\<lambda>i. if lf_is_worker m i then LfWorker LW_Shutdown else LfReturned RVoid)\<rparr>)"

definition lf_init :: "('q \<Rightarrow> bool) \<Rightarrow> ('q \<Rightarrow> addr list) \<Rightarrow> 'q lf_system \<Rightarrow> bool" where
  "lf_init ok items s \<longleftrightarrow> (\<exists>workers q. s = lf_new_system workers q \<and> 0 < workers \<and>
     unat workers \<le> 2 ^ 32 \<and> ok q \<and> items q = [])"

end
