(* ===== verification/LfthpoolInv.thy ===== *)
theory LfthpoolInv
  imports Lfthpool
begin

text \<open>
  The invariant of the lock-free pool, proved once for every queue that keeps the promises
  of \<open>mpmc_queue\<close>: each allocated task block has exactly one owner, the history of tasks
  agrees with the queue and with what threads carry, the counter agrees with the threads,
  and a worker whose handle was cleared has returned.
\<close>

section \<open>What the external queue promises\<close>

locale mpmc_queue =
  fixes Q :: "'q queue_ops" and ok :: "'q \<Rightarrow> bool" and items :: "'q \<Rightarrow> addr list"
  assumes enqueue_ok: "ok q \<Longrightarrow> q_enqueue Q p q = (QERR_OK, q') \<Longrightarrow> ok q' \<and> items q' = items q @ [p]"
    and enqueue_fails: "ok q \<Longrightarrow> q_enqueue Q p q = (r, q') \<Longrightarrow> r \<noteq> QERR_OK \<Longrightarrow> ok q' \<and> items q' = items q"
    and dequeue_none: "ok q \<Longrightarrow> q_dequeue Q q = (None, q') \<Longrightarrow> ok q' \<and> items q = [] \<and> items q' = []"
    and dequeue_some: "ok q \<Longrightarrow> q_dequeue Q q = (Some p, q') \<Longrightarrow> ok q' \<and> items q = p # items q'"
    and drain_items: "ok q \<Longrightarrow> mset (q_drain Q q) = mset (items q)"

text \<open>
  Nothing is assumed of the length the queue reports, which its name calls relaxed, except where
  \<open>counted_queue\<close> is named: a queue that holds something does not report 0.
\<close>

locale counted_queue = mpmc_queue Q ok items
  for Q :: "'q queue_ops" and ok :: "'q \<Rightarrow> bool" and items :: "'q \<Rightarrow> addr list" +
  assumes some_len: "ok q \<Longrightarrow> items q \<noteq> [] \<Longrightarrow> 0 < q_len Q q"

text \<open>A circular array of pointers keeps them.\<close>

definition ring_queue_ops :: "ring queue_ops" where
  "ring_queue_ops = \<lparr>
     q_enqueue = (\<lambda>p q. case ring_offer \<lparr>task_function = p, task_arg = 0\<rparr> q of
        None \<Rightarrow> (QERR_FULL, q) | Some q' \<Rightarrow> (QERR_OK, q')),
     q_dequeue = (\<lambda>q. if queue_count q = 0 then (None, q)
        else (Some (task_function (ring_front q)), ring_advance q)),
     q_len = queue_count,
     q_drain = (\<lambda>q. map task_function (ring_items q))\<rparr>"

definition ring_pointers :: "ring \<Rightarrow> addr list" where
  "ring_pointers q = map task_function (ring_items q)"

interpretation ring_queue: mpmc_queue ring_queue_ops ring_ok ring_pointers
proof
  fix q q' :: ring and p r
  assume ok: "ring_ok q"
  show "ring_ok q' \<and> ring_pointers q' = ring_pointers q @ [p]"
    if "q_enqueue ring_queue_ops p q = (QERR_OK, q')"
    using that ok task_ring.offer_items[OF ok] task_ring.offer_ok[OF ok]
    by (auto simp: ring_queue_ops_def ring_pointers_def split: option.splits)
  show "ring_ok q' \<and> ring_pointers q' = ring_pointers q"
    if "q_enqueue ring_queue_ops p q = (r, q')" "r \<noteq> QERR_OK"
    using that ok by (auto simp: ring_queue_ops_def split: option.splits)
  show "ring_ok q' \<and> ring_pointers q = [] \<and> ring_pointers q' = []"
    if "q_dequeue ring_queue_ops q = (None, q')"
    using that ok by (auto simp: ring_queue_ops_def ring_pointers_def ring_items_empty split: if_splits)
  show "ring_ok q' \<and> ring_pointers q = p # ring_pointers q'"
    if "q_dequeue ring_queue_ops q = (Some p, q')"
    using that ok ring_advance_ok[OF ok] ring_advance_items[OF ok]
    by (auto simp: ring_queue_ops_def ring_pointers_def split: if_splits)
  show "mset (q_drain ring_queue_ops q) = mset (ring_pointers q)"
    by (simp add: ring_queue_ops_def ring_pointers_def)
qed

interpretation ring_counted: counted_queue ring_queue_ops ring_ok ring_pointers
proof
  fix q :: ring assume "ring_ok q" "ring_pointers q \<noteq> []"
  then show "0 < q_len ring_queue_ops q"
    by (auto simp: ring_queue_ops_def ring_pointers_def ring_items_empty word_gt_0)
qed

section \<open>Classes of program points\<close>

text \<open>The blocks a thread holds a pointer to that is in neither the queue nor freed.\<close>

fun lf_owned :: "lfpc \<Rightarrow> addr multiset" where
  "lf_owned (LfWorker w) = (case w of LW_Inc p \<Rightarrow> {#p#} | LW_Run p \<Rightarrow> {#p#} | LW_Dec p \<Rightarrow> {#p#}
     | LW_Free p \<Rightarrow> {#p#} | _ \<Rightarrow> {#})"
| "lf_owned (LfTryOnce w) = (case w of LT_Inc p \<Rightarrow> {#p#} | LT_Run p \<Rightarrow> {#p#} | LT_Free p \<Rightarrow> {#p#}
     | _ \<Rightarrow> {#})"
| "lf_owned (LfAdd w) = (case w of LA_Enqueue p \<Rightarrow> {#p#} | LA_Free p \<Rightarrow> {#p#} | _ \<Rightarrow> {#})"
| "lf_owned (LfAddTry w) = (case w of LR_Enqueue p k \<Rightarrow> {#p#} | LR_Free p r \<Rightarrow> {#p#}
     | LR_Sleep p k \<Rightarrow> {#p#} | _ \<Rightarrow> {#})"
| "lf_owned _ = {#}"

text \<open>Taken from the queue and not yet counted in \<open>running_count\<close>.\<close>

fun lf_uncounted :: "lfpc \<Rightarrow> addr multiset" where
  "lf_uncounted (LfWorker w) = (case w of LW_Inc p \<Rightarrow> {#p#} | _ \<Rightarrow> {#})"
| "lf_uncounted (LfTryOnce w) = (case w of LT_Inc p \<Rightarrow> {#p#} | _ \<Rightarrow> {#})"
| "lf_uncounted _ = {#}"

text \<open>Taken from the queue and not yet run.\<close>

fun lf_carried :: "lfpc \<Rightarrow> addr multiset" where
  "lf_carried (LfWorker w) = (case w of LW_Inc p \<Rightarrow> {#p#} | LW_Run p \<Rightarrow> {#p#} | _ \<Rightarrow> {#})"
| "lf_carried (LfTryOnce w) = (case w of LT_Inc p \<Rightarrow> {#p#} | LT_Run p \<Rightarrow> {#p#} | _ \<Rightarrow> {#})"
| "lf_carried _ = {#}"

fun lf_running :: "lfpc \<Rightarrow> bool" where
  "lf_running (LfWorker w) \<longleftrightarrow> (case w of LW_Run p \<Rightarrow> True | LW_Dec p \<Rightarrow> True | _ \<Rightarrow> False)"
| "lf_running (LfTryOnce w) \<longleftrightarrow> (case w of LT_Run p \<Rightarrow> True | LT_Free p \<Rightarrow> True | LT_Dec \<Rightarrow> True
     | _ \<Rightarrow> False)"
| "lf_running _ \<longleftrightarrow> False"

lemma lf_carried_owned: "lf_carried p \<subseteq># lf_owned p"
  by (cases p) (auto split: lwpc.splits ltpc.splits)

lemma lf_carried_uncounted: "\<not> lf_running p \<Longrightarrow> lf_carried p = lf_uncounted p"
  by (cases p) (auto split: lwpc.splits ltpc.splits)

section \<open>What one step does\<close>

lemma lf_resume_at_Some:
  "lf_resume_at f x = Some (m, p) \<longleftrightarrow>
     (\<exists>q. x = Some (m, Inl q) \<and> p = f q) \<or> (\<exists>r. x = Some (m, Inr r) \<and> p = LfReturned r)"
  by (cases "(f, x)" rule: lf_resume_at.cases) auto

lemma lf_exec_points:
  assumes "lf_exec Q i v p m = Some (m', p')"
    and "\<And>q x. lf_worker_step Q i q m = Some (m', x) \<Longrightarrow> P (LfWorker q) (case_sum LfWorker LfReturned x)"
    and "\<And>q x. lf_try_once_step Q q m = Some (m', x) \<Longrightarrow> P (LfTryOnce q) (case_sum LfTryOnce LfReturned x)"
    and "\<And>q x. lf_add_task_step Q v q m = Some (m', x) \<Longrightarrow> P (LfAdd q) (case_sum LfAdd LfReturned x)"
    and "\<And>q x. lf_add_try_step Q v q m = Some (m', x) \<Longrightarrow> P (LfAddTry q) (case_sum LfAddTry LfReturned x)"
    and "\<And>q x. lf_misc_step Q q m = Some (m', x) \<Longrightarrow> P (LfMisc q) (case_sum LfMisc LfReturned x)"
    and "\<And>q x. lf_wait_step Q i q m = Some (m', x) \<Longrightarrow> P (LfWait q) (case_sum LfWait LfReturned x)"
    and "\<And>q x. lf_shutdown_step Q q m = Some (m', x) \<Longrightarrow> P (LfShutdown q) (case_sum LfShutdown LfReturned x)"
  shows "P p p'"
  using assms by (cases p) (fastforce simp: lf_resume_at_Some)+

fun_cases lf_worker_stepE: "lf_worker_step Q i p m = Some r"
fun_cases lf_try_once_stepE: "lf_try_once_step Q p m = Some r"
fun_cases lf_add_task_stepE: "lf_add_task_step Q v p m = Some r"
fun_cases lf_add_try_stepE: "lf_add_try_step Q v p m = Some r"
fun_cases lf_misc_stepE: "lf_misc_step Q p m = Some r"
fun_cases lf_wait_stepE: "lf_wait_step Q i p m = Some r"
fun_cases lf_shutdown_stepE: "lf_shutdown_step Q p m = Some r"

lemmas lf_step_elims = lf_worker_stepE lf_try_once_stepE lf_add_task_stepE lf_add_try_stepE
  lf_misc_stepE lf_wait_stepE lf_shutdown_stepE

lemmas lf_prim_defs [step_defs] = lf_enqueue_def lf_dequeue_def lf_add_running_def lf_sub_running_def
  lf_active_tasks_def free_task_def lf_run_task_def malloc_task_def lf_join_def

lemmas lf_splits = if_splits option.splits prod.splits qerr.splits

text \<open>The eight ways a step touches the heap, the queue and the history of tasks.\<close>

inductive lf_effect :: "'q queue_ops \<Rightarrow> 'q lfpool \<Rightarrow> lfpc \<Rightarrow> 'q lfpool \<Rightarrow> lfpc \<Rightarrow> bool"
  for Q :: "'q queue_ops" and m :: "'q lfpool" and p :: lfpc and m' :: "'q lfpool" and p' :: lfpc where
  none: "heap m' = heap m \<Longrightarrow> bad_access m' = bad_access m \<Longrightarrow> lf_task_queue m' = lf_task_queue m \<Longrightarrow>
    lf_submitted m' = lf_submitted m \<Longrightarrow> lf_taken m' = lf_taken m \<Longrightarrow> lf_finished m' = lf_finished m \<Longrightarrow>
    lf_owned p' = lf_owned p \<Longrightarrow> lf_carried p' = lf_carried p \<Longrightarrow> lf_effect Q m p m' p'"
| alloc: "m' = m\<lparr>heap := (heap m)(a := Some t)\<rparr> \<Longrightarrow> heap m a = None \<Longrightarrow>
    lf_owned p = {#} \<Longrightarrow> lf_owned p' = {#a#} \<Longrightarrow> lf_carried p = {#} \<Longrightarrow> lf_carried p' = {#} \<Longrightarrow>
    lf_effect Q m p m' p'"
| put: "q_enqueue Q a (lf_task_queue m) = (QERR_OK, q) \<Longrightarrow>
    m' = m\<lparr>lf_task_queue := q, lf_submitted := lf_submitted m @ [load m a]\<rparr> \<Longrightarrow>
    lf_owned p = {#a#} \<Longrightarrow> lf_owned p' = {#} \<Longrightarrow> lf_carried p = {#} \<Longrightarrow> lf_carried p' = {#} \<Longrightarrow>
    lf_effect Q m p m' p'"
| put_fails: "q_enqueue Q a (lf_task_queue m) = (r, q) \<Longrightarrow> r \<noteq> QERR_OK \<Longrightarrow>
    m' = m\<lparr>lf_task_queue := q\<rparr> \<Longrightarrow> lf_owned p' = lf_owned p \<Longrightarrow> lf_carried p' = lf_carried p \<Longrightarrow>
    lf_effect Q m p m' p'"
| get: "q_dequeue Q (lf_task_queue m) = (Some a, q) \<Longrightarrow>
    m' = m\<lparr>lf_task_queue := q, lf_taken := lf_taken m @ [load m a]\<rparr> \<Longrightarrow>
    lf_owned p = {#} \<Longrightarrow> lf_owned p' = {#a#} \<Longrightarrow> lf_carried p = {#} \<Longrightarrow> lf_carried p' = {#a#} \<Longrightarrow>
    lf_effect Q m p m' p'"
| get_fails: "q_dequeue Q (lf_task_queue m) = (None, q) \<Longrightarrow> m' = m\<lparr>lf_task_queue := q\<rparr> \<Longrightarrow>
    lf_owned p' = lf_owned p \<Longrightarrow> lf_carried p' = lf_carried p \<Longrightarrow> lf_effect Q m p m' p'"
| execute: "m' = lf_run_task a m \<Longrightarrow> lf_owned p = {#a#} \<Longrightarrow> lf_owned p' = {#a#} \<Longrightarrow>
    lf_carried p = {#a#} \<Longrightarrow> lf_carried p' = {#} \<Longrightarrow> lf_effect Q m p m' p'"
| dispose: "m' = free_task a m \<Longrightarrow> lf_owned p = {#a#} \<Longrightarrow> lf_owned p' = {#} \<Longrightarrow>
    lf_carried p = {#} \<Longrightarrow> lf_carried p' = {#} \<Longrightarrow> lf_effect Q m p m' p'"

lemma lf_exec_effect:
  "lf_exec Q i v p m = Some (m', p') \<Longrightarrow> p \<noteq> LfShutdown LH_DeleteQueue \<longrightarrow> lf_effect Q m p m' p'"
  by (erule lf_exec_points; erule lf_step_elims;
      (auto simp: Some_map_option step_defs intro: lf_effect.none split: if_splits; fail)?;
      (auto simp: Some_map_option lf_enqueue_def lf_dequeue_def malloc_task_def split: lf_splits
         intro: lf_effect.intros)?)

text \<open>The counter, the roles of the threads, the handles.\<close>

lemma lf_exec_running:
  "lf_exec Q i v p m = Some (m', p') \<Longrightarrow> p \<noteq> LfShutdown LH_DeleteQueue \<longrightarrow>
    lf_running_count m' = lf_running_count m + of_bool (lf_running p') - of_bool (lf_running p)"
  by (erule lf_exec_points; erule lf_step_elims;
      auto simp: Some_map_option step_defs split: lf_splits)

lemma lf_exec_roles:
  "lf_exec Q i v p m = Some (m', p') \<Longrightarrow> p \<noteq> LfShutdown LH_DeleteQueue \<longrightarrow>
    lf_thread_count m' = lf_thread_count m \<and> lf_deleted m' = lf_deleted m \<and>
    lf_joined m \<subseteq> lf_joined m' \<and> lf_joined m' \<subseteq> lf_joined m \<union> lf_exited m \<and>
    (if \<exists>q. p = LfWorker q
     then (\<exists>q. p' = LfWorker q) \<and> lf_exited m' = lf_exited m \<or>
       p' = LfReturned RVoid \<and> lf_exited m' = insert i (lf_exited m)
     else (\<forall>q. p' \<noteq> LfWorker q) \<and> lf_exited m' = lf_exited m)"
  by (erule lf_exec_points; erule lf_step_elims;
      auto simp: Some_map_option step_defs split: lf_splits)

text \<open>What a thread inside \<open>lfthpool_shutdown\<close> or \<open>lfthpool_wait\<close> knows.\<close>

fun lf_knows :: "tid \<Rightarrow> lfpc \<Rightarrow> 'q lfpool \<Rightarrow> bool" where
  "lf_knows i (LfShutdown h) m \<longleftrightarrow> (case h of LH_Store d \<Rightarrow> True
     | LH_Test d k \<Rightarrow> \<forall>w :: 32 word. unat w < unat k \<longrightarrow> Worker w \<in> lf_exited m
     | LH_Join d k \<Rightarrow> k < lf_thread_count m \<and>
         (\<forall>w :: 32 word. unat w < unat k \<longrightarrow> Worker w \<in> lf_exited m)
     | LH_Clear d k \<Rightarrow> k < lf_thread_count m \<and> lf_worker_handle k \<in> lf_joined m \<and>
         (\<forall>w :: 32 word. unat w < unat k \<longrightarrow> Worker w \<in> lf_exited m)
     | LH_DeleteQueue \<Rightarrow> \<forall>i. lf_is_worker m i \<longrightarrow> i \<in> lf_exited m)"
| "lf_knows i (LfWait h) m \<longleftrightarrow> (h = LE_Recheck \<longrightarrow> lf_report m i = 0 \<and> lf_gone m i \<le> length (lf_taken m))"
| "lf_knows i _ m \<longleftrightarrow> True"

lemma lf_exec_handles:
  "lf_exec Q i v p m = Some (m', p') \<Longrightarrow> p \<noteq> LfShutdown LH_DeleteQueue \<longrightarrow>
    (lf_handle m' = lf_handle m \<or>
      (\<exists>d k. p = LfShutdown (LH_Clear d k) \<and>
        lf_handle m' = (lf_handle m)(lf_worker_handle k := False)))"
  by (erule lf_exec_points; erule lf_step_elims;
      auto simp: Some_map_option step_defs split: lf_splits)

lemma lf_is_worker_cong: "lf_thread_count m' = lf_thread_count m \<Longrightarrow> lf_is_worker m' i = lf_is_worker m i"
  by (cases i) auto

end
