(* ===== verification/LfthpoolSafe.thy ===== *)
theory LfthpoolSafe
  imports LfthpoolInv
begin

text \<open>
  The invariant of the lock-free pool and its preservation, for every queue that keeps the
  promises of \<open>mpmc_queue\<close>. It speaks of a pool whose queue has not been deleted yet.
\<close>

section \<open>The clauses\<close>

definition lf_running_inv :: "'q lf_system \<Rightarrow> bool" where
  "lf_running_inv s \<longleftrightarrow>
     lf_running_count (lf_mem s) = of_nat (tsum (\<lambda>p. of_bool (lf_running p)) (lf_pcs s))"

definition lf_role_ok :: "'q lfpool \<Rightarrow> tid \<Rightarrow> lfpc \<Rightarrow> bool" where
  "lf_role_ok m i p \<longleftrightarrow> (if lf_is_worker m i
     then (\<exists>q. p = LfWorker q) \<and> i \<notin> lf_exited m \<or> p = LfReturned RVoid \<and> i \<in> lf_exited m
     else (\<forall>q. p \<noteq> LfWorker q) \<and> i \<notin> lf_exited m)"

definition lf_role_inv :: "'q lf_system \<Rightarrow> bool" where
  "lf_role_inv s \<longleftrightarrow> (\<forall>i. lf_role_ok (lf_mem s) i (lf_pcs s i)) \<and>
     lf_joined (lf_mem s) \<subseteq> lf_exited (lf_mem s) \<and> unat (lf_thread_count (lf_mem s)) \<le> 2 ^ 32 \<and>
     (\<forall>i. lf_is_worker (lf_mem s) i \<and> \<not> lf_handle (lf_mem s) i \<longrightarrow> i \<in> lf_joined (lf_mem s))"

definition lf_knows_inv :: "'q lf_system \<Rightarrow> bool" where
  "lf_knows_inv s \<longleftrightarrow> (\<forall>i. lf_knows i (lf_pcs s i) (lf_mem s))"

context mpmc_queue
begin

definition own_inv :: "'q lf_system \<Rightarrow> bool" where
  "own_inv s \<longleftrightarrow> ok (lf_task_queue (lf_mem s)) \<and> \<not> bad_access (lf_mem s) \<and>
     (\<forall>a. count (mset (items (lf_task_queue (lf_mem s))) + tsum lf_owned (lf_pcs s)) a =
        (if heap (lf_mem s) a = None then 0 else 1))"

definition hist_inv :: "'q lf_system \<Rightarrow> bool" where
  "hist_inv s \<longleftrightarrow>
     lf_submitted (lf_mem s) = lf_taken (lf_mem s) @
       map (load (lf_mem s)) (items (lf_task_queue (lf_mem s))) \<and>
     mset (lf_taken (lf_mem s)) = mset (lf_finished (lf_mem s)) +
       image_mset (load (lf_mem s)) (tsum lf_carried (lf_pcs s))"

definition live_pool_inv :: "'q lf_system \<Rightarrow> bool" where
  "live_pool_inv s \<longleftrightarrow> own_inv s \<and> hist_inv s \<and> lf_running_inv s \<and> lf_role_inv s \<and> lf_knows_inv s"

definition lf_inv :: "'q lf_system \<Rightarrow> bool" where
  "lf_inv s \<longleftrightarrow> lf_deleted (lf_mem s) \<or> live_pool_inv s"

section \<open>Blocks and history\<close>

lemma carried_sum_owned: "tsum lf_carried f \<subseteq># tsum lf_owned (f :: tid \<Rightarrow> lfpc)"
proof -
  have "count (tsum lf_carried f) a \<le> count (tsum lf_owned f) a" for a
    unfolding tsum_def count_sum
    by (rule sum_mono, rule mset_subset_eq_count, rule lf_carried_owned)
  then show ?thesis by (simp add: subseteq_mset_def)
qed

lemma sum_after:
  fixes g :: "lfpc \<Rightarrow> addr multiset"
  shows "tsum g (f(i := p)) + g (f i) = tsum g f + g (p :: lfpc)"
  by (rule tsum_upd)

lemma load_cong: "(\<And>a. a \<in># A \<Longrightarrow> heap m a = heap m' a) \<Longrightarrow> image_mset (load m) A = image_mset (load m') A"
  by (rule image_mset_cong) (simp add: load_def)

lemma allocated:
  assumes "own_inv s"
  shows "a \<in> set (items (lf_task_queue (lf_mem s))) \<Longrightarrow> heap (lf_mem s) a \<noteq> None"
    and "a \<in># tsum lf_owned (lf_pcs s) \<Longrightarrow> heap (lf_mem s) a \<noteq> None"
    and "a \<in># tsum lf_owned (lf_pcs s) \<Longrightarrow> a \<notin> set (items (lf_task_queue (lf_mem s)))"
proof -
  let ?I = "mset (items (lf_task_queue (lf_mem s)))" and ?O = "tsum lf_owned (lf_pcs s)"
  have c: "count ?I a + count ?O a = (if heap (lf_mem s) a = None then 0 else 1)"
    using assms by (simp add: own_inv_def)
  show "heap (lf_mem s) a \<noteq> None" if "a \<in> set (items (lf_task_queue (lf_mem s)))"
  proof
    assume "heap (lf_mem s) a = None"
    with c have "count ?I a = 0" by simp
    with that show False by (simp only: count_mset_0_iff not_in_iff) simp
  qed
  show "heap (lf_mem s) a \<noteq> None" if "a \<in># ?O"
  proof
    assume "heap (lf_mem s) a = None"
    with c have "count ?O a = 0" by simp
    with that show False by (simp add: count_eq_zero_iff)
  qed
  show "a \<in># ?O \<Longrightarrow> a \<notin> set (items (lf_task_queue (lf_mem s)))"
  proof
    assume "a \<in># ?O" "a \<in> set (items (lf_task_queue (lf_mem s)))"
    then have "1 \<le> count ?O a" "1 \<le> count ?I a" by (simp_all add: Suc_le_eq)
    moreover have "count ?I a + count ?O a \<le> 1" unfolding c by simp
    ultimately show False by linarith
  qed
qed

lemma owned_once:
  assumes "own_inv s"
  shows "count (tsum lf_owned (lf_pcs s)) a \<le> 1"
proof -
  have "count (mset (items (lf_task_queue (lf_mem s)))) a + count (tsum lf_owned (lf_pcs s)) a =
      (if heap (lf_mem s) a = None then 0 else 1)"
    using assms by (simp add: own_inv_def)
  also have "\<dots> \<le> 1" by simp
  finally show ?thesis by simp
qed

lemma owned_by: "a \<in># lf_owned (lf_pcs s i) \<Longrightarrow> a \<in># tsum lf_owned (lf_pcs s)"
  using tsum_split[of lf_owned "lf_pcs s" i] by simp

lemma mem_tsum: "a \<in># tsum g (f :: tid \<Rightarrow> lfpc) \<longleftrightarrow> (\<exists>t. a \<in># g (f t))"
proof -
  have "a \<notin># tsum g f \<longleftrightarrow> (\<forall>t. a \<notin># g (f t))" by (simp add: tsum_def not_in_iff count_sum)
  then show ?thesis by blast
qed

text \<open>No two threads own the same block.\<close>

lemma owned_elsewhere:
  assumes "own_inv s" and "a \<in># lf_owned (lf_pcs s i)" and "t \<noteq> i"
  shows "a \<notin># lf_owned (lf_pcs s t)"
proof
  assume t: "a \<in># lf_owned (lf_pcs s t)"
  let ?f = "\<lambda>t. count (lf_owned (lf_pcs s t)) a"
  have "2 \<le> ?f i + ?f t" using assms(2) t by (simp add: Suc_le_eq flip: count_greater_zero_iff)
  also have "\<dots> = sum ?f {i, t}" using assms(3) by simp
  also have "\<dots> \<le> sum ?f UNIV" by (rule sum_mono2) auto
  also have "\<dots> = count (tsum lf_owned (lf_pcs s)) a" by (simp add: tsum_def count_sum)
  also have "\<dots> \<le> 1" by (rule owned_once[OF assms(1)])
  finally show False by simp
qed

lemma own_step:
  assumes inv: "own_inv s" and e: "lf_effect Q (lf_mem s) (lf_pcs s i) m p"
  shows "own_inv \<lparr>lf_mem = m, lf_pcs = (lf_pcs s)(i := p)\<rparr>"
proof -
  let ?q = "lf_task_queue (lf_mem s)" and ?O = "tsum lf_owned (lf_pcs s)"
  let ?O' = "tsum lf_owned ((lf_pcs s)(i := p))"
  have okq: "ok ?q" and good: "\<not> bad_access (lf_mem s)"
    and c: "\<And>a. count (mset (items ?q) + ?O) a = (if heap (lf_mem s) a = None then 0 else 1)"
    using inv by (auto simp: own_inv_def)
  note o = sum_after[of lf_owned "lf_pcs s" i p]
  from e show ?thesis
  proof cases
    case none
    with o c okq good show ?thesis by (simp add: own_inv_def)
  next
    case (alloc a t)
    with o have "?O' = ?O + {#a#}" by simp
    with alloc c okq good show ?thesis by (auto simp: own_inv_def)
  next
    case (put a q)
    with o have "?O' + {#a#} = ?O" by simp
    then have "?O = add_mset a ?O'" by simp
    with put c enqueue_ok[OF okq put(1)] good show ?thesis by (simp add: own_inv_def)
  next
    case (put_fails a r q)
    with o c enqueue_fails[OF okq put_fails(1,2)] good show ?thesis by (simp add: own_inv_def)
  next
    case (get a q)
    with o have "?O' = ?O + {#a#}" by simp
    with get c dequeue_some[OF okq get(1)] good show ?thesis by (simp add: own_inv_def)
  next
    case (get_fails q)
    with o c dequeue_none[OF okq get_fails(1)] good show ?thesis by (simp add: own_inv_def)
  next
    case (execute a)
    have "heap (lf_mem s) a \<noteq> None"
      using allocated(2)[OF inv] owned_by[of a s i] execute(2) by simp
    with execute o c okq good show ?thesis by (simp add: own_inv_def lf_run_task_def)
  next
    case (dispose a)
    have h: "heap (lf_mem s) a \<noteq> None"
      using allocated(2)[OF inv] owned_by[of a s i] dispose(2) by simp
    from dispose o have O: "?O = add_mset a ?O'" by simp
    have "count (mset (items ?q) + ?O') b = (if ((heap (lf_mem s))(a := None)) b = None then 0 else 1)" for b
      using c[of b] h unfolding O by (auto split: if_splits)
    with dispose h okq good show ?thesis by (simp add: own_inv_def free_task_def)
  qed
qed

lemma hist_step:
  assumes inv: "own_inv s" "hist_inv s" and e: "lf_effect Q (lf_mem s) (lf_pcs s i) m p"
  shows "hist_inv \<lparr>lf_mem = m, lf_pcs = (lf_pcs s)(i := p)\<rparr>"
proof -
  let ?q = "lf_task_queue (lf_mem s)" and ?C = "tsum lf_carried (lf_pcs s)"
  let ?C' = "tsum lf_carried ((lf_pcs s)(i := p))" and ?M = "lf_mem s"
  have okq: "ok ?q" using inv by (simp add: own_inv_def)
  have sub: "lf_submitted ?M = lf_taken ?M @ map (load ?M) (items ?q)"
    and tak: "mset (lf_taken ?M) = mset (lf_finished ?M) + image_mset (load ?M) ?C"
    using inv(2) by (auto simp: hist_inv_def)
  note c = sum_after[of lf_carried "lf_pcs s" i p]
  have CO: "a \<in># ?C \<Longrightarrow> a \<in># tsum lf_owned (lf_pcs s)" for a
    by (rule mset_subset_eqD[OF carried_sum_owned])
  have keep: "map (load m) (items ?q) = map (load ?M) (items ?q) \<and>
      image_mset (load m) ?C = image_mset (load ?M) ?C"
    if "\<And>b. b \<in> set (items ?q) \<or> b \<in># ?C \<Longrightarrow> heap m b = heap ?M b"
  proof
    have same: "load m b = load ?M b" if "b \<in> set (items ?q) \<or> b \<in># ?C" for b
      using \<open>\<And>b. b \<in> set (items ?q) \<or> b \<in># ?C \<Longrightarrow> heap m b = heap ?M b\<close>[OF that] by (simp add: load_def)
    show "map (load m) (items ?q) = map (load ?M) (items ?q)" using same by (intro map_cong) blast+
    show "image_mset (load m) ?C = image_mset (load ?M) ?C" using same by (intro image_mset_cong) blast
  qed
  from e show ?thesis
  proof cases
    case none
    with c have "?C' = ?C" by simp
    with none keep sub tak show ?thesis by (simp add: hist_inv_def)
  next
    case (alloc a t)
    have "b \<noteq> a" if "b \<in> set (items ?q) \<or> b \<in># ?C" for b
      using that alloc(2) allocated(1,2)[OF inv(1)] CO by blast
    then have "heap m b = heap ?M b" if "b \<in> set (items ?q) \<or> b \<in># ?C" for b
      using that alloc(1) by auto
    note keep[OF this]
    moreover from alloc c have "?C' = ?C" by simp
    ultimately show ?thesis using alloc(1) sub tak by (simp add: hist_inv_def)
  next
    case (put a q)
    with c have "?C' = ?C" by simp
    moreover have "load m = load ?M" by (simp add: put fun_eq_iff load_def)
    ultimately show ?thesis
      using put enqueue_ok[OF okq put(1)] sub tak by (simp add: hist_inv_def)
  next
    case (put_fails a r q)
    moreover from this c have "?C' = ?C" by simp
    moreover have "load m = load ?M" by (simp add: put_fails fun_eq_iff load_def)
    ultimately show ?thesis
      using enqueue_fails[OF okq put_fails(1,2)] sub tak by (simp add: hist_inv_def)
  next
    case (get a q)
    with c have "?C' = add_mset a ?C" by simp
    moreover have "load m = load ?M" by (simp add: get fun_eq_iff load_def)
    ultimately show ?thesis
      using get dequeue_some[OF okq get(1)] sub tak by (simp add: hist_inv_def)
  next
    case (get_fails q)
    moreover from this c have "?C' = ?C" by simp
    moreover have "load m = load ?M" by (simp add: get_fails fun_eq_iff load_def)
    ultimately show ?thesis
      using dequeue_none[OF okq get_fails(1)] sub tak by (simp add: hist_inv_def)
  next
    case (execute a)
    with c have "?C = add_mset a ?C'" by simp
    moreover have "load m = load ?M" by (simp add: execute lf_run_task_def fun_eq_iff load_def)
    ultimately show ?thesis
      using execute sub tak by (simp add: hist_inv_def lf_run_task_def)
  next
    case (dispose a)
    from dispose c have C: "?C' = ?C" by simp
    have own: "a \<in># lf_owned (lf_pcs s i)" using dispose(2) by simp
    then have O: "a \<in># tsum lf_owned (lf_pcs s)" by (rule owned_by)
    have "a \<notin># ?C"
    proof
      assume "a \<in># ?C"
      then obtain t where t: "a \<in># lf_carried (lf_pcs s t)" by (auto simp: mem_tsum)
      with dispose(4) have "t \<noteq> i" by auto
      with owned_elsewhere[OF inv(1) own] mset_subset_eqD[OF lf_carried_owned t] show False by blast
    qed
    then have "heap m b = heap ?M b" if "b \<in> set (items ?q) \<or> b \<in># ?C" for b
      using that allocated(3)[OF inv(1) O] by (auto simp: dispose free_task_def)
    note keep[OF this]
    with dispose C sub tak show ?thesis by (simp add: hist_inv_def free_task_def)
  qed
qed

end

section \<open>Counter, roles and knowledge\<close>

lemma lf_running_less: "tsum (\<lambda>p. of_bool (lf_running p) :: nat) (f :: tid \<Rightarrow> lfpc) < 2 ^ 64"
  using tsum_of_bool_le[of lf_running f] by (simp add: card_tid)

lemma lf_running_step:
  assumes "lf_running_inv s" and "lf_exec Q i v (lf_pcs s i) (lf_mem s) = Some (m, p)"
    and "lf_pcs s i \<noteq> LfShutdown LH_DeleteQueue"
  shows "lf_running_inv \<lparr>lf_mem = m, lf_pcs = (lf_pcs s)(i := p)\<rparr>"
proof -
  let ?g = "\<lambda>p. of_bool (lf_running p) :: nat"
  have "of_nat (tsum ?g ((lf_pcs s)(i := p)) + ?g (lf_pcs s i)) =
      (of_nat (tsum ?g (lf_pcs s) + ?g p) :: size_t)"
    by (rule arg_cong[OF tsum_upd])
  then have "(of_nat (tsum ?g ((lf_pcs s)(i := p))) :: size_t) =
      of_nat (tsum ?g (lf_pcs s)) + of_bool (lf_running p) - of_bool (lf_running (lf_pcs s i))"
    by (simp add: eq_diff_eq)
  with assms(1,3) lf_exec_running[OF assms(2)] show ?thesis by (simp add: lf_running_inv_def)
qed

lemma lf_role_step:
  assumes inv: "lf_role_inv s" "lf_knows_inv s"
    and e: "lf_exec Q i v (lf_pcs s i) (lf_mem s) = Some (m, p)"
    and live: "lf_pcs s i \<noteq> LfShutdown LH_DeleteQueue"
  shows "lf_role_inv \<lparr>lf_mem = m, lf_pcs = (lf_pcs s)(i := p)\<rparr>"
proof -
  let ?M = "lf_mem s"
  note roles = lf_exec_roles[OF e, rule_format, OF live]
  have same: "lf_is_worker m j \<longleftrightarrow> lf_is_worker ?M j" for j
    using roles by (intro lf_is_worker_cong) simp
  have ok: "lf_role_ok ?M j (lf_pcs s j)" for j using inv(1) by (simp add: lf_role_inv_def)
  have grow: "lf_exited m \<subseteq> insert i (lf_exited ?M)" "lf_exited ?M \<subseteq> lf_exited m"
    using roles by (auto split: if_splits)
  have moved: "lf_role_ok m i p"
  proof (cases "\<exists>q. lf_pcs s i = LfWorker q")
    case True
    with ok[of i] roles show ?thesis by (auto simp: lf_role_ok_def same split: if_splits)
  next
    case False
    then have "lf_pcs s i \<noteq> LfReturned RVoid" "lf_exited m = lf_exited ?M" "\<forall>q. p \<noteq> LfWorker q"
      using e roles by auto
    with False ok[of i] show ?thesis by (auto simp: lf_role_ok_def same split: if_splits)
  qed
  moreover have "lf_role_ok m j (lf_pcs s j)" if "j \<noteq> i" for j
    using ok[of j] that grow by (auto simp: lf_role_ok_def same split: if_splits)
  moreover have "lf_joined m \<subseteq> lf_exited m" "unat (lf_thread_count m) \<le> 2 ^ 32"
  proof -
    have "lf_joined m \<subseteq> lf_joined ?M \<union> lf_exited ?M" "lf_joined ?M \<subseteq> lf_exited ?M"
      using roles inv(1) by (simp_all add: lf_role_inv_def)
    with grow(2) show "lf_joined m \<subseteq> lf_exited m" by blast
    show "unat (lf_thread_count m) \<le> 2 ^ 32" using roles inv(1) by (simp add: lf_role_inv_def)
  qed
  moreover have "j \<in> lf_joined m" if "lf_is_worker m j" "\<not> lf_handle m j" for j
  proof (cases "lf_handle ?M j")
    case False
    with that inv(1) roles show ?thesis by (auto simp: lf_role_inv_def same)
  next
    case True
    with that lf_exec_handles[OF e] live obtain d k where "lf_pcs s i = LfShutdown (LH_Clear d k)"
      and "j = lf_worker_handle k" by (auto split: if_splits)
    moreover have "lf_knows i (lf_pcs s i) ?M" using inv(2) by (simp add: lf_knows_inv_def)
    ultimately show ?thesis using roles by auto
  qed
  ultimately show ?thesis by (simp add: lf_role_inv_def)
qed

text \<open>Another thread's step leaves true what a thread knows.\<close>

lemma lf_exec_grows:
  "lf_exec Q i v p m = Some (m', p') \<Longrightarrow> p \<noteq> LfShutdown LH_DeleteQueue \<longrightarrow>
    length (lf_taken m) \<le> length (lf_taken m') \<and> (\<forall>j. j \<noteq> i \<longrightarrow> lf_gone m' j = lf_gone m j \<and> lf_report m' j = lf_report m j)"
  by (erule lf_exec_points; erule lf_step_elims;
      auto simp: Some_map_option step_defs split: lf_splits)

lemma lf_knows_stable:
  assumes "lf_knows j q m" and "j \<noteq> i" and live: "p \<noteq> LfShutdown LH_DeleteQueue"
    and e: "lf_exec Q i v p m = Some (m', p')"
  shows "lf_knows j q m'"
proof -
  note roles = lf_exec_roles[OF e, rule_format, OF live] and grows = lf_exec_grows[OF e, rule_format, OF live]
  have "lf_exited m \<subseteq> lf_exited m'" using roles by (auto split: if_splits)
  moreover have "lf_joined m \<subseteq> lf_joined m'" "lf_thread_count m' = lf_thread_count m"
    using roles by auto
  moreover have "lf_is_worker m' j \<longleftrightarrow> lf_is_worker m j" for j
    using roles by (intro lf_is_worker_cong) simp
  ultimately show ?thesis
    using assms(1,2) grows by (cases q) (auto split: lhpc.splits)
qed

lemma lf_knows_test:
  assumes "\<forall>w :: 32 word. unat w < unat k \<longrightarrow> Worker w \<in> lf_exited m"
    and "k < lf_thread_count m" and "unat (lf_thread_count m) \<le> 2 ^ 32"
    and "lf_worker_handle k \<in> lf_exited m"
  shows "\<forall>w :: 32 word. unat w < unat (k + 1) \<longrightarrow> Worker w \<in> lf_exited m"
  using handle_below_next[OF assms(2,3)] assms(1,4) by (auto simp: lf_worker_handle_def)

lemma lf_all_exited:
  assumes "\<forall>w :: 32 word. unat w < unat k \<longrightarrow> Worker w \<in> lf_exited m" and "\<not> k < lf_thread_count m"
  shows "lf_is_worker m i \<Longrightarrow> i \<in> lf_exited m"
  using assms by (cases i) (auto simp: word_le_nat_alt not_less)

lemma lf_handle_is_worker:
  assumes "k < lf_thread_count m" and "unat (lf_thread_count m) \<le> 2 ^ 32"
  shows "lf_is_worker m (lf_worker_handle k)"
proof -
  have k: "unat k < unat (lf_thread_count m)" using assms(1) by (simp add: word_less_nat_alt)
  then have "unat (ucast k :: 32 word) = unat k"
    using assms(2) by (simp add: unsigned_ucast_eq take_bit_nat_eq_self)
  with k show ?thesis by (simp add: lf_worker_handle_def)
qed

lemma lf_exec_knows_shutdown:
  assumes e: "lf_shutdown_step Q h m = Some (m', x)" and k: "lf_knows i (LfShutdown h) m"
    and n: "unat (lf_thread_count m) \<le> 2 ^ 32" and j: "lf_joined m \<subseteq> lf_exited m"
    and z: "\<forall>i. lf_is_worker m i \<and> \<not> lf_handle m i \<longrightarrow> i \<in> lf_joined m"
  shows "lf_knows i (case_sum LfShutdown LfReturned x) m'"
proof (cases h)
  case (LH_Test d k)
  note below = k[unfolded LH_Test lf_knows.simps lhpc.case]
  show ?thesis
  proof (cases "k < lf_thread_count m")
    case True
    have "lf_worker_handle k \<in> lf_exited m" if "\<not> lf_handle m (lf_worker_handle k)"
      using that z j lf_handle_is_worker[OF True n] by blast
    with lf_knows_test[OF below True n] True e below show ?thesis
      by (auto simp: LH_Test)
  next
    case False
    with lf_all_exited[OF below False] e show ?thesis by (auto simp: LH_Test)
  qed
next
  case (LH_Clear d k)
  then have below: "\<forall>w :: 32 word. unat w < unat k \<longrightarrow> Worker w \<in> lf_exited m"
    and lt: "k < lf_thread_count m" and "lf_worker_handle k \<in> lf_exited m"
    using k j by auto
  with lf_knows_test[OF below lt n] e show ?thesis by (auto simp: LH_Clear)
qed (use e k in \<open>auto simp: lf_join_def split: if_splits\<close>)

lemma lf_exec_knows:
  assumes e: "lf_exec Q i v p m = Some (m', p')" and k: "lf_knows i p m"
    and n: "unat (lf_thread_count m) \<le> 2 ^ 32" and j: "lf_joined m \<subseteq> lf_exited m"
    and z: "\<forall>i. lf_is_worker m i \<and> \<not> lf_handle m i \<longrightarrow> i \<in> lf_joined m"
  shows "lf_knows i p' m'"
proof (cases p)
  case (LfShutdown h)
  with e obtain x where x: "lf_shutdown_step Q h m = Some (m', x)"
    and "p' = case_sum LfShutdown LfReturned x"
    by (auto simp: lf_resume_at_Some simp del: lf_shutdown_step.simps)
  with lf_exec_knows_shutdown[OF x _ n j z] k show ?thesis by (simp only: LfShutdown)
next
  case (LfWait h)
  then show ?thesis using e k
    by (cases h) (auto simp: word_gt_0 split: if_splits)
qed (use e in \<open>auto simp: lf_resume_at_Some\<close>)

section \<open>The invariant is kept\<close>

lemma lf_step_Some:
  "lf_next Q (LfStep i v) s = Some s' \<longleftrightarrow>
    (\<exists>m p. lf_exec Q i v (lf_pcs s i) (lf_mem s) = Some (m, p) \<and>
      s' = \<lparr>lf_mem = m, lf_pcs = (lf_pcs s)(i := p)\<rparr>)"
proof (cases "lf_exec Q i v (lf_pcs s i) (lf_mem s)")
  case (Some mp)
  obtain m p where "mp = (m, p)" by (cases mp)
  with Some have e: "lf_exec Q i v (lf_pcs s i) (lf_mem s) = Some (m, p)" by (simp only:)
  show ?thesis unfolding lf_next.simps e by auto
qed simp

lemma lf_call_Some:
  "lf_next Q (LfCall c f) s = Some s' \<longleftrightarrow>
    (\<exists>r. lf_pcs s (Client c) = LfReturned r) \<and> s' = s\<lparr>lf_pcs := (lf_pcs s)(Client c := lf_entry f)\<rparr>"
  by (auto split: lfpc.splits)

lemma lf_entry_neutral [simp]:
  "lf_owned (lf_entry f) = {#}" "lf_carried (lf_entry f) = {#}" "lf_running (lf_entry f) = False"
  "lf_uncounted (lf_entry f) = {#}" "lf_knows i (lf_entry f) m" "lf_entry f \<noteq> LfWorker q"
  "lf_entry f \<noteq> LfReturned r"
  by (cases f; simp)+

lemma lf_delete_deletes:
  "lf_exec Q i v (LfShutdown LH_DeleteQueue) m = Some (m', p') \<Longrightarrow> lf_deleted m'"
  by auto

lemma lf_deleted_stays:
  assumes "lf_exec Q i v p m = Some (m', p')" and "lf_deleted m"
  shows "lf_deleted m'"
proof (cases "p = LfShutdown LH_DeleteQueue")
  case True
  with assms(1) lf_delete_deletes show ?thesis by blast
next
  case False
  with lf_exec_roles[OF assms(1)] assms(2) show ?thesis by simp
qed

context mpmc_queue
begin

lemma lf_inv_step:
  assumes inv: "live_pool_inv s" and e: "lf_exec Q i v (lf_pcs s i) (lf_mem s) = Some (m, p)"
    and live: "lf_pcs s i \<noteq> LfShutdown LH_DeleteQueue"
  shows "live_pool_inv \<lparr>lf_mem = m, lf_pcs = (lf_pcs s)(i := p)\<rparr>"
proof -
  have I: "own_inv s" "hist_inv s" "lf_running_inv s" "lf_role_inv s" "lf_knows_inv s"
    using inv by (auto simp: live_pool_inv_def)
  note eff = lf_exec_effect[OF e, rule_format, OF live]
  have "lf_knows j (((lf_pcs s)(i := p)) j) m" for j
  proof (cases "j = i")
    case True
    have "lf_knows i p m"
      by (rule lf_exec_knows[OF e]) (use I in \<open>auto simp: lf_knows_inv_def lf_role_inv_def\<close>)
    with True show ?thesis by simp
  next
    case False
    have "lf_knows j (lf_pcs s j) m"
      by (rule lf_knows_stable[OF _ False live e]) (use I in \<open>simp add: lf_knows_inv_def\<close>)
    with False show ?thesis by simp
  qed
  with own_step[OF I(1) eff] hist_step[OF I(1,2) eff] lf_running_step[OF I(3) e live]
    lf_role_step[OF I(4,5) e live]
  show ?thesis by (simp add: live_pool_inv_def lf_knows_inv_def)
qed

lemma lf_inv_call:
  assumes inv: "live_pool_inv s" and r: "lf_pcs s (Client c) = LfReturned r"
    and s': "s' = s\<lparr>lf_pcs := (lf_pcs s)(Client c := lf_entry f)\<rparr>"
  shows "live_pool_inv s'"
proof -
  have "tsum lf_owned (lf_pcs s') = tsum lf_owned (lf_pcs s)"
    "tsum lf_carried (lf_pcs s') = tsum lf_carried (lf_pcs s)"
    "tsum (\<lambda>p. of_bool (lf_running p) :: nat) (lf_pcs s') = tsum (\<lambda>p. of_bool (lf_running p)) (lf_pcs s)"
    using tsum_upd_eq[of lf_owned "lf_pcs s" "Client c" "lf_entry f"]
      tsum_upd_eq[of lf_carried "lf_pcs s" "Client c" "lf_entry f"]
      tsum_upd_eq[of "\<lambda>p. of_bool (lf_running p) :: nat" "lf_pcs s" "Client c" "lf_entry f"]
    by (simp_all add: s' r)
  moreover have "lf_role_inv s'" using inv r unfolding live_pool_inv_def lf_role_inv_def
    by (auto simp: s' lf_role_ok_def)
  moreover have "lf_knows_inv s'" using inv unfolding live_pool_inv_def lf_knows_inv_def
    by (auto simp: s')
  moreover have "lf_mem s' = lf_mem s" by (simp add: s')
  ultimately show ?thesis
    using inv by (simp add: live_pool_inv_def own_inv_def hist_inv_def lf_running_inv_def)
qed

lemma lf_inv_init:
  assumes "lf_init ok items s"
  shows "live_pool_inv s"
proof -
  obtain workers q where s: "s = lf_new_system workers q" and q: "ok q" "items q = []"
    and w: "unat workers \<le> 2 ^ 32"
    using assms unfolding lf_init_def by blast
  have "tsum lf_owned (lf_pcs s) = {#}" "tsum lf_carried (lf_pcs s) = {#}"
    "tsum (\<lambda>p. of_bool (lf_running p) :: nat) (lf_pcs s) = 0"
    by (auto intro!: tsum_const_zero simp: s lf_new_system_def Let_def)
  moreover have "lf_role_ok (lf_mem s) i (lf_pcs s i) \<and> lf_knows i (lf_pcs s i) (lf_mem s) \<and>
      (lf_is_worker (lf_mem s) i \<longrightarrow> lf_handle (lf_mem s) i)" for i
    by (cases i) (auto simp: s lf_new_system_def lf_new_pool_def lf_role_ok_def Let_def)
  ultimately show ?thesis
    using q w unfolding live_pool_inv_def own_inv_def hist_inv_def lf_running_inv_def
      lf_role_inv_def lf_knows_inv_def
    by (simp add: s lf_new_system_def lf_new_pool_def Let_def)
qed

lemma lf_inv_next:
  assumes "lf_inv s" and n: "lf_next Q e s = Some s'"
  shows "lf_inv s'"
proof (cases e)
  case (LfStep i v)
  with n obtain m p where e: "lf_exec Q i v (lf_pcs s i) (lf_mem s) = Some (m, p)"
    and s': "s' = \<lparr>lf_mem = m, lf_pcs = (lf_pcs s)(i := p)\<rparr>"
    by (auto simp only: lf_step_Some)
  show ?thesis
  proof (cases "lf_deleted (lf_mem s) \<or> lf_pcs s i = LfShutdown LH_DeleteQueue")
    case True
    have "lf_deleted m" using True lf_deleted_stays[OF e] lf_delete_deletes e by metis
    then show ?thesis by (simp add: lf_inv_def s')
  next
    case False
    with assms(1) lf_inv_step[OF _ e] show ?thesis by (simp add: lf_inv_def s')
  qed
next
  case (LfCall c f)
  with n obtain r where r: "lf_pcs s (Client c) = LfReturned r"
    and s': "s' = s\<lparr>lf_pcs := (lf_pcs s)(Client c := lf_entry f)\<rparr>"
    by (auto simp only: lf_call_Some)
  with lf_inv_call[OF _ r s'] assms(1) show ?thesis by (auto simp: lf_inv_def)
qed

end

sublocale mpmc_queue \<subseteq> lf: safety "lf_init ok items" "lf_next Q" lf_inv
proof
  show "lf_init ok items s \<Longrightarrow> lf_inv s" for s using lf_inv_init by (simp add: lf_inv_def)
  show "lf_inv s \<Longrightarrow> lf_next Q e s = Some s' \<Longrightarrow> lf_inv s'" for s e s' by (rule lf_inv_next)
qed

context mpmc_queue
begin

lemma reach_live:
  "reach (lf_init ok items) (lf_next Q) s \<Longrightarrow> \<not> lf_deleted (lf_mem s) \<Longrightarrow> live_pool_inv s"
  using lf.reach_inv by (auto simp: lf_inv_def)

end

end
