(* ===== verification/LfthpoolProps.thy ===== *)
theory LfthpoolProps
  imports LfthpoolSafe
begin

text \<open>
  The properties of the lock-free pool, for every external queue that keeps the promises of
  \<open>mpmc_queue\<close>, with concrete schedules over the ring queue as witnesses.
\<close>

section \<open>Concrete schedules\<close>

definition lf_task :: task_t where
  "lf_task = \<lparr>task_function = 8192, task_arg = 3\<rparr>"

text \<open>One worker, room for two tasks.\<close>

definition lf_small_pool :: "ring lf_system" where
  "lf_small_pool = lf_new_system 1 (ring_new [lf_task, lf_task] 2)"

definition lf_steps :: "tid \<Rightarrow> nat \<Rightarrow> lf_event list" where
  "lf_steps i n = replicate n (LfStep i None)"

lemma lf_steps_simps [simp]:
  "lf_steps i 0 = []" "lf_steps i (Suc n) = LfStep i None # lf_steps i n"
  "lf_steps i (numeral k) = LfStep i None # lf_steps i (pred_numeral k)"
  by (simp_all add: lf_steps_def numeral_eq_Suc)

lemmas eval_lf = lf_small_pool_def lf_new_system_def lf_new_pool_def lf_task_def ring_queue_ops_def
  ring_new_def ring_offer_def ring_full_def ring_put_def ring_advance_def ring_front_def
  lf_prim_defs load_def lf_worker_handle_def

lemma lf_small_pool_init: "lf_init ring_ok ring_pointers lf_small_pool"
proof -
  have "ring_ok (ring_new [lf_task, lf_task] 2)" by (rule ring_new_ok) simp_all
  then show ?thesis
    unfolding lf_init_def lf_small_pool_def
    by (intro exI[of _ 1] exI[of _ "ring_new [lf_task, lf_task] 2"]) (simp add: ring_pointers_def)
qed

lemma lf_small_pool_reach: "reach (lf_init ring_ok ring_pointers) (lf_next ring_queue_ops) lf_small_pool"
  by (rule reach_init) (rule lf_small_pool_init)

lemma lf_small_pool_run:
  "run (lf_next ring_queue_ops) es lf_small_pool = Some s \<Longrightarrow>
    reach (lf_init ring_ok ring_pointers) (lf_next ring_queue_ops) s"
  by (rule reach_run[OF _ lf_small_pool_reach])

text \<open>A task accepted and taken by the worker, which has not counted itself yet.\<close>

definition lf_sched_taken :: "lf_event list" where
  "lf_sched_taken = LfCall 0 (LfCallAdd lf_task) # LfStep (Client 0) (Some 4096) #
     lf_steps (Client 0) 1 @ lf_steps (Worker 0) 3"

definition lf_state_taken :: "ring lf_system" where
  "lf_state_taken = \<lparr>lf_mem = (lf_mem lf_small_pool)\<lparr>
       lf_task_queue := \<lparr>task_queue = [\<lparr>task_function = 4096, task_arg = 0\<rparr>, lf_task],
         queue_size = 2, queue_count = 0, head = 1, tail = 1\<rparr>,
       heap := (\<lambda>_. None)(4096 := Some lf_task),
       lf_submitted := [lf_task], lf_taken := [lf_task]\<rparr>,
     lf_pcs = (lf_pcs lf_small_pool)(Client 0 := LfReturned (RInt 0), Worker 0 := LfWorker (LW_Inc 4096))\<rparr>"

lemma lf_run_taken: "run (lf_next ring_queue_ops) lf_sched_taken lf_small_pool = Some lf_state_taken"
  by (simp add: lf_sched_taken_def lf_state_taken_def eval_lf fun_upd_twist)

lemma lf_reach_taken: "reach (lf_init ring_ok ring_pointers) (lf_next ring_queue_ops) lf_state_taken"
  by (rule lf_small_pool_run[OF lf_run_taken])

lemmas lf_live = mpmc_queue.reach_live

lemmas lf_clauses = mpmc_queue.live_pool_inv_def mpmc_queue.own_inv_def mpmc_queue.hist_inv_def

section \<open>Memory and tasks\<close>

text \<open>
  C10: As long as \<open>lfthpool_destroy\<close> has not deleted the queue, the task blocks of the lock-free
  pool are managed correctly by every interleaving: a block is allocated exactly when it is in the
  queue once or held by one thread, never both, and no thread has run or freed a block that was
  not allocated.
\<close>

theorem lfthpool_memory_safe:
  assumes "mpmc_queue Q ok items" and "reach (lf_init ok items) (lf_next Q) s"
    and "\<not> lf_deleted (lf_mem s)"
  shows "\<not> bad_access (lf_mem s) \<and>
    (\<forall>a. count (mset (items (lf_task_queue (lf_mem s))) + tsum lf_owned (lf_pcs s)) a =
      (if heap (lf_mem s) a = None then 0 else 1))"
  using lf_live[OF assms] by (simp add: lf_clauses[OF assms(1)])

theorem lfthpool_memory_safe_witness:
  "\<not> bad_access (lf_mem lf_state_taken) \<and> 4096 \<in># tsum lf_owned (lf_pcs lf_state_taken)"
proof -
  have "\<not> lf_deleted (lf_mem lf_state_taken)" by (simp add: lf_state_taken_def eval_lf)
  note safe = lfthpool_memory_safe[OF ring_queue.mpmc_queue_axioms lf_reach_taken this]
  then have "count (mset (ring_pointers (lf_task_queue (lf_mem lf_state_taken))) +
      tsum lf_owned (lf_pcs lf_state_taken)) 4096 = 1"
    by (simp add: lf_state_taken_def)
  moreover have "ring_pointers (lf_task_queue (lf_mem lf_state_taken)) = []"
    by (simp add: lf_state_taken_def ring_pointers_def ring_items_def)
  ultimately show ?thesis using safe by (simp add: flip: count_greater_zero_iff)
qed

text \<open>
  The lock-free pool is first in, first out and loses no task: the tasks accepted are
  the tasks taken followed by those the queue points to, and every task taken has either run
  or is still carried by the one thread that took it.
\<close>

theorem lfthpool_fifo_conservation:
  assumes "mpmc_queue Q ok items" and "reach (lf_init ok items) (lf_next Q) s"
    and "\<not> lf_deleted (lf_mem s)"
  shows "lf_submitted (lf_mem s) = lf_taken (lf_mem s) @
      map (load (lf_mem s)) (items (lf_task_queue (lf_mem s))) \<and>
    mset (lf_taken (lf_mem s)) = mset (lf_finished (lf_mem s)) +
      image_mset (load (lf_mem s)) (tsum lf_carried (lf_pcs s))"
  using lf_live[OF assms] by (simp add: lf_clauses[OF assms(1)])

theorem lfthpool_fifo_conservation_witness:
  "image_mset (load (lf_mem lf_state_taken)) (tsum lf_carried (lf_pcs lf_state_taken)) = {#lf_task#}"
proof -
  have "\<not> lf_deleted (lf_mem lf_state_taken)" by (simp add: lf_state_taken_def eval_lf)
  from lfthpool_fifo_conservation[OF ring_queue.mpmc_queue_axioms lf_reach_taken this]
  show ?thesis by (simp add: lf_state_taken_def eval_lf)
qed

section \<open>Counting and waiting\<close>

lemma lf_running_card:
  assumes "lf_running_inv s"
  shows "unat (lf_active_tasks (lf_mem s)) = card {i. lf_running (lf_pcs s i)}"
proof -
  have "card {i. lf_running (lf_pcs s i)} < 2 ^ 64"
    using lf_running_less[of "lf_pcs s"] by (simp only: tsum_of_bool)
  with assms show ?thesis
    by (simp add: lf_active_tasks_def lf_running_inv_def tsum_of_bool unat_of_nat take_bit_nat_eq_self)
qed

text \<open>
  \<open>lfthpool_active_tasks\<close> reads exactly the number of threads between their increment
  and their decrement of \<open>running_count\<close>, workers and \<open>lfthpool_worker_try_once\<close> alike. A
  task already taken from the queue by a thread that has not incremented yet is not counted.
\<close>

theorem lfthpool_active_tasks_exact:
  assumes "mpmc_queue Q ok items" and "reach (lf_init ok items) (lf_next Q) s"
    and "\<not> lf_deleted (lf_mem s)"
  shows "unat (lf_active_tasks (lf_mem s)) = card {i. lf_running (lf_pcs s i)}"
  using lf_live[OF assms] lf_running_card[of s] by (simp add: lf_clauses[OF assms(1)])

theorem lfthpool_active_tasks_exact_witness:
  "{i. lf_running (lf_pcs lf_state_taken i)} = {}"
proof -
  have "\<not> lf_deleted (lf_mem lf_state_taken)" by (simp add: lf_state_taken_def eval_lf)
  from lfthpool_active_tasks_exact[OF ring_queue.mpmc_queue_axioms lf_reach_taken this]
  show ?thesis by (simp add: lf_state_taken_def eval_lf)
qed

text \<open>
  C20: What \<open>lfthpool_wait\<close> does guarantee when it returns, in a pool whose queue has not been
  deleted: the queue length it read last was reported as 0; of the tasks taken out of the queue
  every one has run, except those that a thread took and has not yet counted in
  \<open>running_count\<close>; and so have, with the same exception, all tasks accepted before it read the
  length if the report was true, that is, if by then all of them had been taken out. Nothing is
  assumed of the relaxed length itself: when it misses a task, only the last part is lost.
\<close>

theorem lfthpool_wait_guarantee:
  assumes "mpmc_queue Q ok items" and "reach (lf_init ok items) (lf_next Q) s"
    and "\<not> lf_deleted (lf_mem s)" and "lf_pcs s i = LfWait LE_Recheck"
    and "lf_wait_step Q i LE_Recheck (lf_mem s) = Some (m, Inr r)"
  shows "lf_report (lf_mem s) i = 0 \<and>
    mset (lf_taken (lf_mem s)) =
      mset (lf_finished (lf_mem s)) + image_mset (load (lf_mem s)) (tsum lf_uncounted (lf_pcs s)) \<and>
    (lf_gone (lf_mem s) i = lf_seen (lf_mem s) i \<longrightarrow>
      mset (take (lf_seen (lf_mem s) i) (lf_submitted (lf_mem s))) \<subseteq>#
        mset (lf_finished (lf_mem s)) + image_mset (load (lf_mem s)) (tsum lf_uncounted (lf_pcs s)))"
proof -
  let ?m = "lf_mem s"
  note inv = lf_live[OF assms(1-3)]
  have "lf_running_inv s" "lf_knows i (lf_pcs s i) ?m"
    using inv by (auto simp: lf_clauses[OF assms(1)] lf_knows_inv_def)
  with assms(4,5) lf_running_card[of s] have zero: "lf_report ?m i = 0"
    and gone: "lf_gone ?m i \<le> length (lf_taken ?m)" and idle: "card {i. lf_running (lf_pcs s i)} = 0"
    by (auto simp: word_gt_0 split: if_splits)
  then have "\<not> lf_running (lf_pcs s j)" for j by simp
  then have "tsum lf_carried (lf_pcs s) = tsum lf_uncounted (lf_pcs s)"
    by (simp add: tsum_def lf_carried_uncounted)
  then have taken: "mset (lf_taken ?m) =
      mset (lf_finished ?m) + image_mset (load ?m) (tsum lf_uncounted (lf_pcs s))"
    using inv by (simp add: lf_clauses[OF assms(1)])
  moreover have "take (lf_seen ?m i) (lf_submitted ?m) = take (lf_seen ?m i) (lf_taken ?m)"
    if "lf_gone ?m i = lf_seen ?m i"
    using inv gone that by (simp add: lf_clauses[OF assms(1)])
  moreover have "mset (take n xs) \<subseteq># mset xs" for n and xs :: "task_t list"
    by (metis append_take_drop_id mset_append mset_subset_eq_add_left)
  ultimately show ?thesis using zero by metis
qed

text \<open>The state of the worker that has not counted itself, with a client about to return.\<close>

definition lf_state_early :: "ring lf_system" where
  "lf_state_early = \<lparr>lf_mem = (lf_mem lf_state_taken)\<lparr>lf_seen := (\<lambda>_. 0)(Client 1 := 1),
       lf_gone := (\<lambda>_. 0)(Client 1 := 1), lf_report := (\<lambda>_. 0)(Client 1 := 0)\<rparr>,
     lf_pcs = (lf_pcs lf_state_taken)(Client 1 := LfWait LE_Recheck)\<rparr>"

lemma lf_run_early:
  "run (lf_next ring_queue_ops) (LfCall 1 LfCallWait # lf_steps (Client 1) 2) lf_state_taken =
    Some lf_state_early"
  by (simp add: lf_state_early_def lf_state_taken_def eval_lf)

lemma lf_reach_early: "reach (lf_init ring_ok ring_pointers) (lf_next ring_queue_ops) lf_state_early"
  by (rule reach_run[OF lf_run_early lf_reach_taken])

theorem lfthpool_wait_guarantee_witness:
  "mset (lf_taken (lf_mem lf_state_early)) =
      image_mset (load (lf_mem lf_state_early)) (tsum lf_uncounted (lf_pcs lf_state_early)) \<and>
    mset (take 1 (lf_submitted (lf_mem lf_state_early))) \<subseteq>#
      image_mset (load (lf_mem lf_state_early)) (tsum lf_uncounted (lf_pcs lf_state_early))"
proof -
  have "\<not> lf_deleted (lf_mem lf_state_early)" "lf_pcs lf_state_early (Client 1) = LfWait LE_Recheck"
    "lf_wait_step ring_queue_ops (Client 1) LE_Recheck (lf_mem lf_state_early) =
      Some (lf_mem lf_state_early, Inr RVoid)"
    by (simp_all add: lf_state_early_def lf_state_taken_def eval_lf)
  from lfthpool_wait_guarantee[OF ring_queue.mpmc_queue_axioms lf_reach_early this]
  show ?thesis by (simp add: lf_state_early_def lf_state_taken_def eval_lf)
qed

text \<open>
  \<open>lfthpool_wait\<close> can return while a task accepted long before is still to be run: the
  worker takes the task from the queue before it increments \<open>running_count\<close>, and a waiting
  client that looks in between sees an empty queue and no active task, twice.
\<close>

theorem lfthpool_wait_returns_early:
  "\<exists>es s. run (lf_next ring_queue_ops) es lf_small_pool = Some s \<and>
    lf_pcs s (Client 1) = LfReturned RVoid \<and>
    last es = LfStep (Client 1) None \<and> lf_submitted (lf_mem s) = [lf_task] \<and>
    lf_finished (lf_mem s) = [] \<and> (\<exists>p. lf_pcs s (Worker 0) = LfWorker (LW_Inc p))"
proof (intro exI conjI)
  let ?s = "lf_state_early\<lparr>lf_pcs := (lf_pcs lf_state_early)(Client 1 := LfReturned RVoid)\<rparr>"
  show "run (lf_next ring_queue_ops) (lf_sched_taken @ (LfCall 1 LfCallWait # lf_steps (Client 1) 2) @
      [LfStep (Client 1) None]) lf_small_pool = Some ?s"
    by (simp only: run_append lf_run_taken lf_run_early option.case)
      (simp add: lf_state_early_def lf_state_taken_def eval_lf)
  show "lf_pcs ?s (Worker 0) = LfWorker (LW_Inc 4096)"
    by (simp add: lf_state_early_def lf_state_taken_def)
qed (simp_all add: lf_state_early_def lf_state_taken_def eval_lf)

section \<open>Shutdown and destruction\<close>

text \<open>A worker past its test of the shutdown flag that may still take a task.\<close>

fun lf_may_take :: "lfpc \<Rightarrow> bool" where
  "lf_may_take (LfWorker p) \<longleftrightarrow> p = LW_Hold \<or> p = LW_Dequeue"
| "lf_may_take _ \<longleftrightarrow> False"

fun lf_try_call :: "lf_event \<Rightarrow> bool" where
  "lf_try_call (LfCall c f) \<longleftrightarrow> f = LfCallTryOnce"
| "lf_try_call _ \<longleftrightarrow> False"

definition lf_stopping :: "'q lf_system \<Rightarrow> bool" where
  "lf_stopping s \<longleftrightarrow> lf_shutdown (lf_mem s) = 1 \<and> (\<forall>i p. lf_pcs s i \<noteq> LfTryOnce p)"

abbreviation lf_last_takes :: "'q lf_system \<Rightarrow> nat" where
  "lf_last_takes s \<equiv> tsum (\<lambda>p. of_bool (lf_may_take p)) (lf_pcs s)"

lemma fold_free_task_sel:
  "lf_shutdown (fold free_task ps m) = lf_shutdown m" "lf_taken (fold free_task ps m) = lf_taken m"
  "lf_joined (fold free_task ps m) = lf_joined m" "lf_handle (fold free_task ps m) = lf_handle m"
  "lf_joined_twice (fold free_task ps m) = lf_joined_twice m" "lf_hold (fold free_task ps m) = lf_hold m"
  "lf_thread_count (fold free_task ps m) = lf_thread_count m" "lf_task_queue (fold free_task ps m) = lf_task_queue m"
  by (induction ps arbitrary: m) (simp_all add: free_task_def)

lemma lf_exec_stopping:
  "lf_exec Q i v p m = Some (m', p') \<Longrightarrow> lf_shutdown m = 1 \<and> (\<forall>q. p \<noteq> LfTryOnce q) \<longrightarrow>
    lf_shutdown m' = 1 \<and> (\<forall>q. p' \<noteq> LfTryOnce q) \<and>
    length (lf_taken m') + of_bool (lf_may_take p') \<le> length (lf_taken m) + of_bool (lf_may_take p)"
  by (erule lf_exec_points; erule lf_step_elims;
      auto simp: Some_map_option step_defs fold_free_task_sel split: lf_splits)

lemma lf_stopping_next:
  assumes stop: "lf_stopping s" and "\<not> lf_try_call e" and n: "lf_next Q e s = Some s'"
  shows "lf_stopping s' \<and> length (lf_taken (lf_mem s')) + lf_last_takes s' \<le>
    length (lf_taken (lf_mem s)) + lf_last_takes s"
proof (cases e)
  case (LfStep i v)
  let ?g = "\<lambda>p. of_bool (lf_may_take p) :: nat"
  from n LfStep obtain m p where e: "lf_exec Q i v (lf_pcs s i) (lf_mem s) = Some (m, p)"
    and s': "s' = \<lparr>lf_mem = m, lf_pcs = (lf_pcs s)(i := p)\<rparr>"
    by (auto simp only: lf_step_Some)
  have "lf_shutdown m = 1 \<and> (\<forall>q. p \<noteq> LfTryOnce q) \<and>
      length (lf_taken m) + ?g p \<le> length (lf_taken (lf_mem s)) + ?g (lf_pcs s i)"
    using lf_exec_stopping[OF e] stop by (simp add: lf_stopping_def)
  moreover have "tsum ?g ((lf_pcs s)(i := p)) + ?g (lf_pcs s i) = tsum ?g (lf_pcs s) + ?g p"
    by (rule tsum_upd)
  ultimately show ?thesis using stop by (auto simp: s' lf_stopping_def)
next
  case (LfCall c f)
  with n obtain r where r: "lf_pcs s (Client c) = LfReturned r"
    and s': "s' = s\<lparr>lf_pcs := (lf_pcs s)(Client c := lf_entry f)\<rparr>"
    by (auto simp only: lf_call_Some)
  have f: "\<not> lf_may_take (lf_entry f) \<and> (\<forall>q. lf_entry f \<noteq> LfTryOnce q)"
    using assms(2) LfCall by (cases f) auto
  then have "lf_last_takes s' = lf_last_takes s"
    using tsum_upd_eq[of "\<lambda>p. of_bool (lf_may_take p) :: nat" "lf_pcs s" "Client c" "lf_entry f"]
    by (simp add: s' r)
  with stop f show ?thesis by (simp add: s' lf_stopping_def)
qed

text \<open>
  From the moment the shutdown flag is set, with nobody in
  \<open>lfthpool_worker_try_once\<close>, each worker takes at most one more task: only those already
  past their test of the flag take any. The other queued tasks are never run.
\<close>

theorem lfthpool_shutdown_takes_few:
  assumes "lf_stopping s" and "list_all (\<lambda>e. \<not> lf_try_call e) es"
    and "run (lf_next Q) es s = Some s'"
  shows "length (lf_taken (lf_mem s')) \<le>
    length (lf_taken (lf_mem s)) + card {i. lf_may_take (lf_pcs s i)}"
proof -
  have "length (lf_taken (lf_mem s')) + lf_last_takes s' \<le> length (lf_taken (lf_mem s)) + lf_last_takes s"
    using assms
  proof (induction es arbitrary: s)
    case (Cons e es)
    then obtain u where u: "lf_next Q e s = Some u" "run (lf_next Q) es u = Some s'"
      by (auto split: option.splits)
    have "\<not> lf_try_call e" using Cons.prems(2) by simp
    from lf_stopping_next[OF Cons.prems(1) this u(1)] Cons.IH[OF _ _ u(2)] Cons.prems(2)
    show ?case by simp
  qed simp
  then show ?thesis by (simp add: tsum_of_bool)
qed

text \<open>One task queued, the worker before its test of the flag, and the flag already set.\<close>

definition lf_state_stopping :: "ring lf_system" where
  "lf_state_stopping = \<lparr>lf_mem = (lf_mem lf_small_pool)\<lparr>lf_shutdown := 1,
       lf_task_queue := \<lparr>task_queue = [\<lparr>task_function = 4096, task_arg = 0\<rparr>, lf_task],
         queue_size = 2, queue_count = 1, head = 0, tail = 1\<rparr>,
       heap := (\<lambda>_. None)(4096 := Some lf_task), lf_submitted := [lf_task]\<rparr>,
     lf_pcs = (lf_pcs lf_small_pool)(Client 0 := LfShutdown (LH_Test True 0))\<rparr>"

lemma lf_run_stopping:
  "run (lf_next ring_queue_ops) (LfCall 0 (LfCallAdd lf_task) # LfStep (Client 0) (Some 4096) #
     lf_steps (Client 0) 1 @ LfCall 0 LfCallDestroy # lf_steps (Client 0) 1) lf_small_pool =
    Some lf_state_stopping"
  by (simp add: lf_state_stopping_def eval_lf fun_upd_twist)

theorem lfthpool_shutdown_takes_few_witness:
  "\<exists>s'. run (lf_next ring_queue_ops) (LfStep (Worker 0) None # lf_steps (Client 0) 5) lf_state_stopping =
      Some s' \<and> lf_pcs s' (Client 0) = LfReturned RVoid \<and> length (lf_taken (lf_mem s')) \<le> 0 \<and>
    lf_submitted (lf_mem s') = [lf_task]"
proof -
  have stop: "lf_stopping lf_state_stopping"
    by (simp add: lf_stopping_def lf_state_stopping_def eval_lf)
  have none: "{i. lf_may_take (lf_pcs lf_state_stopping i)} = {}"
    by (auto simp: lf_state_stopping_def eval_lf split: if_splits)
  obtain s' where s': "run (lf_next ring_queue_ops) (LfStep (Worker 0) None # lf_steps (Client 0) 5)
      lf_state_stopping = Some s'" "lf_pcs s' (Client 0) = LfReturned RVoid"
    "lf_submitted (lf_mem s') = [lf_task]"
    by (simp add: lf_state_stopping_def ring_items_def eval_lf)
  have "list_all (\<lambda>e. \<not> lf_try_call e) (LfStep (Worker 0) None # lf_steps (Client 0) 5)"
    by simp
  from lfthpool_shutdown_takes_few[OF stop this s'(1)] s' show ?thesis
    by (simp add: none) (simp add: lf_state_stopping_def eval_lf)
qed

lemma exactly_one:
  "x + y = (if h = None then 0 else 1) \<Longrightarrow> (if 0 < x then None else h) \<noteq> None \<longleftrightarrow> 0 < y"
  for x y :: nat
  by (cases "h = None") auto

text \<open>Freeing distinct allocated blocks frees exactly those.\<close>

lemma fold_free_task:
  "distinct ps \<Longrightarrow> \<forall>a \<in> set ps. heap m a \<noteq> None \<Longrightarrow>
    heap (fold free_task ps m) = (\<lambda>a. if a \<in> set ps then None else heap m a) \<and>
    bad_access (fold free_task ps m) = bad_access m"
proof (induction ps arbitrary: m)
  case (Cons p ps)
  then have "\<forall>a \<in> set ps. heap (free_task p m) a \<noteq> None" by (auto simp: free_task_def)
  with Cons.IH[of "free_task p m"] Cons.prems
  have "heap (fold free_task ps (free_task p m)) =
      (\<lambda>a. if a \<in> set ps then None else heap (free_task p m) a) \<and>
      bad_access (fold free_task ps (free_task p m)) = bad_access (free_task p m)" by simp
  moreover have "heap (free_task p m) = (heap m)(p := None)" "bad_access (free_task p m) = bad_access m"
    using Cons.prems(2) by (auto simp: free_task_def)
  ultimately show ?case by (auto simp: fun_eq_iff)
qed simp

lemma distinct_from_count: "(\<And>a. count (mset xs) a \<le> 1) \<Longrightarrow> distinct xs"
proof (induction xs)
  case (Cons x xs)
  have "x \<notin> set xs"
  proof
    assume "x \<in> set xs"
    then have "0 < count (mset xs) x" by simp
    with Cons.prems[of x] show False by simp
  qed
  moreover have "count (mset xs) a \<le> 1" for a
    by (rule order.trans[OF _ Cons.prems[of a]]) simp
  ultimately show ?case using Cons.IH by simp
qed simp

text \<open>
  C25: \<open>lfthpool_destroy\<close> deletes the queue only when every worker has returned, and the
  deletion frees each queued task exactly once: the blocks left are those other clients hold
  inside a call, so none at all when there is no other client.
\<close>

theorem lfthpool_destroy_frees_all:
  assumes "mpmc_queue Q ok items" and "reach (lf_init ok items) (lf_next Q) s"
    and "\<not> lf_deleted (lf_mem s)" and "lf_pcs s i = LfShutdown LH_DeleteQueue"
  shows "(\<forall>w. lf_is_worker (lf_mem s) w \<longrightarrow> lf_pcs s w = LfReturned RVoid) \<and>
    (\<exists>s'. lf_next Q (LfStep i v) s = Some s' \<and> \<not> bad_access (lf_mem s') \<and>
      (\<forall>a. heap (lf_mem s') a \<noteq> None \<longleftrightarrow> a \<in># tsum lf_owned (lf_pcs s)))"
proof -
  let ?m = "lf_mem s" and ?I = "mset (items (lf_task_queue (lf_mem s)))"
  let ?O = "tsum lf_owned (lf_pcs s)"
  note inv = lf_live[OF assms(1-3)]
  have one: "\<And>a. count ?I a + count ?O a = (if heap ?m a = None then 0 else 1)"
    and okq: "ok (lf_task_queue ?m)" and good: "\<not> bad_access ?m"
    using inv by (auto simp: lf_clauses[OF assms(1)])
  have drain: "mset (q_drain Q (lf_task_queue ?m)) = ?I"
    by (rule mpmc_queue.drain_items[OF assms(1) okq])
  have le: "count ?I a \<le> 1" for a
  proof -
    have "count ?I a \<le> count ?I a + count ?O a" by simp
    also have "\<dots> \<le> 1" unfolding one by simp
    finally show ?thesis .
  qed
  then have dist: "distinct (q_drain Q (lf_task_queue ?m))"
    by (intro distinct_from_count) (simp only: drain)
  have mem: "a \<in> set (q_drain Q (lf_task_queue ?m)) \<longleftrightarrow> 0 < count ?I a" for a
    using drain by (metis count_greater_zero_iff set_mset_mset)
  have alloc: "\<forall>a \<in> set (q_drain Q (lf_task_queue ?m)). heap ?m a \<noteq> None"
  proof (intro ballI notI)
    fix a assume "a \<in> set (q_drain Q (lf_task_queue ?m))" and "heap ?m a = None"
    then have "0 < count ?I a" "count ?I a + count ?O a = 0"
      unfolding mem one by (simp_all only: refl if_True)
    then show False by linarith
  qed
  have "heap (fold free_task (q_drain Q (lf_task_queue ?m)) ?m) a \<noteq> None \<longleftrightarrow> a \<in># ?O" for a
  proof -
    have o: "a \<in># ?O \<longleftrightarrow> 0 < count ?O a" by simp
    show ?thesis
      unfolding fold_free_task[OF dist alloc, THEN conjunct1] mem o by (rule exactly_one[OF one])
  qed
  moreover have "lf_pcs s w = LfReturned RVoid" if "lf_is_worker ?m w" for w
  proof -
    have "lf_knows i (lf_pcs s i) ?m" "lf_role_ok ?m w (lf_pcs s w)"
      using inv by (auto simp: lf_clauses[OF assms(1)] lf_knows_inv_def lf_role_inv_def)
    with that assms(4) show ?thesis by (auto simp: lf_role_ok_def)
  qed
  ultimately show ?thesis
    using fold_free_task[OF dist alloc] good assms(4) by auto
qed

text \<open>The same pool with its worker joined, about to delete the queue.\<close>

definition lf_state_deleting :: "ring lf_system" where
  "lf_state_deleting = \<lparr>lf_mem = (lf_mem lf_state_stopping)\<lparr>lf_exited := {Worker 0},
       lf_joined := {Worker 0}, lf_handle := (lf_handle (lf_mem lf_small_pool))(Worker 0 := False)\<rparr>,
     lf_pcs = (lf_pcs lf_state_stopping)(Worker 0 := LfReturned RVoid,
       Client 0 := LfShutdown LH_DeleteQueue)\<rparr>"

lemma lf_run_deleting:
  "run (lf_next ring_queue_ops) (LfStep (Worker 0) None # lf_steps (Client 0) 4) lf_state_stopping =
    Some lf_state_deleting"
  by (simp add: lf_state_deleting_def lf_state_stopping_def eval_lf fun_upd_twist)

lemma lf_reach_deleting: "reach (lf_init ring_ok ring_pointers) (lf_next ring_queue_ops) lf_state_deleting"
  by (rule reach_run[OF lf_run_deleting lf_small_pool_run[OF lf_run_stopping]])

lemma lf_deleting_owns_nothing: "tsum lf_owned (lf_pcs lf_state_deleting) = {#}"
  by (rule tsum_const_zero) (simp add: lf_state_deleting_def lf_state_stopping_def eval_lf)

theorem lfthpool_destroy_frees_all_witness:
  "\<exists>s'. lf_next ring_queue_ops (LfStep (Client 0) None) lf_state_deleting = Some s' \<and>
    (\<forall>a. heap (lf_mem s') a = None) \<and> heap (lf_mem lf_state_deleting) 4096 \<noteq> None"
proof -
  have "\<not> lf_deleted (lf_mem lf_state_deleting)"
    "lf_pcs lf_state_deleting (Client 0) = LfShutdown LH_DeleteQueue"
    "heap (lf_mem lf_state_deleting) 4096 \<noteq> None"
    by (simp_all add: lf_state_deleting_def lf_state_stopping_def eval_lf)
  with lfthpool_destroy_frees_all[OF ring_queue.mpmc_queue_axioms lf_reach_deleting, of "Client 0" None]
  show ?thesis by (auto simp: lf_deleting_owns_nothing simp del: lf_next.simps)
qed

section \<open>Joining once\<close>

fun lf_in_shutdown :: "lfpc \<Rightarrow> bool" where
  "lf_in_shutdown (LfShutdown h) \<longleftrightarrow> True"
| "lf_in_shutdown _ \<longleftrightarrow> False"

fun lf_starts_shutdown :: "lf_event \<Rightarrow> bool" where
  "lf_starts_shutdown (LfCall c f) \<longleftrightarrow> f = LfCallShutdown \<or> f = LfCallDestroy"
| "lf_starts_shutdown _ \<longleftrightarrow> False"

text \<open>The system in which clients call \<open>shutdown\<close> and \<open>destroy\<close> one at a time.\<close>

definition lf_serial_next :: "'q queue_ops \<Rightarrow> lf_event \<Rightarrow> 'q lf_system \<Rightarrow> 'q lf_system option" where
  "lf_serial_next Q e s = (if lf_starts_shutdown e \<and> (\<exists>i. lf_in_shutdown (lf_pcs s i)) then None
     else lf_next Q e s)"

definition lf_join_inv :: "'q lf_system \<Rightarrow> bool" where
  "lf_join_inv s \<longleftrightarrow> \<not> lf_joined_twice (lf_mem s) \<and>
     (\<forall>i j. lf_in_shutdown (lf_pcs s i) \<and> lf_in_shutdown (lf_pcs s j) \<longrightarrow> i = j) \<and>
     (\<forall>i d k. lf_pcs s i = LfShutdown (LH_Join d k) \<longrightarrow> lf_handle (lf_mem s) (lf_worker_handle k)) \<and>
     (\<forall>w. w \<in> lf_joined (lf_mem s) \<and> lf_handle (lf_mem s) w \<longrightarrow>
        (\<exists>i d k. lf_pcs s i = LfShutdown (LH_Clear d k) \<and> w = lf_worker_handle k))"

lemma lf_exec_outside:
  "lf_exec Q i v p m = Some (m', p') \<Longrightarrow> \<not> lf_in_shutdown p \<longrightarrow>
    \<not> lf_in_shutdown p' \<and> lf_joined m' = lf_joined m \<and> lf_handle m' = lf_handle m \<and>
    lf_joined_twice m' = lf_joined_twice m"
  by (erule lf_exec_points; erule lf_step_elims;
      auto simp: Some_map_option step_defs split: lf_splits)

lemma lf_join_inv_step:
  assumes inv: "lf_join_inv s" and e: "lf_exec Q i v (lf_pcs s i) (lf_mem s) = Some (m, p)"
  shows "lf_join_inv \<lparr>lf_mem = m, lf_pcs = (lf_pcs s)(i := p)\<rparr>"
proof (cases "lf_in_shutdown (lf_pcs s i)")
  case False
  note out = lf_exec_outside[OF e, rule_format, OF False]
  have "lf_pcs s j = LfShutdown h \<Longrightarrow> ((lf_pcs s)(i := p)) j = LfShutdown h" for j h
    using False by auto
  moreover have "((lf_pcs s)(i := p)) j = LfShutdown h \<Longrightarrow> lf_pcs s j = LfShutdown h" for j h
    using out by (auto split: if_splits)
  moreover have "lf_in_shutdown (((lf_pcs s)(i := p)) j) \<Longrightarrow> lf_in_shutdown (lf_pcs s j)" for j
    using out by (auto split: if_splits)
  ultimately show ?thesis
    using inv out unfolding lf_join_inv_def lf_system.simps by metis
next
  case True
  then obtain h where h: "lf_pcs s i = LfShutdown h" by (cases "lf_pcs s i") auto
  have others: "\<not> lf_in_shutdown (lf_pcs s j)" if "j \<noteq> i" for j
    using inv True that unfolding lf_join_inv_def by blast
  then have none: "lf_pcs s j \<noteq> LfShutdown h'" if "j \<noteq> i" for j h' using that by force
  have clean: "w \<notin> lf_joined (lf_mem s)" if "lf_handle (lf_mem s) w"
      "\<And>d k. h = LH_Clear d k \<Longrightarrow> w \<noteq> lf_worker_handle k" for w
    using inv that h none unfolding lf_join_inv_def by (metis lfpc.inject(7))
  have here: "h = LH_Join d k \<Longrightarrow> lf_handle (lf_mem s) (lf_worker_handle k)" for d k
    using inv h by (auto simp: lf_join_inv_def)
  have alone: "lf_in_shutdown (((lf_pcs s)(i := p)) j) \<Longrightarrow> j = i" for j
    using others[of j] by (cases "j = i") auto
  have tw: "\<not> lf_joined_twice (lf_mem s)" using inv by (simp add: lf_join_inv_def)
  show ?thesis
    unfolding lf_join_inv_def lf_system.simps
  proof (intro conjI allI impI)
    show "\<not> lf_joined_twice m"
      using e h tw clean here
      by (cases h) (auto simp: lf_join_def fold_free_task_sel split: if_splits)
    show "j = j'" if "lf_in_shutdown (((lf_pcs s)(i := p)) j) \<and> lf_in_shutdown (((lf_pcs s)(i := p)) j')"
      for j j' using that alone by blast
    show "lf_handle m (lf_worker_handle k)" if "((lf_pcs s)(i := p)) j = LfShutdown (LH_Join d k)" for j d k
      using that e h none[of j]
      by (cases h) (auto simp: lf_join_def split: if_splits)
    fix w assume w: "w \<in> lf_joined m \<and> lf_handle m w"
    have "\<exists>d k. p = LfShutdown (LH_Clear d k) \<and> w = lf_worker_handle k"
      using w e h clean
      by (cases h) (auto simp: lf_join_def fold_free_task_sel split: if_splits)
    then show "\<exists>j d k. ((lf_pcs s)(i := p)) j = LfShutdown (LH_Clear d k) \<and> w = lf_worker_handle k"
      by (intro exI[of _ i]) simp
  qed
qed

lemma lf_join_inv_init: "lf_init ok items s \<Longrightarrow> lf_join_inv s"
  by (auto simp: lf_init_def lf_new_system_def lf_new_pool_def lf_join_inv_def Let_def split: if_splits)

lemma lf_join_inv_next:
  assumes inv: "lf_join_inv s" and n: "lf_serial_next Q e s = Some s'"
  shows "lf_join_inv s'"
proof -
  have n': "lf_next Q e s = Some s'" and ser: "\<not> (lf_starts_shutdown e \<and> (\<exists>i. lf_in_shutdown (lf_pcs s i)))"
    using n by (auto simp: lf_serial_next_def split: if_splits)
  show ?thesis
  proof (cases e)
    case (LfStep i v)
    with n' lf_join_inv_step[OF inv] show ?thesis by (auto simp only: lf_step_Some)
  next
    case (LfCall c f)
    with n' obtain r where r: "lf_pcs s (Client c) = LfReturned r"
      and s': "s' = s\<lparr>lf_pcs := (lf_pcs s)(Client c := lf_entry f)\<rparr>"
      by (auto simp only: lf_call_Some)
    have f: "lf_in_shutdown (lf_entry f) \<longrightarrow> (\<forall>i. \<not> lf_in_shutdown (lf_pcs s i))"
      "lf_entry f \<noteq> LfShutdown (LH_Join d k)" for d k
      using ser LfCall by (cases f; simp)+
    have "lf_pcs s j = LfShutdown h \<Longrightarrow> lf_pcs s' j = LfShutdown h" for j h
      using r by (auto simp: s')
    moreover have "lf_pcs s' j = LfShutdown (LH_Join d k) \<Longrightarrow> lf_pcs s j = LfShutdown (LH_Join d k)" for j d k
      using f(2) by (auto simp: s' split: if_splits)
    moreover have "lf_in_shutdown (lf_pcs s' i) \<Longrightarrow> lf_in_shutdown (lf_pcs s' j) \<Longrightarrow> i = j" for i j
      using inv f(1) unfolding lf_join_inv_def s' by (auto split: if_splits)
    moreover have "lf_mem s' = lf_mem s" by (simp add: s')
    ultimately show ?thesis using inv unfolding lf_join_inv_def by metis
  qed
qed

interpretation lf_joins: safety "lf_init ok items" "lf_serial_next Q" lf_join_inv
  for ok :: "'q \<Rightarrow> bool" and items :: "'q \<Rightarrow> addr list" and Q :: "'q queue_ops"
  by unfold_locales (auto intro: lf_join_inv_init lf_join_inv_next)

text \<open>
  When calls of \<open>lfthpool_shutdown\<close> and \<open>lfthpool_destroy\<close> do not overlap, no worker is
  ever joined twice, however often they are made: each handle is cleared after its join.
  (The locking pool does not do this.)
\<close>

theorem lfthpool_joins_once:
  assumes "reach (lf_init ok items) (lf_serial_next Q) s"
  shows "\<not> lf_joined_twice (lf_mem s)"
  using lf_joins.reach_inv[OF assms] by (simp add: lf_join_inv_def)

text \<open>Shutdown twice, one after the other, on the small pool.\<close>

definition lf_sched_twice :: "lf_event list" where
  "lf_sched_twice = LfCall 0 LfCallShutdown # lf_steps (Client 0) 1 @ lf_steps (Worker 0) 1 @
     lf_steps (Client 0) 4 @ LfCall 0 LfCallShutdown # lf_steps (Client 0) 3"

theorem lfthpool_joins_once_witness:
  "\<exists>s. reach (lf_init ring_ok ring_pointers) (lf_serial_next ring_queue_ops) s \<and>
    \<not> lf_joined_twice (lf_mem s) \<and> lf_joined (lf_mem s) = {Worker 0} \<and> lf_pcs s (Client 0) = LfReturned RVoid"
proof -
  have idle: "\<not> lf_in_shutdown (lf_pcs lf_small_pool i)" for i
    by (simp add: eval_lf)
  obtain s where s: "run (lf_serial_next ring_queue_ops) lf_sched_twice lf_small_pool = Some s"
    and p: "lf_joined (lf_mem s) = {Worker 0}" "lf_pcs s (Client 0) = LfReturned RVoid"
    using idle by (auto simp: lf_sched_twice_def lf_serial_next_def eval_lf)
  have "reach (lf_init ring_ok ring_pointers) (lf_serial_next ring_queue_ops) lf_small_pool"
  proof (rule reach_init)
    have "ring_ok (ring_new [lf_task, lf_task] 2)" by (rule ring_new_ok) simp_all
    then show "lf_init ring_ok ring_pointers lf_small_pool"
      unfolding lf_init_def lf_small_pool_def
      by (intro exI[of _ 1] exI[of _ "ring_new [lf_task, lf_task] 2"]) (simp add: ring_pointers_def)
  qed
  from reach_run[OF s this] p lfthpool_joins_once[of ring_ok ring_pointers ring_queue_ops s]
  show ?thesis by blast
qed

section \<open>Bounded retries\<close>

text \<open>
  \<open>lfthpool_add_task_try\<close> against a queue that stays full tries \<open>max_try + 2\<close> times, and
  once even when \<open>max_try\<close> is negative (one attempt more than \<open>thpool_add_task_try\<close>), then
  frees the block it allocated and returns -1 with \<open>EAGAIN\<close>, having changed nothing.
\<close>

theorem lfthpool_add_task_try_full:
  assumes full: "q_enqueue Q p (lf_task_queue (lf_mem s)) = (QERR_FULL, lf_task_queue (lf_mem s))"
    and p: "p \<noteq> 0" "heap (lf_mem s) p = None" and idle: "lf_pcs s (Client c) = LfReturned r"
  shows "run (lf_next Q) (LfCall c (LfCallAddTry t max_try) # LfStep (Client c) (Some p) #
      replicate (2 * nat (max_try + 1) + 2) (LfStep (Client c) None)) s =
    Some (s\<lparr>lf_pcs := (lf_pcs s)(Client c := LfReturned (RErr EAGAIN))\<rparr>)"
proof -
  define m where "m = (lf_mem s)\<lparr>heap := (heap (lf_mem s))(p := Some t)\<rparr>"
  have same: "free_task p m = lf_mem s"
    using p(2) by (simp add: m_def free_task_def fun_upd_idem)
  have enq: "lf_enqueue Q p m = (QERR_FULL, m)"
    using full by (simp add: m_def lf_enqueue_def)
  have loop: "run (lf_next Q) (replicate (2 * nat (k + 1) + 2) (LfStep (Client c) None))
      \<lparr>lf_mem = m, lf_pcs = f(Client c := LfAddTry (LR_Enqueue p k))\<rparr> =
    Some \<lparr>lf_mem = lf_mem s, lf_pcs = f(Client c := LfReturned (RErr EAGAIN))\<rparr>" for k f
  proof (induction "nat (k + 1)" arbitrary: k)
    case 0
    then have "k < 0" by simp
    with 0 enq show ?case by (simp add: numeral_2_eq_2 same fun_eq_iff)
  next
    case (Suc n)
    then have k: "\<not> k < 0" and n: "n = nat ((k - 1) + 1)" by auto
    have "2 * nat (k + 1) + 2 = Suc (Suc (2 * nat ((k - 1) + 1) + 2))"
      using Suc.hyps(2) n by simp
    then show ?case using Suc.hyps(1)[OF n] enq k by simp
  qed
  from loop[of max_try "lf_pcs s"] show ?thesis
    using p idle by (simp add: malloc_task_def m_def)
qed

definition lf_state_full :: "ring lf_system" where
  "lf_state_full = lf_new_system 1 \<lparr>task_queue = [lf_task, lf_task], queue_size = 2, queue_count = 2,
     head = 0, tail = 0\<rparr>"

theorem lfthpool_add_task_try_full_witness:
  "run (lf_next ring_queue_ops) (LfCall 1 (LfCallAddTry lf_task (-1)) # LfStep (Client 1) (Some 4096) #
      lf_steps (Client 1) 2) lf_state_full =
    Some (lf_state_full\<lparr>lf_pcs := (lf_pcs lf_state_full)(Client 1 := LfReturned (RErr EAGAIN))\<rparr>)"
proof -
  have "q_enqueue ring_queue_ops 4096 (lf_task_queue (lf_mem lf_state_full)) =
      (QERR_FULL, lf_task_queue (lf_mem lf_state_full))" "(4096 :: addr) \<noteq> 0"
    "heap (lf_mem lf_state_full) 4096 = None" "lf_pcs lf_state_full (Client 1) = LfReturned RVoid"
    by (simp_all add: lf_state_full_def eval_lf)
  from lfthpool_add_task_try_full[OF this, of lf_task "-1"] show ?thesis
    by (simp add: numeral_2_eq_2 del: run.simps)
qed

end
