(* ===== verification/LfthpoolCreate.thy ===== *)
theory LfthpoolCreate
  imports LfthpoolProps
begin

text \<open>
  \<open>lfthpool_create\<close> and \<open>lfthpool_create_sched\<close> of \<open>src/threads/lfthpool.c\<close>, with the part
  of \<open>lfthpool_destroy\<close> the error path runs. An environment gives the results of the
  allocations and of \<open>pthread_create\<close>, and the external \<open>size_to_power_of_2\<close> and
  \<open>mpmc_ring_queue_new\<close>.
\<close>

section \<open>Environment and outcome\<close>

text \<open>
  What a pool does between two attempts: calls of the system, with a result. By default it is
  \<open>sched_usleep\<close>, whose result is that of \<open>sched_yield\<close>.
\<close>

datatype sleep_call = Sched_yield | Usleep "32 word"

type_synonym sleep_fun = "32 word \<Rightarrow> sleep_call list \<times> int"

definition sched_usleep :: "int \<Rightarrow> sleep_fun" where
  "sched_usleep yield_rc usec = (let ret = yield_rc in ([Sched_yield, Usleep usec], ret))"

record 'q lf_env =
  env_yield_rc :: int
  env_pool_mem :: bool
  env_threads_mem :: bool
  env_queue_new :: "size_t \<Rightarrow> 'q option"
  env_pow2 :: "size_t \<Rightarrow> size_t"
  env_create_rc :: "nat \<Rightarrow> int"
  env_failed_handle_zero :: bool
  env_errno :: errno

datatype lf_fault = NullThreadArray | UninitialisedHandle | HandleOfNoThread | HandleArrayTooShort

text \<open>The pool under construction: the handles set so far are those of the workers started.\<close>

record 'q lf_raw =
  lr_sleep :: sleep_fun
  lr_workers :: size_t
  lr_threads :: bool
  lr_queue :: "'q option"
  lr_queue_size :: size_t
  lr_zeroed :: bool
  lr_started :: nat
  lr_stale_handle :: bool

datatype 'q lf_created = LfPool "'q lf_raw" | LfNull errno | LfUndefined lf_fault

section \<open>The error path\<close>

text \<open>
  \<open>lfthpool_destroy\<close> sets the shutdown flag and joins every non-zero handle; reading the
  array before line 101 has zeroed it is undefined. Workers already started see the flag
  and return, so joining them ends. \<open>lr_stale_handle\<close>: a failed \<open>pthread_create\<close> left
  something other than zero in its handle, which POSIX permits.
\<close>

definition lf_destroy_raw :: "'q lf_raw \<Rightarrow> lf_fault option" where
  "lf_destroy_raw r =
     (if \<not> lr_threads r then Some NullThreadArray
      else if \<not> lr_zeroed r then Some UninitialisedHandle
      else if lr_stale_handle r then Some HandleOfNoThread
      else None)"

definition lf_fail_with :: "errno \<Rightarrow> 'q lf_raw \<Rightarrow> 'q lf_created" where
  "lf_fail_with err r = (case lf_destroy_raw r of None \<Rightarrow> LfNull err | Some f \<Rightarrow> LfUndefined f)"

section \<open>Creation\<close>

text \<open>The loop of line 105; \<open>k\<close> workers are left to start.\<close>

fun lf_create_workers :: "'q lf_env \<Rightarrow> nat \<Rightarrow> 'q lf_raw \<Rightarrow> 'q lf_created" where
  "lf_create_workers env 0 r = LfPool r"
| "lf_create_workers env (Suc k) r =
     (if env_create_rc env (lr_started r) \<noteq> 0
      then lf_fail_with (env_errno env) (r\<lparr>lr_stale_handle := \<not> env_failed_handle_zero env\<rparr>)
      else lf_create_workers env k (r\<lparr>lr_started := Suc (lr_started r)\<rparr>))"

text \<open>\<open>sizeof(pthread_t)\<close> is 8, and the product is taken in \<open>size_t\<close>.\<close>

definition lfthpool_create_sched :: "'q lf_env \<Rightarrow> size_t \<Rightarrow> size_t \<Rightarrow> sleep_fun option \<Rightarrow> 'q lf_created" where
  "lfthpool_create_sched env workers qsize sleep_func =
     (if workers < 1 \<or> qsize < 2 then LfNull EINVAL
      else if \<not> env_pool_mem env then LfNull (env_errno env)
      else
        let r = \<lparr>lr_sleep = (case sleep_func of Some f \<Rightarrow> f | None \<Rightarrow> sched_usleep (env_yield_rc env)),
            lr_workers = workers, lr_threads = env_threads_mem env,
            lr_queue = env_queue_new env (env_pow2 env qsize), lr_queue_size = env_pow2 env qsize,
            lr_zeroed = False, lr_started = 0, lr_stale_handle = False\<rparr>
        in if \<not> lr_threads r \<or> lr_queue r = None then lf_fail_with ENOMEM r
           else if unat (8 * workers) < 8 * unat workers then LfUndefined HandleArrayTooShort
           else lf_create_workers env (unat workers) (r\<lparr>lr_zeroed := True\<rparr>))"

definition lfthpool_create :: "'q lf_env \<Rightarrow> size_t \<Rightarrow> size_t \<Rightarrow> 'q lf_created" where
  "lfthpool_create env workers qsize = lfthpool_create_sched env workers qsize None"

lemma lf_create_workers_ok:
  "\<forall>j < k. env_create_rc env (lr_started r + j) = 0 \<Longrightarrow>
    lf_create_workers env k r = LfPool (r\<lparr>lr_started := lr_started r + k\<rparr>)"
proof (induction k arbitrary: r)
  case (Suc k)
  have "env_create_rc env (lr_started r) = 0" using Suc.prems[rule_format, of 0] by simp
  moreover have "\<forall>j < k. env_create_rc env (Suc (lr_started r) + j) = 0"
    using Suc.prems[rule_format, of "Suc _"] by simp
  ultimately show ?case using Suc.IH[of "r\<lparr>lr_started := Suc (lr_started r)\<rparr>"] by simp
qed simp

lemma lf_create_workers_fail:
  "j < k \<Longrightarrow> env_create_rc env (lr_started r + j) \<noteq> 0 \<Longrightarrow> lr_threads r \<and> lr_zeroed r \<Longrightarrow>
    lf_create_workers env k r =
      (if env_failed_handle_zero env then LfNull (env_errno env) else LfUndefined HandleOfNoThread)"
proof (induction k arbitrary: r j)
  case (Suc k)
  show ?case
  proof (cases "env_create_rc env (lr_started r) = 0")
    case True
    then obtain j' where j: "j = Suc j'" using Suc.prems(2) by (cases j) auto
    with True Suc.IH[of j' "r\<lparr>lr_started := Suc (lr_started r)\<rparr>"] Suc.prems show ?thesis by simp
  next
    case False
    with Suc.prems(3) show ?thesis by (simp add: lf_fail_with_def lf_destroy_raw_def)
  qed
qed simp

lemma handle_array_fits: "8 * unat workers < 2 ^ 64 \<Longrightarrow> unat (8 * workers) = 8 * unat workers"
  for workers :: size_t
  by (simp add: unat_word_ariths)

text \<open>
  What \<open>lfthpool_create\<close> does when memory suffices: it returns a pool, all workers
  started and all handles set, exactly when every \<open>pthread_create\<close> succeeds. When one fails
  it joins the workers already started and returns NULL, if the failed call left its handle
  zero, and otherwise joins a handle of no thread; the \<open>errno\<close> it leaves is the old one, not
  the error of \<open>pthread_create\<close>.
\<close>

theorem lfthpool_create_result:
  assumes "0 < workers" and "2 \<le> qsize" and "8 * unat workers < 2 ^ 64"
    and "env_pool_mem env" and "env_threads_mem env"
    and "env_queue_new env (env_pow2 env qsize) = Some q"
  shows "lfthpool_create env workers qsize =
    (if \<forall>j < unat workers. env_create_rc env j = 0
     then LfPool \<lparr>lr_sleep = sched_usleep (env_yield_rc env), lr_workers = workers, lr_threads = True, lr_queue = Some q,
       lr_queue_size = env_pow2 env qsize, lr_zeroed = True, lr_started = unat workers,
       lr_stale_handle = False\<rparr>
     else if env_failed_handle_zero env then LfNull (env_errno env)
     else LfUndefined HandleOfNoThread)"
proof -
  let ?r = "\<lparr>lr_sleep = sched_usleep (env_yield_rc env), lr_workers = workers, lr_threads = True, lr_queue = Some q,
    lr_queue_size = env_pow2 env qsize, lr_zeroed = True, lr_started = 0, lr_stale_handle = False\<rparr>"
  have "\<not> workers < 1" "\<not> qsize < 2"
    using assms(1,2) by (simp_all add: word_less_nat_alt unat_gt_0 not_less word_le_nat_alt)
  then have c: "lfthpool_create env workers qsize = lf_create_workers env (unat workers) ?r"
    using assms by (simp add: lfthpool_create_def lfthpool_create_sched_def handle_array_fits)
  show ?thesis
  proof (cases "\<forall>j < unat workers. env_create_rc env j = 0")
    case True
    with lf_create_workers_ok[of "unat workers" env ?r] show ?thesis by (simp add: c)
  next
    case False
    then obtain j where "j < unat workers" "env_create_rc env j \<noteq> 0" by blast
    with lf_create_workers_fail[of j "unat workers" env ?r] show ?thesis unfolding c by auto
  qed
qed

text \<open>The second of two workers cannot be started.\<close>

definition lf_env_no_thread :: "unit lf_env" where
  "lf_env_no_thread = \<lparr>env_yield_rc = 0, env_pool_mem = True, env_threads_mem = True, env_queue_new = (\<lambda>n. Some ()),
     env_pow2 = (\<lambda>n. n), env_create_rc = (\<lambda>k. if k = 1 then 11 else 0),
     env_failed_handle_zero = True, env_errno = Errno 0\<rparr>"

theorem lfthpool_create_result_witness:
  "lfthpool_create lf_env_no_thread 2 4 = LfNull (Errno 0)"
proof -
  have "env_queue_new lf_env_no_thread (env_pow2 lf_env_no_thread 4) = Some ()"
    by (simp add: lf_env_no_thread_def)
  note c = lfthpool_create_result[OF _ _ _ _ _ this, of 2]
  have "\<exists>j < unat (2 :: size_t). env_create_rc lf_env_no_thread j \<noteq> 0"
    by (rule exI[of _ 1]) (simp add: lf_env_no_thread_def)
  with c show ?thesis by (auto simp: lf_env_no_thread_def)
qed

section \<open>The pool that was created\<close>

text \<open>The state the workers and clients start from, around the queue the pool was given.\<close>

definition lf_created_system :: "'q lf_raw \<Rightarrow> 'q lf_system" where
  "lf_created_system r = lf_new_system (lr_workers r) (the (lr_queue r))"

lemma lf_create_workers_pool:
  "lf_create_workers env k r = LfPool r' \<Longrightarrow> r' = r\<lparr>lr_started := lr_started r + k\<rparr>"
proof (induction k arbitrary: r)
  case (Suc k)
  then have "lf_create_workers env k (r\<lparr>lr_started := Suc (lr_started r)\<rparr>) = LfPool r'"
    by (auto simp: lf_fail_with_def split: if_splits option.splits)
  from Suc.IH[OF this] show ?case by simp
qed simp

lemma lf_fail_no_pool: "lf_fail_with e r \<noteq> LfPool r'"
  by (simp add: lf_fail_with_def split: option.split)

text \<open>
  A pool \<open>lfthpool_create_sched\<close> (and so \<open>lfthpool_create\<close>) returns, around an empty queue
  that works and with no more workers than the kernel can have threads, is an initial state
  of the concurrent pool of \<open>Lfthpool\<close>, and all its workers have been started: what is
  proved of every reachable state holds for every pool that was created.
\<close>

theorem lfthpool_create_init:
  assumes "lfthpool_create_sched env workers qsize sleep_func = LfPool r" and "unat workers \<le> 2 ^ 32"
    and "\<And>q. env_queue_new env (env_pow2 env qsize) = Some q \<Longrightarrow> ok q \<and> items q = []"
  shows "lf_init ok items (lf_created_system r) \<and> lr_started r = unat workers \<and>
    lr_sleep r = (case sleep_func of Some f \<Rightarrow> f | None \<Rightarrow> sched_usleep (env_yield_rc env))"
proof -
  have "0 < workers" using assms(1) by (auto simp: lfthpool_create_sched_def not_less word_le_nat_alt
      word_less_nat_alt split: if_splits)
  moreover obtain q where q: "env_queue_new env (env_pow2 env qsize) = Some q"
    and r: "lr_queue r = Some q" "lr_workers r = workers" "lr_started r = unat workers"
      "lr_sleep r = (case sleep_func of Some f \<Rightarrow> f | None \<Rightarrow> sched_usleep (env_yield_rc env))"
    using assms(1)
    by (auto simp: lfthpool_create_sched_def Let_def lf_fail_no_pool dest!: lf_create_workers_pool
        split: if_splits)
  ultimately show ?thesis
    using assms(2,3) unfolding lf_init_def lf_created_system_def by auto
qed

text \<open>A ring of two slots, three workers.\<close>

definition lf_env_ring :: "ring lf_env" where
  "lf_env_ring = \<lparr>env_yield_rc = 0, env_pool_mem = True, env_threads_mem = True,
     env_queue_new = (\<lambda>n. Some (ring_new [lf_task, lf_task] 2)), env_pow2 = (\<lambda>n. n),
     env_create_rc = (\<lambda>k. 0), env_failed_handle_zero = True, env_errno = Errno 0\<rparr>"

theorem lfthpool_create_init_witness:
  "\<exists>r. lfthpool_create_sched lf_env_ring 3 2 None = LfPool r \<and>
     lf_init ring_ok ring_pointers (lf_created_system r)"
proof -
  have "\<exists>r. lfthpool_create_sched lf_env_ring 3 2 None = LfPool r"
    using lf_create_workers_ok[of 3 lf_env_ring]
    by (simp add: lfthpool_create_sched_def Let_def lf_env_ring_def)
  then obtain r where r: "lfthpool_create_sched lf_env_ring 3 2 None = LfPool r" ..
  have q: "ring_ok q \<and> ring_pointers q = []" if "env_queue_new lf_env_ring (env_pow2 lf_env_ring 2) = Some q" for q
    using that ring_new_ok[of "[lf_task, lf_task]" 2] by (auto simp: lf_env_ring_def ring_pointers_def)
  from lfthpool_create_init[OF r _ q] r show ?thesis by simp
qed

end
