(* ===== verification/LfthpoolSpec.thy ===== *)
theory LfthpoolSpec
  imports LfthpoolProps TaskPool
begin

text \<open>
  The lock-free pool implements the same abstract task pool as the locking one, except that
  the external queue decides how many tasks it has room for. It never deadlocks: its threads
  poll, and the only one that blocks, in \<open>pthread_join\<close>, waits for a worker that can move.
\<close>

section \<open>The abstraction\<close>

definition lf_history_of :: "'q lfpool \<Rightarrow> task_history" where
  "lf_history_of m = \<lparr>accepted = lf_submitted m, removed = lf_taken m, done_tasks = lf_finished m\<rparr>"

definition lf_task_pool_of :: "('q \<Rightarrow> addr list) \<Rightarrow> 'q lf_system \<Rightarrow> task_pool" where
  "lf_task_pool_of items s = \<lparr>pending = map (load (lf_mem s)) (items (lf_task_queue (lf_mem s))),
     active = image_mset (load (lf_mem s)) (tsum lf_carried (lf_pcs s)),
     completed = mset (lf_finished (lf_mem s))\<rparr>"

lemma lf_effect_history: "lf_effect Q m p m' p' \<Longrightarrow> history_step True (lf_history_of m) (lf_history_of m')"
  by (induction rule: lf_effect.induct)
    (auto simp: lf_history_of_def history_step.simps lf_run_task_def free_task_def)

context mpmc_queue
begin

lemma lf_history_explains:
  "live_pool_inv s \<Longrightarrow> explains (lf_history_of (lf_mem s)) (lf_task_pool_of items s)"
  by (simp add: live_pool_inv_def hist_inv_def explains_def lf_history_of_def lf_task_pool_of_def)

lemma lf_next_history:
  assumes n: "lf_next Q e s = Some s'" and live: "\<not> lf_deleted (lf_mem s')"
  shows "history_step True (lf_history_of (lf_mem s)) (lf_history_of (lf_mem s')) \<and> \<not> lf_deleted (lf_mem s)"
proof (cases e)
  case (LfStep i v)
  with n obtain m p where x: "lf_exec Q i v (lf_pcs s i) (lf_mem s) = Some (m, p)"
    and s': "s' = \<lparr>lf_mem = m, lf_pcs = (lf_pcs s)(i := p)\<rparr>"
    by (auto simp only: lf_step_Some)
  have "lf_pcs s i \<noteq> LfShutdown LH_DeleteQueue"
    using lf_delete_deletes[of Q i v "lf_mem s" m p] x live by (auto simp: s' simp del: lf_exec.simps)
  with lf_exec_effect[OF x] lf_effect_history lf_deleted_stays[OF x] live show ?thesis
    by (simp add: s') blast
next
  case (LfCall c f)
  with n have "lf_mem s' = lf_mem s" by (auto simp only: lf_call_Some) simp
  with live show ?thesis by (simp add: history_step.same)
qed

lemma lf_next_refines:
  assumes inv: "lf_inv s" and n: "lf_next Q e s = Some s'" and live: "\<not> lf_deleted (lf_mem s')"
  shows "open_pool_does (lf_task_pool_of items s) (lf_task_pool_of items s')"
proof -
  note step = lf_next_history[OF n live]
  have "live_pool_inv s" "live_pool_inv s'"
    using inv lf_inv_next[OF inv n] live step by (auto simp: lf_inv_def)
  note explained = this[THEN lf_history_explains]
  let ?cap = "length (pending (lf_task_pool_of items s)) + 1"
  have "history_step (length (pending (lf_task_pool_of items s)) < ?cap)
      (lf_history_of (lf_mem s)) (lf_history_of (lf_mem s'))" using step by simp
  from history_step_refines[OF this explained] show ?thesis
    unfolding open_pool_does_def by blast
qed

lemma lf_run_refines:
  assumes "lf_inv s" and "run (lf_next Q) es s = Some s'" and "\<not> lf_deleted (lf_mem s')"
  shows "open_pool_does\<^sup>*\<^sup>* (lf_task_pool_of items s) (lf_task_pool_of items s') \<and> \<not> lf_deleted (lf_mem s)"
  using assms
proof (induction es arbitrary: s)
  case (Cons e es)
  then obtain u where u: "lf_next Q e s = Some u" "run (lf_next Q) es u = Some s'"
    by (auto split: option.splits)
  have inv: "lf_inv u" by (rule lf_inv_next[OF Cons.prems(1) u(1)])
  note rest = Cons.IH[OF inv u(2) Cons.prems(3)]
  then have live: "\<not> lf_deleted (lf_mem u)" by blast
  note first = lf_next_refines[OF Cons.prems(1) u(1) live]
  from converse_rtranclp_into_rtranclp[of open_pool_does, OF first] rest
    lf_next_history[OF u(1) live]
  show ?case by blast
qed simp

lemma lf_reach_refines:
  assumes "reach (lf_init ok items) (lf_next Q) s" and "run (lf_next Q) es s = Some s'"
    and "\<not> lf_deleted (lf_mem s')"
  shows "open_pool_does\<^sup>*\<^sup>* (lf_task_pool_of items s) (lf_task_pool_of items s')"
  using lf_run_refines[OF lf.reach_inv[OF assms(1)] assms(2,3)] by blast

end

section \<open>Progress\<close>

lemma lf_exec_moves:
  assumes "\<And>r. p \<noteq> LfReturned r" and "\<And>d k. p \<noteq> LfShutdown (LH_Join d k)"
  shows "lf_exec Q i None p m \<noteq> None"
proof (cases p)
  case (LfWorker w)
  then show ?thesis by (cases w) (auto split: prod.splits option.splits)
next
  case (LfTryOnce w)
  then show ?thesis by (cases w) (auto split: prod.splits option.splits)
next
  case (LfAdd w)
  then show ?thesis by (cases w) (auto simp: malloc_task_def split: prod.splits)
next
  case (LfAddTry w)
  then show ?thesis by (cases w) (auto simp: malloc_task_def split: prod.splits qerr.splits)
next
  case (LfMisc w)
  then show ?thesis by (cases w) auto
next
  case (LfWait w)
  then show ?thesis by (cases w) auto
next
  case (LfShutdown w)
  with assms show ?thesis by (cases w) auto
qed (use assms in blast)

lemma lf_next_enabled: "lf_exec Q i v (lf_pcs s i) (lf_mem s) \<noteq> None \<Longrightarrow> lf_next Q (LfStep i v) s \<noteq> None"
  by (auto split: option.splits)

context mpmc_queue
begin

lemma lf_it_or_worker_moves:
  assumes inv: "live_pool_inv s" and busy: "\<And>r. lf_pcs s i \<noteq> LfReturned r"
  obtains j where "j = i \<or> lf_is_worker (lf_mem s) j" "lf_next Q (LfStep j None) s \<noteq> None"
proof (cases "\<exists>d k. lf_pcs s i = LfShutdown (LH_Join d k)")
  case False
  then have "lf_exec Q i None (lf_pcs s i) (lf_mem s) \<noteq> None"
    by (intro lf_exec_moves busy) blast
  from that[OF _ lf_next_enabled[OF this]] show thesis by simp
next
  case True
  then obtain d k where p: "lf_pcs s i = LfShutdown (LH_Join d k)" by blast
  let ?w = "lf_worker_handle k"
  have roles: "lf_role_inv s" and "lf_knows i (lf_pcs s i) (lf_mem s)"
    using inv by (auto simp: live_pool_inv_def lf_knows_inv_def)
  then have "k < lf_thread_count (lf_mem s)" "unat (lf_thread_count (lf_mem s)) \<le> 2 ^ 32"
    by (auto simp: p lf_role_inv_def)
  then have w: "lf_is_worker (lf_mem s) ?w" by (rule lf_handle_is_worker)
  show thesis
  proof (cases "?w \<in> lf_exited (lf_mem s)")
    case True
    then have "lf_exec Q i None (lf_pcs s i) (lf_mem s) \<noteq> None" by (simp add: p lf_join_def)
    from that[OF _ lf_next_enabled[OF this]] show thesis by simp
  next
    case False
    have "lf_role_ok (lf_mem s) ?w (lf_pcs s ?w)" using roles by (simp add: lf_role_inv_def)
    with w False obtain q where q: "lf_pcs s ?w = LfWorker q" by (auto simp: lf_role_ok_def)
    then have "lf_exec Q ?w None (lf_pcs s ?w) (lf_mem s) \<noteq> None"
      unfolding q by (intro lf_exec_moves) simp_all
    from that[OF _ lf_next_enabled[OF this]] w show thesis by simp
  qed
qed

lemma lf_some_thread_moves:
  assumes "live_pool_inv s" and "\<And>r. lf_pcs s i \<noteq> LfReturned r"
  shows "\<exists>j. lf_next Q (LfStep j None) s \<noteq> None"
  using lf_it_or_worker_moves[OF assms] by metis

lemma lf_reach_moves:
  assumes "reach (lf_init ok items) (lf_next Q) s" and "\<not> lf_deleted (lf_mem s)"
    and "\<And>r. lf_pcs s i \<noteq> LfReturned r"
  shows "\<exists>j. lf_next Q (LfStep j None) s \<noteq> None"
  using lf_some_thread_moves[OF reach_live[OF assms(1,2)] assms(3)] .

end

section \<open>Properties\<close>

text \<open>
  C2: Every run of the lock-free pool, by any threads in any order, is a run of the abstract
  task pool until \<open>lfthpool_destroy\<close> deletes the queue: tasks are appended in the order in
  which they are accepted, taken from the front, run once and completed; no step of any
  thread does anything else to them.
\<close>

theorem lfthpool_refines_task_pool:
  assumes "mpmc_queue Q ok items" and "reach (lf_init ok items) (lf_next Q) s"
    and "run (lf_next Q) es s = Some s'" and "\<not> lf_deleted (lf_mem s')"
  shows "open_pool_does\<^sup>*\<^sup>* (lf_task_pool_of items s) (lf_task_pool_of items s')"
  by (rule mpmc_queue.lf_reach_refines[OF assms])

text \<open>From an empty pool: a task is added and the worker takes it.\<close>

theorem lfthpool_refines_task_pool_witness:
  "open_pool_does\<^sup>*\<^sup>* \<lparr>pending = [], active = {#}, completed = {#}\<rparr>
    \<lparr>pending = [], active = {#lf_task#}, completed = {#}\<rparr>"
proof -
  have live: "\<not> lf_deleted (lf_mem lf_state_taken)" by (simp add: lf_state_taken_def eval_lf)
  have "tsum lf_carried (lf_pcs lf_small_pool) = {#}"
    by (rule tsum_const_zero) (simp add: eval_lf Let_def)
  then have "lf_task_pool_of ring_pointers lf_small_pool = \<lparr>pending = [], active = {#}, completed = {#}\<rparr>"
    by (simp add: lf_task_pool_of_def ring_pointers_def) (simp add: eval_lf Let_def ring_items_def)
  moreover have "tsum lf_carried (lf_pcs lf_state_taken) = {#4096#}"
  proof -
    have "tsum lf_carried (lf_pcs lf_state_taken) + {#} = tsum lf_carried
        ((lf_pcs lf_small_pool)(Client 0 := LfReturned (RInt 0))) + {#4096#}"
      using tsum_upd[of lf_carried "(lf_pcs lf_small_pool)(Client 0 := LfReturned (RInt 0))" "Worker 0"
          "LfWorker (LW_Inc 4096)"]
      by (simp add: lf_state_taken_def) (simp add: eval_lf Let_def)
    moreover have "tsum lf_carried ((lf_pcs lf_small_pool)(Client 0 := LfReturned (RInt 0))) = {#}"
      by (rule tsum_const_zero) (simp add: eval_lf Let_def)
    ultimately show ?thesis by simp
  qed
  then have "lf_task_pool_of ring_pointers lf_state_taken =
      \<lparr>pending = [], active = {#lf_task#}, completed = {#}\<rparr>"
    by (simp add: lf_task_pool_of_def ring_pointers_def ring_items_def)
      (simp add: lf_state_taken_def load_def eval_lf)
  ultimately show ?thesis
    using lfthpool_refines_task_pool[OF ring_queue.mpmc_queue_axioms lf_small_pool_reach lf_run_taken live]
    by (simp only:)
qed

text \<open>
  The lock-free pool never deadlocks: as long as some thread has not returned from the
  library, some thread can make a step; even a client that waits in \<open>pthread_join\<close> waits for
  a worker that is able to move.
\<close>

theorem lfthpool_no_deadlock:
  assumes "mpmc_queue Q ok items" and "reach (lf_init ok items) (lf_next Q) s"
    and "\<not> lf_deleted (lf_mem s)" and "\<And>r. lf_pcs s i \<noteq> LfReturned r"
  shows "\<exists>j. lf_next Q (LfStep j None) s \<noteq> None"
  by (rule mpmc_queue.lf_reach_moves[OF assms])

theorem lfthpool_no_deadlock_witness:
  "\<exists>j. lf_next ring_queue_ops (LfStep j None) lf_state_stopping \<noteq> None"
proof (rule lfthpool_no_deadlock[OF ring_queue.mpmc_queue_axioms])
  show "reach (lf_init ring_ok ring_pointers) (lf_next ring_queue_ops) lf_state_stopping"
    by (rule lf_small_pool_run[OF lf_run_stopping])
  show "\<not> lf_deleted (lf_mem lf_state_stopping)" by (simp add: lf_state_stopping_def eval_lf)
  show "lf_pcs lf_state_stopping (Client 0) \<noteq> LfReturned r" for r by (simp add: lf_state_stopping_def)
qed

end
