(* ===== verification/LfthpoolCalls.thy ===== *)
theory LfthpoolCalls
  imports LfthpoolSpec
begin

text \<open>
  Whole calls of the lock-free pool's API: the round trip of a task and of its heap block, and
  the number of steps \<open>lfthpool_add_task_try\<close> makes.
\<close>

section \<open>Putting a task in and taking it out\<close>

context mpmc_queue
begin

lemma take_the_only_item:
  assumes "ok q" and "items q = []" and "q_enqueue Q p q = (QERR_OK, q')"
  obtains q'' where "q_dequeue Q q' = (Some p, q'')" "ok q''" "items q'' = []"
proof -
  have q': "ok q'" "items q' = [p]" using enqueue_ok[OF assms(1,3)] assms(2) by simp_all
  obtain x q'' where d: "q_dequeue Q q' = (x, q'')" by (cases "q_dequeue Q q'")
  show thesis
  proof (cases x)
    case None
    with dequeue_none[OF q'(1)] d q'(2) show thesis by simp
  next
    case (Some a)
    with dequeue_some[OF q'(1), of a q''] d q'(2) have "ok q'' \<and> [p] = a # items q''" by simp
    with that[of q''] d Some show thesis by simp
  qed
qed

lemma lf_add_run:
  assumes inv: "live_pool_inv s" and ret: "lf_pcs s (Client c) = LfReturned r"
    and empty: "items (lf_task_queue (lf_mem s)) = []" and fresh: "p \<noteq> 0" "heap (lf_mem s) p = None"
    and room: "q_enqueue Q p (lf_task_queue (lf_mem s)) = (QERR_OK, q')"
  shows "\<exists>s' s''.
    run (lf_next Q) [LfCall c (LfCallAdd t), LfStep (Client c) (Some p), LfStep (Client c) None] s = Some s' \<and>
    lf_pcs s' (Client c) = LfReturned (RInt 0) \<and> heap (lf_mem s') = (heap (lf_mem s))(p := Some t) \<and>
    run (lf_next Q) (LfCall c LfCallTryOnce # replicate 5 (LfStep (Client c) None)) s' = Some s'' \<and>
    lf_pcs s'' = (lf_pcs s)(Client c := LfReturned (RInt 0)) \<and> heap (lf_mem s'') = heap (lf_mem s) \<and>
    items (lf_task_queue (lf_mem s'')) = [] \<and> lf_finished (lf_mem s'') = lf_finished (lf_mem s) @ [t] \<and>
    lf_running_count (lf_mem s'') = lf_running_count (lf_mem s) \<and> \<not> bad_access (lf_mem s'')"
proof -
  let ?m = "lf_mem s" and ?c = "Client c"
  have okq: "ok (lf_task_queue ?m)" and good: "\<not> bad_access ?m"
    using inv by (auto simp: live_pool_inv_def own_inv_def)
  obtain q'' where deq: "q_dequeue Q q' = (Some p, q'')" and q'': "items q'' = []"
    by (rule take_the_only_item[OF okq empty room])
  define m1 where "m1 = ?m\<lparr>heap := (heap ?m)(p := Some t), lf_task_queue := q',
    lf_submitted := lf_submitted ?m @ [t]\<rparr>"
  define s1 where "s1 = \<lparr>lf_mem = m1, lf_pcs = (lf_pcs s)(?c := LfReturned (RInt 0))\<rparr>"
  have add: "run (lf_next Q) [LfCall c (LfCallAdd t), LfStep ?c (Some p), LfStep ?c None] s = Some s1"
    using ret fresh room by (simp add: malloc_task_def lf_enqueue_def load_def s1_def m1_def)
  define m2 where "m2 = m1\<lparr>heap := heap ?m, lf_task_queue := q'', lf_taken := lf_taken ?m @ [t],
    lf_finished := lf_finished ?m @ [t]\<rparr>"
  have "(heap m1)(p := None) = heap ?m" using fresh(2) by (auto simp: m1_def)
  then have "run (lf_next Q) (LfCall c LfCallTryOnce # replicate 5 (LfStep ?c None)) s1 =
      Some \<lparr>lf_mem = m2, lf_pcs = (lf_pcs s1)(?c := LfReturned (RInt 0))\<rparr>"
    using deq good by (simp add: numeral_eq_Suc lf_prim_defs load_def s1_def m2_def m1_def)
  with add q'' good show ?thesis
    by (intro exI[of _ s1] exI[of _ "\<lparr>lf_mem = m2, lf_pcs = (lf_pcs s1)(?c := LfReturned (RInt 0))\<rparr>"])
      (simp add: s1_def m1_def m2_def del: run.simps)
qed

end

text \<open>
  C29: Round trip in the lock-free pool: a task added to an empty pool and run with
  \<open>lfthpool_worker_try_once\<close> runs exactly once, both calls return 0, and the pool is as it
  was: the block \<open>malloc\<close> gave for the task is free again and every other block untouched.
\<close>

theorem lfthpool_add_run_roundtrip:
  assumes "mpmc_queue Q ok items" and "reach (lf_init ok items) (lf_next Q) s"
    and "\<not> lf_deleted (lf_mem s)" and "lf_pcs s (Client c) = LfReturned r"
    and "items (lf_task_queue (lf_mem s)) = []" and "p \<noteq> 0" and "heap (lf_mem s) p = None"
    and "q_enqueue Q p (lf_task_queue (lf_mem s)) = (QERR_OK, q')"
  shows "\<exists>s' s''.
    run (lf_next Q) [LfCall c (LfCallAdd t), LfStep (Client c) (Some p), LfStep (Client c) None] s = Some s' \<and>
    lf_pcs s' (Client c) = LfReturned (RInt 0) \<and> heap (lf_mem s') = (heap (lf_mem s))(p := Some t) \<and>
    run (lf_next Q) (LfCall c LfCallTryOnce # replicate 5 (LfStep (Client c) None)) s' = Some s'' \<and>
    lf_pcs s'' = (lf_pcs s)(Client c := LfReturned (RInt 0)) \<and> heap (lf_mem s'') = heap (lf_mem s) \<and>
    items (lf_task_queue (lf_mem s'')) = [] \<and> lf_finished (lf_mem s'') = lf_finished (lf_mem s) @ [t] \<and>
    lf_running_count (lf_mem s'') = lf_running_count (lf_mem s) \<and> \<not> bad_access (lf_mem s'')"
  by (rule mpmc_queue.lf_add_run[OF assms(1) lf_live[OF assms(1-3)] assms(4-8)])

theorem lfthpool_add_run_roundtrip_witness:
  "\<exists>s' s''. run (lf_next ring_queue_ops) [LfCall 0 (LfCallAdd lf_task), LfStep (Client 0) (Some 4096),
      LfStep (Client 0) None] lf_small_pool = Some s' \<and> heap (lf_mem s') 4096 = Some lf_task \<and>
    run (lf_next ring_queue_ops) (LfCall 0 LfCallTryOnce # replicate 5 (LfStep (Client 0) None)) s' = Some s'' \<and>
    heap (lf_mem s'') = (\<lambda>_. None) \<and> lf_finished (lf_mem s'') = [lf_task]"
proof -
  have p: "\<not> lf_deleted (lf_mem lf_small_pool)" "lf_pcs lf_small_pool (Client 0) = LfReturned RVoid"
    "ring_pointers (lf_task_queue (lf_mem lf_small_pool)) = []" "(4096 :: addr) \<noteq> 0"
    "heap (lf_mem lf_small_pool) 4096 = None"
    and q: "heap (lf_mem lf_small_pool) = (\<lambda>_. None)" "lf_finished (lf_mem lf_small_pool) = []"
    by (simp_all add: eval_lf ring_pointers_def ring_items_def Let_def)
  moreover obtain q' where "q_enqueue ring_queue_ops 4096 (lf_task_queue (lf_mem lf_small_pool)) = (QERR_OK, q')"
    by (simp add: eval_lf Let_def)
  from lfthpool_add_run_roundtrip[OF ring_queue.mpmc_queue_axioms lf_small_pool_reach p(1-5) this, of lf_task]
  show ?thesis unfolding q by (elim exE conjE, intro exI conjI) (assumption | simp del: run.simps)+
qed

section \<open>The steps of \<open>lfthpool_add_task_try\<close>\<close>

fun lf_try_fuel :: "lfpc \<Rightarrow> nat" where
  "lf_try_fuel (LfAddTry p) = (case p of
       LR_Malloc t k \<Rightarrow> 2 * nat (k + 1) + 3 | LR_Enqueue a k \<Rightarrow> 2 * nat (k + 1) + 2
     | LR_Sleep a k \<Rightarrow> 2 * nat k + 3 | LR_Free a r \<Rightarrow> 1)"
| "lf_try_fuel _ = 0"

fun in_lf_add_try :: "lfpc \<Rightarrow> bool" where
  "in_lf_add_try (LfAddTry p) \<longleftrightarrow> (case p of LR_Sleep a k \<Rightarrow> 0 \<le> k | _ \<Rightarrow> True)"
| "in_lf_add_try (LfReturned r) \<longleftrightarrow> True"
| "in_lf_add_try _ \<longleftrightarrow> False"

fun lf_step_of :: "tid \<Rightarrow> lf_event \<Rightarrow> bool" where
  "lf_step_of i (LfStep j v) \<longleftrightarrow> j = i"
| "lf_step_of i _ \<longleftrightarrow> False"

fun lf_not_called :: "tid \<Rightarrow> lf_event \<Rightarrow> bool" where
  "lf_not_called i (LfCall c f) \<longleftrightarrow> Client c \<noteq> i"
| "lf_not_called i _ \<longleftrightarrow> True"

lemma lf_exec_try_fuel:
  assumes "lf_exec Q i v p m = Some (m', p')" and "in_lf_add_try p"
  shows "in_lf_add_try p' \<and> lf_try_fuel p' < lf_try_fuel p"
proof (cases p)
  case (LfAddTry q)
  with assms show ?thesis
    by (cases q) (auto simp: lf_resume_at_Some malloc_task_def split: prod.splits qerr.splits option.splits if_splits)
qed (use assms in auto)

interpretation lf_add_try: bounded_steps "lf_next Q" "lf_not_called i" "lf_step_of i"
  "\<lambda>s. in_lf_add_try (lf_pcs s i)" "\<lambda>s. lf_try_fuel (lf_pcs s i)" for Q i
proof
  fix s s' e
  assume good: "in_lf_add_try (lf_pcs s i)" and call: "lf_not_called i e" and n: "lf_next Q e s = Some s'"
  have own: "in_lf_add_try (lf_pcs s' i) \<and> lf_try_fuel (lf_pcs s' i) < lf_try_fuel (lf_pcs s i)" if "lf_step_of i e"
  proof -
    from that obtain v where "e = LfStep i v" by (cases e) auto
    with n obtain m p where "lf_exec Q i v (lf_pcs s i) (lf_mem s) = Some (m, p)"
      and "s' = \<lparr>lf_mem = m, lf_pcs = (lf_pcs s)(i := p)\<rparr>" by (auto simp only: lf_step_Some)
    with lf_exec_try_fuel good show ?thesis by simp
  qed
  have other: "lf_pcs s' i = lf_pcs s i" if "\<not> lf_step_of i e"
  proof (cases e)
    case (LfStep j v)
    with n that show ?thesis by (auto simp only: lf_step_Some) simp
  next
    case (LfCall c f)
    with n call show ?thesis by (auto simp only: lf_call_Some) simp
  qed
  show "in_lf_add_try (lf_pcs s' i)" using own other good by (cases "lf_step_of i e") auto
  show "lf_step_of i e \<Longrightarrow> lf_try_fuel (lf_pcs s' i) \<le> lf_try_fuel (lf_pcs s i) - 1"
    and "lf_step_of i e \<Longrightarrow> 0 < lf_try_fuel (lf_pcs s i)" using own by auto
  show "\<not> lf_step_of i e \<Longrightarrow> lf_try_fuel (lf_pcs s' i) \<le> lf_try_fuel (lf_pcs s i)" using other by simp
qed

text \<open>
  \<open>lfthpool_add_task_try\<close> terminates without help: whatever the other threads and the
  external queue do, the caller is never blocked and has returned after at most two steps for
  each of its \<open>max_try + 1\<close> retries and three more.
\<close>

theorem lfthpool_add_task_try_terminates:
  assumes "lf_pcs s i = LfAddTry (LR_Malloc t k)" and "run (lf_next Q) es s = Some s'"
    and "list_all (lf_not_called i) es"
  shows "length (filter (lf_step_of i) es) \<le> 2 * nat (k + 1) + 3 \<and>
    ((\<exists>r. lf_pcs s' i = LfReturned r) \<or> lf_next Q (LfStep i None) s' \<noteq> None)"
proof -
  have "in_lf_add_try (lf_pcs s i)" by (simp add: assms(1))
  note fuel = lf_add_try.run_fuel[OF this assms(3,2)]
  have "lf_next Q (LfStep i None) s' \<noteq> None" if "\<And>r. lf_pcs s' i \<noteq> LfReturned r"
    by (rule lf_next_enabled, rule lf_exec_moves[OF that]) (use fuel in auto)
  with fuel assms(1) show ?thesis by auto
qed

theorem lfthpool_add_task_try_terminates_witness:
  "\<exists>s s'. run (lf_next ring_queue_ops) (LfStep (Client 0) (Some 4096) # lf_steps (Client 0) 1) s = Some s' \<and>
    lf_pcs s' (Client 0) = LfReturned (RInt 0) \<and>
    length (filter (lf_step_of (Client 0)) (LfStep (Client 0) (Some 4096) # lf_steps (Client 0) 1)) \<le> 7"
proof -
  let ?es = "LfStep (Client 0) (Some 4096) # lf_steps (Client 0) 1"
  obtain s where p: "lf_pcs s (Client 0) = LfAddTry (LR_Malloc lf_task 1)"
    and run: "\<exists>s'. run (lf_next ring_queue_ops) ?es s = Some s' \<and> lf_pcs s' (Client 0) = LfReturned (RInt 0)"
    by (rule that[of "lf_small_pool\<lparr>lf_pcs := (lf_pcs lf_small_pool)(Client 0 := LfAddTry (LR_Malloc lf_task 1))\<rparr>"])
      (simp_all add: eval_lf Let_def)
  from run obtain s' where s': "run (lf_next ring_queue_ops) ?es s = Some s'"
    "lf_pcs s' (Client 0) = LfReturned (RInt 0)" by blast
  have "list_all (lf_not_called (Client 0)) ?es" by simp
  from lfthpool_add_task_try_terminates[OF p s'(1) this] s' show ?thesis by fastforce
qed

end
