(* ===== verification/LfthpoolEnds.thy ===== *)
theory LfthpoolEnds
  imports LfthpoolCalls
begin

text \<open>
  How the lock-free pool ends: \<open>lfthpool_shutdown\<close> returns after a bounded number of steps of
  its caller and of the workers, whatever the other threads do; but the tasks it leaves in the
  queue keep a later \<open>lfthpool_wait\<close> from returning.
\<close>

section \<open>Shutting down terminates\<close>

text \<open>The steps a worker can still make once the shutdown flag is set.\<close>

fun lf_last_steps :: "lfpc \<Rightarrow> nat" where
  "lf_last_steps (LfWorker p) = (case p of LW_Shutdown \<Rightarrow> 1 | LW_Hold \<Rightarrow> 7 | LW_Sleep \<Rightarrow> 2
     | LW_Dequeue \<Rightarrow> 6 | LW_Nap \<Rightarrow> 2 | LW_Inc a \<Rightarrow> 5 | LW_Run a \<Rightarrow> 4 | LW_Dec a \<Rightarrow> 3 | LW_Free a \<Rightarrow> 2)"
| "lf_last_steps _ = 0"

text \<open>The steps the caller of \<open>lfthpool_shutdown\<close> makes after the store, with \<open>n\<close> workers.\<close>

fun lf_join_steps :: "size_t \<Rightarrow> lfpc \<Rightarrow> nat" where
  "lf_join_steps n (LfShutdown h) = (case h of LH_Store d \<Rightarrow> 3 * unat n + 3
     | LH_Test d k \<Rightarrow> 3 * (unat n - unat k) + 2 | LH_Join d k \<Rightarrow> 3 * (unat n - unat k) + 1
     | LH_Clear d k \<Rightarrow> 3 * (unat n - unat k) | LH_DeleteQueue \<Rightarrow> 1)"
| "lf_join_steps n _ = 0"

fun lf_ending :: "size_t \<Rightarrow> lfpc \<Rightarrow> bool" where
  "lf_ending n (LfShutdown h) \<longleftrightarrow> (case h of LH_Join d k \<Rightarrow> k < n | LH_Clear d k \<Rightarrow> k < n | _ \<Rightarrow> True)"
| "lf_ending n (LfReturned r) \<longleftrightarrow> True"
| "lf_ending n _ \<longleftrightarrow> False"

text \<open>The threads that take part: the caller \<open>i\<close> and the \<open>n\<close> workers.\<close>

fun lf_takes_part :: "tid \<Rightarrow> size_t \<Rightarrow> tid \<Rightarrow> bool" where
  "lf_takes_part i n (Worker w) \<longleftrightarrow> Worker w = i \<or> unat w < unat n"
| "lf_takes_part i n (Client c) \<longleftrightarrow> Client c = i"

fun lf_stop_step :: "tid \<Rightarrow> size_t \<Rightarrow> lf_event \<Rightarrow> bool" where
  "lf_stop_step i n (LfStep j v) \<longleftrightarrow> lf_takes_part i n j"
| "lf_stop_step i n _ \<longleftrightarrow> False"

definition lf_winding_down :: "tid \<Rightarrow> size_t \<Rightarrow> 'q lf_system \<Rightarrow> bool" where
  "lf_winding_down i n s \<longleftrightarrow> lf_shutdown (lf_mem s) = 1 \<and> lf_thread_count (lf_mem s) = n \<and>
     lf_ending n (lf_pcs s i) \<and>
     (\<forall>j. if lf_is_worker (lf_mem s) j then (\<exists>q. lf_pcs s j = LfWorker q) \<or> (\<exists>r. lf_pcs s j = LfReturned r)
       else \<forall>q. lf_pcs s j \<noteq> LfWorker q)"

lemma next_index: "k < n \<Longrightarrow> unat (k + 1) = unat k + 1" for k n :: size_t
  using unsigned_less[of n, where 'a = nat] by (simp add: unat_word_ariths word_less_nat_alt)

lemma lf_exec_last_steps:
  "lf_exec Q i v p m = Some (m', p') \<Longrightarrow>
    lf_thread_count m' = lf_thread_count m \<and> (lf_shutdown m = 1 \<longrightarrow> lf_shutdown m' = 1) \<and>
    (if \<exists>q. p = LfWorker q
     then ((\<exists>q. p' = LfWorker q) \<or> (\<exists>r. p' = LfReturned r)) \<and> lf_join_steps n p' = 0 \<and>
       (lf_shutdown m = 1 \<longrightarrow> lf_last_steps p' < lf_last_steps p)
     else (\<forall>q. p' \<noteq> LfWorker q)) \<and>
    (lf_ending n p \<and> lf_thread_count m = n \<longrightarrow> lf_ending n p' \<and> lf_join_steps n p' < lf_join_steps n p)"
  by (erule lf_exec_points; erule lf_step_elims;
      auto simp: Some_map_option step_defs fold_free_task_sel next_index word_less_nat_alt
      split: lf_splits)

definition lf_stop_fuel :: "tid \<Rightarrow> size_t \<Rightarrow> 'q lf_system \<Rightarrow> nat" where
  "lf_stop_fuel i n s = tsum lf_last_steps (lf_pcs s) + lf_join_steps n (lf_pcs s i)"

lemma lf_winding_step:
  assumes good: "lf_winding_down i n s" and e: "lf_exec Q j v (lf_pcs s j) (lf_mem s) = Some (m, p)"
    and s': "s' = \<lparr>lf_mem = m, lf_pcs = (lf_pcs s)(j := p)\<rparr>"
  shows "lf_winding_down i n s' \<and>
    (if lf_takes_part i n j then lf_stop_fuel i n s' < lf_stop_fuel i n s
     else lf_stop_fuel i n s' = lf_stop_fuel i n s)"
proof -
  let ?M = "lf_mem s" and ?q = "lf_pcs s j"
  note x = lf_exec_last_steps[OF e]
  have g: "lf_shutdown ?M = 1" "lf_thread_count ?M = n" "lf_ending n (lf_pcs s i)"
    and roles: "if lf_is_worker ?M k then (\<exists>q. lf_pcs s k = LfWorker q) \<or> (\<exists>r. lf_pcs s k = LfReturned r)
       else \<forall>q. lf_pcs s k \<noteq> LfWorker q" for k
    using good unfolding lf_winding_down_def by blast+
  have same: "lf_is_worker m k \<longleftrightarrow> lf_is_worker ?M k" for k using x by (intro lf_is_worker_cong) simp
  have live: "\<And>r. ?q \<noteq> LfReturned r" using e by auto
  have ending: "lf_ending n (((lf_pcs s)(j := p)) i)" using g x[of n] by (cases "j = i") auto
  have roles': "if lf_is_worker m k then (\<exists>q. ((lf_pcs s)(j := p)) k = LfWorker q) \<or> (\<exists>r. ((lf_pcs s)(j := p)) k = LfReturned r)
      else \<forall>q. ((lf_pcs s)(j := p)) k \<noteq> LfWorker q" for k
    using roles[of k] roles[of j] x live by (cases "k = j") (auto simp: same split: if_splits)
  have keep: "lf_winding_down i n s'"
    unfolding lf_winding_down_def s' lf_system.simps
    by (intro conjI allI roles' ending) (use g x in simp_all)
  have sum: "tsum lf_last_steps ((lf_pcs s)(j := p)) + lf_last_steps ?q = tsum lf_last_steps (lf_pcs s) + lf_last_steps p"
    by (rule tsum_upd)
  have other: "lf_last_steps q = 0" if "\<forall>w. q \<noteq> LfWorker w" for q using that by (cases q) auto
  show ?thesis
  proof (cases "j = i")
    case True
    then have "\<forall>w. ?q \<noteq> LfWorker w" using g(3) by auto
    with x[of n] g True sum other[of ?q] other[of p] keep show ?thesis
      by (cases i) (auto simp: lf_stop_fuel_def s')
  next
    case False
    show ?thesis
    proof (cases "\<exists>w. ?q = LfWorker w")
      case True
      with roles[of j] have "lf_is_worker ?M j" by (metis (full_types))
      with g(2) have "lf_takes_part i n j" by (cases j) auto
      moreover have "lf_last_steps p < lf_last_steps ?q" using True x g(1) by simp
      ultimately show ?thesis using sum keep False by (simp add: lf_stop_fuel_def s')
    next
      case no: False
      with roles[of j] live have "\<not> lf_is_worker ?M j" by (metis (full_types))
      with g(2) False have "\<not> lf_takes_part i n j" by (cases j) auto
      with no x sum other[of ?q] other[of p] keep False show ?thesis by (auto simp: lf_stop_fuel_def s')
    qed
  qed
qed

interpretation lf_stops: bounded_steps "lf_next Q" "lf_not_called i" "lf_stop_step i n"
  "lf_winding_down i n" "lf_stop_fuel i n" for Q i n
proof
  fix s s' :: "'a lf_system" and e
  assume good: "lf_winding_down i n s" and call: "lf_not_called i e" and nx: "lf_next Q e s = Some s'"
  have step: "lf_winding_down i n s' \<and>
      (if lf_stop_step i n e then lf_stop_fuel i n s' < lf_stop_fuel i n s
       else lf_stop_fuel i n s' = lf_stop_fuel i n s)"
  proof (cases e)
    case (LfStep j v)
    with nx obtain m p where "lf_exec Q j v (lf_pcs s j) (lf_mem s) = Some (m, p)"
      and "s' = \<lparr>lf_mem = m, lf_pcs = (lf_pcs s)(j := p)\<rparr>" by (auto simp only: lf_step_Some)
    from lf_winding_step[OF good this] show ?thesis unfolding LfStep lf_stop_step.simps .
  next
    case (LfCall c f)
    with nx obtain r where r: "lf_pcs s (Client c) = LfReturned r"
      and s': "s' = s\<lparr>lf_pcs := (lf_pcs s)(Client c := lf_entry f)\<rparr>" by (auto simp only: lf_call_Some)
    have "lf_last_steps (lf_entry f) = 0" by (cases f) auto
    with r have "tsum lf_last_steps ((lf_pcs s)(Client c := lf_entry f)) = tsum lf_last_steps (lf_pcs s)"
      by (intro tsum_upd_eq) simp
    moreover have "\<not> lf_is_worker (lf_mem s) (Client c)" by simp
    ultimately show ?thesis using good call LfCall by (auto simp: s' lf_winding_down_def lf_stop_fuel_def)
  qed
  then show "lf_winding_down i n s'" by blast
  from step show "lf_stop_step i n e \<Longrightarrow> lf_stop_fuel i n s' \<le> lf_stop_fuel i n s - 1"
    and "lf_stop_step i n e \<Longrightarrow> 0 < lf_stop_fuel i n s"
    and "\<not> lf_stop_step i n e \<Longrightarrow> lf_stop_fuel i n s' \<le> lf_stop_fuel i n s" by auto
qed

lemma lf_workers_last_steps:
  assumes "lf_winding_down i n s" and "unat n \<le> 2 ^ 32"
  shows "tsum lf_last_steps (lf_pcs s) \<le> 7 * unat n"
proof -
  have worker: "lf_is_worker (lf_mem s) j" if "\<exists>q. lf_pcs s j = LfWorker q" for j
    using assms(1) that unfolding lf_winding_down_def by (metis (full_types))
  have "lf_last_steps (lf_pcs s j) \<le> 7 * of_bool (lf_is_worker (lf_mem s) j)" for j
    using worker[of j] by (cases "lf_pcs s j") (auto split: lwpc.splits)
  then have "tsum lf_last_steps (lf_pcs s) \<le> (\<Sum>j\<in>UNIV. 7 * of_bool (lf_is_worker (lf_mem s) j))"
    unfolding tsum_def by (rule sum_mono)
  also have "\<dots> = 7 * card {j. lf_is_worker (lf_mem s) j}"
    by (simp add: sum_distrib_left[symmetric] of_bool_def sum.If_cases)
  also have "{j. lf_is_worker (lf_mem s) j} = Worker ` {w. unat w < unat n}"
    using assms(1) by (intro set_eqI, case_tac x) (auto simp: lf_winding_down_def)
  finally show ?thesis using assms(2) by (simp add: card_image inj_on_def card_words_below)
qed

text \<open>
  C17: \<open>lfthpool_shutdown\<close> terminates: once it has set the flag, its caller and the \<open>n\<close> workers
  make at most \<open>10 * n + 2\<close> more steps between them, whatever tasks, calls and pauses the other
  threads come up with meanwhile; and until it has returned, one of them can move, unless
  another thread has destroyed the pool.
\<close>

theorem lfthpool_shutdown_terminates:
  assumes "mpmc_queue Q ok items" and "reach (lf_init ok items) (lf_next Q) s" and "\<not> lf_deleted (lf_mem s)"
    and "lf_shutdown (lf_mem s) = 1" and "lf_pcs s i = LfShutdown (LH_Test d 0)"
    and "run (lf_next Q) es s = Some s'" and "list_all (lf_not_called i) es"
    and n: "n = lf_thread_count (lf_mem s)"
  shows "length (filter (lf_stop_step i n) es) \<le> 10 * unat n + 2 \<and>
    ((\<exists>r. lf_pcs s' i = LfReturned r) \<or> lf_deleted (lf_mem s') \<or>
      (\<exists>j. lf_takes_part i n j \<and> lf_next Q (LfStep j None) s' \<noteq> None))"
proof -
  have "lf_role_inv s" using lf_live[OF assms(1-3)] by (simp add: mpmc_queue.live_pool_inv_def[OF assms(1)])
  then have role: "lf_role_ok (lf_mem s) j (lf_pcs s j)" and small: "unat n \<le> 2 ^ 32" for j
    by (simp_all add: lf_role_inv_def n)
  have good: "lf_winding_down i n s"
    unfolding lf_winding_down_def
  proof (intro conjI allI)
    show "if lf_is_worker (lf_mem s) j then (\<exists>q. lf_pcs s j = LfWorker q) \<or> (\<exists>r. lf_pcs s j = LfReturned r)
        else \<forall>q. lf_pcs s j \<noteq> LfWorker q" for j
      using role[of j] by (auto simp: lf_role_ok_def split: if_splits)
  qed (use assms(4,5) n in simp_all)
  note fuel = lf_stops.run_fuel[OF good assms(7,6)]
  have "length (filter (lf_stop_step i n) es) \<le> 10 * unat n + 2"
    using fuel lf_workers_last_steps[OF good small] by (simp add: lf_stop_fuel_def assms(5))
  moreover have "\<exists>j. lf_takes_part i n j \<and> lf_next Q (LfStep j None) s' \<noteq> None"
    if busy: "\<And>r. lf_pcs s' i \<noteq> LfReturned r" and live: "\<not> lf_deleted (lf_mem s')"
  proof -
    have "mpmc_queue.live_pool_inv ok items s'"
      by (rule lf_live[OF assms(1) reach_run[OF assms(6,2)] live])
    then obtain j where j: "j = i \<or> lf_is_worker (lf_mem s') j" and "lf_next Q (LfStep j None) s' \<noteq> None"
      using busy by (rule mpmc_queue.lf_it_or_worker_moves[OF assms(1)])
    moreover have "lf_takes_part i n j" using j fuel by (cases j) (auto simp: lf_winding_down_def)
    ultimately show ?thesis by blast
  qed
  ultimately show ?thesis by blast
qed

theorem lfthpool_shutdown_terminates_witness:
  "\<exists>s'. run (lf_next ring_queue_ops) (LfStep (Worker 0) None # lf_steps (Client 0) 5) lf_state_stopping = Some s' \<and>
    lf_pcs s' (Client 0) = LfReturned RVoid \<and>
    length (filter (lf_stop_step (Client 0) 1) (LfStep (Worker 0) None # lf_steps (Client 0) 5)) \<le> 12"
proof -
  let ?es = "LfStep (Worker 0) None # lf_steps (Client 0) 5"
  obtain s' where s': "run (lf_next ring_queue_ops) ?es lf_state_stopping = Some s'"
    "lf_pcs s' (Client 0) = LfReturned RVoid"
    by (simp add: lf_state_stopping_def ring_items_def eval_lf)
  have p: "\<not> lf_deleted (lf_mem lf_state_stopping)" "lf_shutdown (lf_mem lf_state_stopping) = 1"
    "lf_pcs lf_state_stopping (Client 0) = LfShutdown (LH_Test True 0)"
    "1 = lf_thread_count (lf_mem lf_state_stopping)"
    by (simp_all add: lf_state_stopping_def eval_lf)
  have "list_all (lf_not_called (Client 0)) ?es" by simp
  from lfthpool_shutdown_terminates[OF ring_queue.mpmc_queue_axioms lf_small_pool_run[OF lf_run_stopping] p(1-3) s'(1) this p(4)]
    s' show ?thesis by fastforce
qed

section \<open>Waiting after a shutdown\<close>

text \<open>Nobody is left who takes tasks, and \<open>i\<close> waits.\<close>

fun lf_takes_tasks :: "lfpc \<Rightarrow> bool" where
  "lf_takes_tasks (LfWorker q) \<longleftrightarrow> True"
| "lf_takes_tasks (LfTryOnce q) \<longleftrightarrow> True"
| "lf_takes_tasks _ \<longleftrightarrow> False"

fun lf_spins :: "lfpc \<Rightarrow> bool" where
  "lf_spins (LfWait h) \<longleftrightarrow> h \<noteq> LE_Recheck"
| "lf_spins _ \<longleftrightarrow> False"

lemma lf_exec_takers:
  "lf_exec Q i v p m = Some (m', p') \<Longrightarrow> \<not> lf_takes_tasks p \<longrightarrow> \<not> lf_takes_tasks p'"
  by (erule lf_exec_points; erule lf_step_elims; auto simp: Some_map_option malloc_task_def split: lf_splits)

lemma lf_exec_spins:
  "lf_exec Q i v p m = Some (m', p') \<Longrightarrow> lf_spins p \<and> 0 < q_len Q (lf_task_queue m) \<longrightarrow> lf_spins p'"
  by (erule lf_exec_points; erule lf_step_elims; auto simp: Some_map_option split: lf_splits)

lemma lf_carrier_takes: "lf_carried p = {#a#} \<Longrightarrow> lf_takes_tasks p"
  by (cases p) auto

context counted_queue
begin

definition abandoned :: "tid \<Rightarrow> 'q lf_system \<Rightarrow> bool" where
  "abandoned i s \<longleftrightarrow> ok (lf_task_queue (lf_mem s)) \<and> items (lf_task_queue (lf_mem s)) \<noteq> [] \<and>
     (\<forall>j. \<not> lf_takes_tasks (lf_pcs s j)) \<and> lf_spins (lf_pcs s i)"

lemma lf_exec_keeps_queue:
  assumes e: "lf_exec Q j v p m = Some (m', p')" and "\<not> lf_takes_tasks p"
    and q: "ok (lf_task_queue m)" "items (lf_task_queue m) \<noteq> []"
  shows "ok (lf_task_queue m') \<and> items (lf_task_queue m') \<noteq> []"
proof (cases "p = LfShutdown LH_DeleteQueue")
  case True
  with e q show ?thesis by (auto simp: fold_free_task_sel)
next
  case False
  have "\<not> lf_takes_tasks p'" using lf_exec_takers[OF e] assms(2) by blast
  with lf_carrier_takes have no: "lf_carried p' \<noteq> {#a#}" for a by blast
  from lf_exec_effect[OF e] False have "lf_effect Q m p m' p'" by blast
  then show ?thesis
  proof cases
    case (put a q')
    with enqueue_ok[OF q(1), of a q'] show ?thesis by simp
  next
    case (put_fails a r q')
    with enqueue_fails[OF q(1), of a r q'] q show ?thesis by simp
  next
    case (get a q')
    with no show ?thesis by blast
  next
    case (get_fails q')
    with dequeue_none[OF q(1), of q'] q(2) show ?thesis by simp
  qed (use q in \<open>simp_all add: lf_run_task_def free_task_def\<close>)
qed

lemma abandoned_next:
  assumes good: "abandoned i s" and "\<not> lf_try_call e" and nx: "lf_next Q e s = Some s'"
  shows "abandoned i s'"
proof (cases e)
  case (LfStep j v)
  with nx obtain m p where e: "lf_exec Q j v (lf_pcs s j) (lf_mem s) = Some (m, p)"
    and s': "s' = \<lparr>lf_mem = m, lf_pcs = (lf_pcs s)(j := p)\<rparr>" by (auto simp only: lf_step_Some)
  have q: "ok (lf_task_queue (lf_mem s))" "items (lf_task_queue (lf_mem s)) \<noteq> []"
    and idle: "\<not> lf_takes_tasks (lf_pcs s j)" using good by (auto simp: abandoned_def)
  with lf_exec_keeps_queue[OF e idle q] lf_exec_takers[OF e] lf_exec_spins[OF e] some_len[OF q] good
  show ?thesis by (auto simp: abandoned_def s')
next
  case (LfCall c f)
  with nx obtain r where "lf_pcs s (Client c) = LfReturned r"
    and s': "s' = s\<lparr>lf_pcs := (lf_pcs s)(Client c := lf_entry f)\<rparr>" by (auto simp only: lf_call_Some)
  moreover have "\<not> lf_takes_tasks (lf_entry f)" using assms(2) LfCall by (cases f) auto
  ultimately show ?thesis using good by (auto simp: abandoned_def)
qed

end

sublocale counted_queue \<subseteq> stuck: frozen_observation "lf_next Q" "\<lambda>e. \<not> lf_try_call e" "abandoned i" "\<lambda>s. ()" for i
  by unfold_locales (auto intro: abandoned_next)

context counted_queue
begin

lemma wait_on_abandoned:
  assumes "reach (lf_init ok items) (lf_next Q) s" and "\<not> lf_deleted (lf_mem s)"
    and gone: "\<forall>w. lf_is_worker (lf_mem s) w \<longrightarrow> w \<in> lf_exited (lf_mem s)"
    and "items (lf_task_queue (lf_mem s)) \<noteq> []" and "\<forall>j p. lf_pcs s j \<noteq> LfTryOnce p"
    and "lf_pcs s i = LfWait LE_Active"
    and "run (lf_next Q) es s = Some s'" and "list_all (\<lambda>e. \<not> lf_try_call e) es"
  shows "\<exists>h. lf_pcs s' i = LfWait h"
proof -
  have inv: "own_inv s" "lf_role_inv s" using reach_live[OF assms(1,2)] by (simp_all add: live_pool_inv_def)
  then have role: "lf_role_ok (lf_mem s) j (lf_pcs s j)" for j by (simp add: lf_role_inv_def)
  have "lf_pcs s j \<noteq> LfWorker q" for j q using role[of j] gone by (auto simp: lf_role_ok_def split: if_splits)
  with assms(5) have "\<not> lf_takes_tasks (lf_pcs s j)" for j by (cases "lf_pcs s j") auto
  with inv assms(4,6) have "abandoned i s" by (simp add: abandoned_def own_inv_def)
  from stuck.run_frozen[OF this assms(8,7)] have "lf_spins (lf_pcs s' i)" by (simp add: abandoned_def)
  then show ?thesis by (cases "lf_pcs s' i") auto
qed

end

text \<open>
  C24: After a shutdown that left tasks in the queue, \<open>lfthpool_wait\<close> never returns, unless some
  client runs the tasks itself with \<open>lfthpool_worker_try_once\<close>: the workers are gone, and the
  loop waits for a queue that nobody empties. (Needed of the relaxed length: it is not reported
  as 0 while the queue holds tasks.)
\<close>

theorem lfthpool_wait_after_shutdown_hangs:
  assumes "counted_queue Q ok items" and "reach (lf_init ok items) (lf_next Q) s" and "\<not> lf_deleted (lf_mem s)"
    and "\<forall>w. lf_is_worker (lf_mem s) w \<longrightarrow> w \<in> lf_exited (lf_mem s)"
    and "items (lf_task_queue (lf_mem s)) \<noteq> []" and "\<forall>j p. lf_pcs s j \<noteq> LfTryOnce p"
    and "lf_pcs s i = LfWait LE_Active"
    and "run (lf_next Q) es s = Some s'" and "list_all (\<lambda>e. \<not> lf_try_call e) es"
  shows "\<exists>h. lf_pcs s' i = LfWait h"
  by (rule counted_queue.wait_on_abandoned[OF assms])

text \<open>A task is added, the pool is shut down before its worker looks at the queue, and the client waits.\<close>

definition lf_sched_abandoned :: "lf_event list" where
  "lf_sched_abandoned = LfCall 0 (LfCallAdd lf_task) # LfStep (Client 0) (Some 4096) # lf_steps (Client 0) 1 @
     LfCall 0 LfCallShutdown # lf_steps (Client 0) 1 @ lf_steps (Worker 0) 1 @ lf_steps (Client 0) 4 @
     [LfCall 0 LfCallWait]"

theorem lfthpool_wait_after_shutdown_hangs_witness:
  "\<exists>s s'. run (lf_next ring_queue_ops) lf_sched_abandoned lf_small_pool = Some s \<and>
    run (lf_next ring_queue_ops) (lf_steps (Client 0) 6) s = Some s' \<and> (\<exists>h. lf_pcs s' (Client 0) = LfWait h)"
proof -
  obtain s where s: "run (lf_next ring_queue_ops) lf_sched_abandoned lf_small_pool = Some s"
    and p: "\<not> lf_deleted (lf_mem s)" "lf_exited (lf_mem s) = {Worker 0}" "lf_thread_count (lf_mem s) = 1"
      "ring_pointers (lf_task_queue (lf_mem s)) \<noteq> []" "\<forall>j p. lf_pcs s j \<noteq> LfTryOnce p"
      "lf_pcs s (Client 0) = LfWait LE_Active"
    and next6: "\<exists>s'. run (lf_next ring_queue_ops) (lf_steps (Client 0) 6) s = Some s'"
    by (simp add: lf_sched_abandoned_def eval_lf ring_pointers_def ring_items_def)
  from next6 obtain s' where s': "run (lf_next ring_queue_ops) (lf_steps (Client 0) 6) s = Some s'" by blast
  have gone: "\<forall>w. lf_is_worker (lf_mem s) w \<longrightarrow> w \<in> lf_exited (lf_mem s)"
  proof (intro allI impI)
    fix w assume "lf_is_worker (lf_mem s) w"
    with p(2,3) show "w \<in> lf_exited (lf_mem s)" by (cases w) (auto simp: unat_eq_zero)
  qed
  have "list_all (\<lambda>e. \<not> lf_try_call e) (lf_steps (Client 0) 6)" by simp
  from lfthpool_wait_after_shutdown_hangs[OF ring_counted.counted_queue_axioms lf_small_pool_run[OF s] p(1) gone p(4-6) s' this]
    s s' show ?thesis by blast
qed

end
