(* ===== verification/LfthpoolTasks.thy ===== *)
theory LfthpoolTasks
  imports NestedCalls LfthpoolSpec
begin

text \<open>
  The lock-free pool with tasks that call its API. As for the locking pool every such run is
  a run of the pool; and a task that calls \<open>lfthpool_wait\<close> waits for itself, polling for ever.
\<close>

section \<open>The composed system\<close>

fun lf_event_thread :: "lf_event \<Rightarrow> tid option" where
  "lf_event_thread (LfStep i v) = Some i"
| "lf_event_thread (LfCall c f) = None"

fun lf_event_caller :: "lf_event \<Rightarrow> 32 word option" where
  "lf_event_caller (LfStep i v) = None"
| "lf_event_caller (LfCall c f) = Some c"

fun lf_from_task :: "lf_call \<Rightarrow> bool" where
  "lf_from_task LfCallShutdown \<longleftrightarrow> False"
| "lf_from_task LfCallDestroy \<longleftrightarrow> False"
| "lf_from_task _ \<longleftrightarrow> True"

text \<open>Line 248 and line 285: the thread is inside the code of a task.\<close>

fun lf_at_task :: "lfpc \<Rightarrow> bool" where
  "lf_at_task (LfWorker p) \<longleftrightarrow> (case p of LW_Run a \<Rightarrow> True | _ \<Rightarrow> False)"
| "lf_at_task (LfTryOnce p) \<longleftrightarrow> (case p of LT_Run a \<Rightarrow> True | _ \<Rightarrow> False)"
| "lf_at_task _ \<longleftrightarrow> False"

fun lf_is_returned :: "lfpc \<Rightarrow> bool" where
  "lf_is_returned (LfReturned r) \<longleftrightarrow> True"
| "lf_is_returned _ \<longleftrightarrow> False"

fun lf_in_wait :: "lfpc \<Rightarrow> bool" where
  "lf_in_wait (LfWait p) \<longleftrightarrow> True"
| "lf_in_wait _ \<longleftrightarrow> False"

definition lf_tasks :: "'q queue_ops \<Rightarrow> (lf_event, 'q lf_system, lf_call) callable" where
  "lf_tasks Q = \<lparr>comp_next = lf_next Q, comp_thread = lf_event_thread,
     comp_caller = lf_event_caller, comp_call = LfCall, comp_allowed = lf_from_task,
     comp_in_task = (\<lambda>s i. lf_at_task (lf_pcs s i)),
     comp_idle = (\<lambda>s c. lf_is_returned (lf_pcs s (Client c)))\<rparr>"

lemma lf_tasks_sel [simp]:
  "comp_next (lf_tasks Q) = lf_next Q" "comp_thread (lf_tasks Q) = lf_event_thread"
  "comp_caller (lf_tasks Q) = lf_event_caller" "comp_call (lf_tasks Q) = LfCall"
  "comp_allowed (lf_tasks Q) = lf_from_task" "comp_in_task (lf_tasks Q) s i = lf_at_task (lf_pcs s i)"
  "comp_idle (lf_tasks Q) s c = lf_is_returned (lf_pcs s (Client c))"
  by (simp_all add: lf_tasks_def)

section \<open>The laws\<close>

lemma lf_stays_at_task:
  assumes "lf_next Q e s = Some s'" and "lf_at_task (lf_pcs s i)" and "lf_event_thread e \<noteq> Some i"
  shows "lf_at_task (lf_pcs s' i)"
  using assms by (cases e) (auto simp: lf_step_Some lf_call_Some simp del: lf_next.simps)

lemma lf_at_task_running: "lf_at_task p \<Longrightarrow> lf_running p"
  by (cases p) (auto split: lwpc.splits ltpc.splits)

lemma lf_exec_in_wait:
  "lf_exec Q i v p m = Some (m', p') \<Longrightarrow> lf_in_wait p \<Longrightarrow> lf_active_tasks m \<noteq> 0 \<Longrightarrow> lf_in_wait p'"
  by (cases p) (auto simp: lf_resume_at_Some word_gt_0 elim!: lf_wait_stepE split: if_splits)

lemma lf_deleted_back: "lf_next Q e s = Some s' \<Longrightarrow> \<not> lf_deleted (lf_mem s') \<Longrightarrow> \<not> lf_deleted (lf_mem s)"
  by (cases e) (auto simp: lf_step_Some lf_call_Some dest: lf_deleted_stays simp del: lf_next.simps)

context mpmc_queue
begin

lemma lf_stays_in_wait:
  assumes inv: "lf_inv s" "\<not> lf_deleted (lf_mem s)" and t: "lf_at_task (lf_pcs s i)"
    and w: "lf_in_wait (lf_pcs s (Client c))" and n: "lf_next Q e s = Some s'"
  shows "lf_in_wait (lf_pcs s' (Client c))"
proof (cases e)
  case (LfStep j v)
  have "lf_running_inv s" using inv by (simp add: lf_inv_def live_pool_inv_def)
  from lf_running_card[OF this] lf_at_task_running[OF t]
  have "lf_active_tasks (lf_mem s) \<noteq> 0" by auto
  then have "lf_in_wait p" if "lf_exec Q (Client c) v (lf_pcs s (Client c)) (lf_mem s) = Some (m, p)" for m p
    using lf_exec_in_wait[OF that w] by blast
  with LfStep n w show ?thesis by (auto simp: lf_step_Some simp del: lf_next.simps)
next
  case (LfCall d f)
  with n w show ?thesis by (auto simp: lf_call_Some simp del: lf_next.simps)
qed

end

sublocale mpmc_queue \<subseteq> lf_waiting: hanging_call "lf_tasks Q" lf_inv "\<lambda>s. \<not> lf_deleted (lf_mem s)"
  "\<lambda>s c. lf_in_wait (lf_pcs s (Client c))"
proof
  fix c f e s s' i
  show "comp_thread (lf_tasks Q) (comp_call (lf_tasks Q) c f) = None" by simp
  show "comp_next (lf_tasks Q) e s = Some s' \<Longrightarrow> comp_in_task (lf_tasks Q) s i \<Longrightarrow>
      comp_thread (lf_tasks Q) e \<noteq> Some i \<Longrightarrow> comp_in_task (lf_tasks Q) s' i"
    using lf_stays_at_task by simp
  show "lf_inv s \<Longrightarrow> comp_next (lf_tasks Q) e s = Some s' \<Longrightarrow> lf_inv s'"
    using lf_inv_next by simp
  show "comp_next (lf_tasks Q) e s = Some s' \<Longrightarrow> \<not> lf_deleted (lf_mem s') \<Longrightarrow> \<not> lf_deleted (lf_mem s)"
    using lf_deleted_back by simp
  show "lf_inv s \<Longrightarrow> \<not> lf_deleted (lf_mem s) \<Longrightarrow> comp_in_task (lf_tasks Q) s i \<Longrightarrow>
      lf_in_wait (lf_pcs s (Client c)) \<Longrightarrow> comp_next (lf_tasks Q) e s = Some s' \<Longrightarrow>
      lf_in_wait (lf_pcs s' (Client c))"
    using lf_stays_in_wait by simp
  show "lf_in_wait (lf_pcs s (Client c)) \<Longrightarrow> \<not> comp_idle (lf_tasks Q) s c"
    by (cases "lf_pcs s (Client c)") auto
qed

context mpmc_queue
begin

lemma lf_task_hangs:
  assumes r: "reach (nested_init (lf_init ok items)) (nested_next (lf_tasks Q)) n"
    and i: "inner n i = Some c" "lf_in_wait (lf_pcs (base n) (Client c))"
    and run: "run (nested_next (lf_tasks Q)) es n = Some n'" "\<not> lf_deleted (lf_mem (base n'))"
  shows "inner n' i = Some c \<and> lf_in_wait (lf_pcs (base n') (Client c)) \<and> lf_at_task (lf_pcs (base n') i)"
proof -
  have "lf_inv (base n)" using lf.reach_inv nested_reach_base[OF r] by simp
  with i lf_waiting.nested.reach_inv[OF r] have "lf_waiting.waits i c n"
    by (simp add: lf_waiting.waits_def)
  from lf_waiting.waits_run[OF this run] have "lf_waiting.waits i c n'" .
  with lf_waiting.waits_in_task[OF this] show ?thesis by (simp add: lf_waiting.waits_def)
qed

lemma lf_tasks_refine:
  assumes r: "reach (nested_init (lf_init ok items)) (nested_next (lf_tasks Q)) n"
    and n: "nested_next (lf_tasks Q) e n = Some n'" and a: "\<not> lf_deleted (lf_mem (base n'))"
  shows "open_pool_does (lf_task_pool_of items (base n)) (lf_task_pool_of items (base n'))"
proof -
  have inv: "lf_inv (base n)" using lf.reach_inv nested_reach_base[OF r] by simp
  consider "base n' = base n" | e' where "lf_next Q e' (base n) = Some (base n')"
    using nested_step_base[OF n] by auto
  then show ?thesis
  proof cases
    case 1
    then show ?thesis unfolding open_pool_does_def by (metis pool_does.idle)
  qed (rule lf_next_refines[OF inv _ a])
qed

end

section \<open>Properties\<close>

text \<open>
  A task of the lock-free pool that calls \<open>lfthpool_wait\<close> never gets the call back: it is
  counted in \<open>running_count\<close> itself, and the call polls until that is zero. This lasts until
  \<open>lfthpool_destroy\<close> deletes the queue under it.
\<close>

theorem lfthpool_wait_in_task_hangs:
  assumes "mpmc_queue Q ok items"
    and "reach (nested_init (lf_init ok items)) (nested_next (lf_tasks Q)) n"
    and "inner n i = Some c" and "lf_in_wait (lf_pcs (base n) (Client c))"
    and "run (nested_next (lf_tasks Q)) es n = Some n'" and "\<not> lf_deleted (lf_mem (base n'))"
  shows "inner n' i = Some c \<and> lf_in_wait (lf_pcs (base n') (Client c)) \<and>
    lf_at_task (lf_pcs (base n') i)"
  by (rule mpmc_queue.lf_task_hangs[OF assms])

text \<open>
  The steps of a lock-free pool whose tasks call it are steps of the abstract task pool.
\<close>

theorem lfthpool_tasks_refine:
  assumes "mpmc_queue Q ok items"
    and "reach (nested_init (lf_init ok items)) (nested_next (lf_tasks Q)) n"
    and "nested_next (lf_tasks Q) e n = Some n'" and "\<not> lf_deleted (lf_mem (base n'))"
  shows "open_pool_does (lf_task_pool_of items (base n)) (lf_task_pool_of items (base n'))"
  by (rule mpmc_queue.lf_tasks_refine[OF assms])

text \<open>The worker of the small pool takes a task, runs it, and the task calls \<open>f\<close>.\<close>

definition lf_nested_pool :: "ring lf_system nested" where
  "lf_nested_pool = \<lparr>base = lf_small_pool, inner = (\<lambda>_. None)\<rparr>"

definition lf_sched_task_calls :: "lf_call \<Rightarrow> (lf_event, lf_call) nested_event list" where
  "lf_sched_task_calls f = map Plain (lf_sched_taken @ lf_steps (Worker 0) 1) @ [TaskCalls (Worker 0) 5 f]"

lemma lf_nested_reach:
  "run (nested_next (lf_tasks ring_queue_ops)) es lf_nested_pool = Some n \<Longrightarrow>
    reach (nested_init (lf_init ring_ok ring_pointers)) (nested_next (lf_tasks ring_queue_ops)) n"
proof (erule reach_run)
  show "reach (nested_init (lf_init ring_ok ring_pointers)) (nested_next (lf_tasks ring_queue_ops)) lf_nested_pool"
    using reach_init[of "lf_init ring_ok ring_pointers" lf_small_pool] lf_small_pool_init
    by (intro reach_init) (simp add: nested_init_def lf_nested_pool_def)
qed

lemmas eval_lf_nested = lf_nested_pool_def lf_sched_task_calls_def lf_sched_taken_def may_step_def
  stands_in_def eval_lf

theorem lfthpool_wait_in_task_hangs_witness:
  "\<exists>n n'. run (nested_next (lf_tasks ring_queue_ops)) (lf_sched_task_calls LfCallWait) lf_nested_pool = Some n \<and>
     run (nested_next (lf_tasks ring_queue_ops)) (map Plain (lf_steps (Client 5) 4)) n = Some n' \<and>
     lf_at_task (lf_pcs (base n') (Worker 0))"
proof -
  let ?next = "nested_next (lf_tasks ring_queue_ops)"
  obtain n n' where r: "run ?next (lf_sched_task_calls LfCallWait) lf_nested_pool = Some n"
    and r': "run ?next (map Plain (lf_steps (Client 5) 4)) n = Some n'"
    and w: "inner n (Worker 0) = Some 5" "lf_in_wait (lf_pcs (base n) (Client 5))"
    and a: "\<not> lf_deleted (lf_mem (base n'))"
    by (simp add: eval_lf_nested)
  from lfthpool_wait_in_task_hangs[OF ring_queue.mpmc_queue_axioms lf_nested_reach[OF r] w r' a] r r'
  show ?thesis by blast
qed

theorem lfthpool_tasks_refine_witness:
  "\<exists>n n'. run (nested_next (lf_tasks ring_queue_ops)) (lf_sched_task_calls (LfCallAdd lf_task)) lf_nested_pool = Some n \<and>
     nested_next (lf_tasks ring_queue_ops) (Plain (LfStep (Client 5) (Some 8192))) n = Some n' \<and>
     open_pool_does (lf_task_pool_of ring_pointers (base n)) (lf_task_pool_of ring_pointers (base n'))"
proof -
  let ?next = "nested_next (lf_tasks ring_queue_ops)"
  obtain n n' where r: "run ?next (lf_sched_task_calls (LfCallAdd lf_task)) lf_nested_pool = Some n"
    and n: "?next (Plain (LfStep (Client 5) (Some 8192))) n = Some n'"
    and a: "\<not> lf_deleted (lf_mem (base n'))"
    by (simp add: eval_lf_nested)
  from lfthpool_tasks_refine[OF ring_queue.mpmc_queue_axioms lf_nested_reach[OF r] n a] r n
  show ?thesis by blast
qed

end
