(* ===== verification/LfthpoolTests.thy ===== *)
theory LfthpoolTests
  imports LfthpoolProps ClientProgram
begin

text \<open>
  The test programs of the lock-free pool under \<open>src/threads/test/lfthpool\<close> that have one
  client thread, as programs of \<open>ClientProgram\<close>. Because \<open>lfthpool_wait\<close> can return early and
  a pause does not stop a worker that has just tested for it, what they assert depends on the
  schedule.
\<close>

section \<open>The pool as a service\<close>

fun lf_is_call :: "lf_event \<Rightarrow> bool" where
  "lf_is_call (LfCall c f) \<longleftrightarrow> True"
| "lf_is_call (LfStep i v) \<longleftrightarrow> False"

fun lf_returned_value :: "lfpc \<Rightarrow> ret option" where
  "lf_returned_value (LfReturned r) = Some r"
| "lf_returned_value _ = None"

definition lf_service :: "'q queue_ops \<Rightarrow> (lf_event, 'q lf_system, lf_call) service" where
  "lf_service Q = \<lparr>svc_next = lf_next Q, svc_call = LfCall, svc_is_call = lf_is_call,
     svc_result = (\<lambda>s c. lf_returned_value (lf_pcs s (Client c))),
     svc_count = (\<lambda>s. length (lf_finished (lf_mem s)))\<rparr>"

section \<open>The tests\<close>

text \<open>\<open>CTEST(lfthpool_api, test)\<close>, first pool (created with 10 and 10) and second pool (5 and 5).\<close>

definition lf_api_first :: "task_t \<Rightarrow> lf_call client_op list" where
  "lf_api_first sleep_job = [Do (LfCallAdd sleep_job), Do (LfCallAdd sleep_job),
     Do (LfCallAdd sleep_job), Do (LfCallAdd sleep_job),
     Do LfCallWait, Nap, Nap, Do LfCallWait,
     Expect LfCallActive (result_is_u 0 ''lfthpool_api.c'' 39),
     Expect LfCallTotal (result_is_u 0 ''lfthpool_api.c'' 40),
     Read (count_is 4 ''lfthpool_api.c'' 41 None),
     Do LfCallDestroy]"

definition lf_api_second :: "task_t \<Rightarrow> lf_call client_op list" where
  "lf_api_second sleep_job = [Do (LfCallAdd sleep_job), Do (LfCallAdd sleep_job),
     Do LfCallWait, Nap, Nap, Do LfCallWait,
     Expect LfCallActive (result_is_u 0 ''lfthpool_api.c'' 56),
     Expect LfCallTotal (result_is_u 0 ''lfthpool_api.c'' 57),
     Read (count_is 2 ''lfthpool_api.c'' 58 None),
     Do LfCallDestroy]"

text \<open>\<open>CTEST(lfthpool_no_work, test)\<close>, created with 8 and 4\<close>

definition lf_no_work :: "lf_call client_op list" where
  "lf_no_work = [Do LfCallDestroy]"

text \<open>\<open>CTEST(lfthpool_pause_resume, test)\<close>, with \<open>jobs = 2\<close>, created with 4 and 2\<close>

definition lf_pause_resume :: "task_t \<Rightarrow> lf_call client_op list" where
  "lf_pause_resume increment = [Do LfCallPause, Nap, Do (LfCallAdd increment), Do (LfCallAdd increment), Nap,
     Read (count_is 0 ''lfthpool_pause_resume.c'' 33 (Some ''lfthpool_pause not work'')),
     Do LfCallResume, Do LfCallWait, Nap, Nap,
     Read (count_is 2 ''lfthpool_pause_resume.c'' 42 (Some ''lfthpool_resume not work'')),
     Do LfCallDestroy]"

text \<open>\<open>CTEST(lfthpool_worker, try_once)\<close>, with \<open>jobs = 2\<close>, created with 4 and 2\<close>

definition lf_worker_try_once :: "task_t \<Rightarrow> lf_call client_op list" where
  "lf_worker_try_once increment = [Do LfCallPause, Nap, Do (LfCallAdd increment), Do (LfCallAdd increment), Nap,
     Read (count_is 0 ''lfthpool_worker_try_once.c'' 32 (Some ''lfthpool_pause not work'')),
     Expect LfCallTryOnce (result_is 0 ''lfthpool_worker_try_once.c'' 35
       ''lfthpool_worker_try_once can't process task''),
     Expect LfCallTryOnce (result_is 0 ''lfthpool_worker_try_once.c'' 35
       ''lfthpool_worker_try_once can't process task''),
     Do LfCallWait,
     Expect LfCallTryOnce (result_is (- 1) ''lfthpool_worker_try_once.c'' 40
       ''lfthpool_worker_try_once proccess task, it's error''),
     Read (count_is 2 ''lfthpool_worker_try_once.c'' 42 (Some ''lfthpool_resume not work'')),
     Do LfCallDestroy]"

text \<open>The pools of the tests, with rings of the next power of 2, and a program to run.\<close>

definition lf_run_start :: "size_t \<Rightarrow> nat \<Rightarrow> lf_call client_op list \<Rightarrow> (ring lf_system, lf_call) client_run" where
  "lf_run_start workers room prog = \<lparr>pool_sys = lf_new_system workers (ring_new (replicate room lf_task) (of_nat room)),
     todo = prog, doing = None, verdict = None\<rparr>"

lemma lf_run_start_init:
  assumes "0 < workers" and "unat workers \<le> 2 ^ 32" and "0 < room" and "room < 2 ^ 32"
  shows "client_start (lf_init ring_ok ring_pointers) prog (lf_run_start workers room prog)"
proof -
  have "ring_ok (ring_new (replicate room lf_task) (of_nat room))"
    using assms(3,4) by (intro ring_new_ok) (auto simp: unsigned_of_nat take_bit_nat_eq_self word_of_nat_eq_0_iff dest: dvd_imp_le)
  with assms(1,2) show ?thesis
    unfolding client_start_def lf_init_def lf_run_start_def
    by (intro conjI exI[of _ workers] exI[of _ "ring_new (replicate room lf_task) (of_nat room)"])
      (simp_all add: ring_pointers_def)
qed

text \<open>
  Two workers take the two tasks; the second is stopped before it increments
  \<open>running_count\<close>, the first runs its task to the end; then the test goes on.
\<close>

definition lf_client_call :: "nat \<Rightarrow> lf_event client_event list" where
  "lf_client_call k = Proceed # map Other (lf_steps (Client 0) k) @ [Proceed]"

definition lf_client_add :: "addr \<Rightarrow> lf_event client_event list" where
  "lf_client_add p = [Proceed, Other (LfStep (Client 0) (Some p)), Other (LfStep (Client 0) None), Proceed]"

definition lf_sched_fail :: "lf_event client_event list" where
  "lf_sched_fail = lf_client_add 4096 @ lf_client_add 8192 @
     map Other (lf_steps (Worker 0) 3 @ lf_steps (Worker 1) 3 @ lf_steps (Worker 0) 4) @
     lf_client_call 3 @ [Proceed, Proceed] @ lf_client_call 3 @
     lf_client_call 1 @ lf_client_call 2 @ [Proceed]"

lemmas eval_lf_test = lf_run_start_def lf_api_second_def lf_service_def lf_client_call_def
  lf_client_add_def lf_sched_fail_def start_call_def result_is_u_def assert_equal_u_def eval_lf

lemma lf_second_run:
  "\<exists>s. run (client_next (lf_service ring_queue_ops)) lf_sched_fail (lf_run_start 5 8 (lf_api_second job)) = Some s \<and>
    verdict s = count_is 2 ''lfthpool_api.c'' 58 None 1"
  by (simp add: eval_lf_test fun_upd_twist)

text \<open>
  A worker finds the pool not paused; before it looks at the queue the test pauses the pool
  and adds the tasks; the worker takes the first of them and runs it.
\<close>

definition lf_sched_paused :: "lf_event client_event list" where
  "lf_sched_paused = map Other (lf_steps (Worker 0) 2) @ lf_client_call 1 @ [Proceed] @
     lf_client_add 4096 @ lf_client_add 8192 @ map Other (lf_steps (Worker 0) 3) @ [Proceed, Proceed]"

lemma lf_paused_run:
  "\<exists>s. run (client_next (lf_service ring_queue_ops)) lf_sched_paused
      (lf_run_start 4 2 ([Do LfCallPause, Nap, Do (LfCallAdd job), Do (LfCallAdd job), Nap, Read chk] @ rest)) = Some s \<and>
    verdict s = chk 1"
  by (simp add: lf_sched_paused_def eval_lf_test fun_upd_twist)

text \<open>In the first half of the API test, one worker of four is stopped before it counts itself.\<close>

definition lf_sched_first :: "lf_event client_event list" where
  "lf_sched_first = concat (map lf_client_add [4096, 8192, 12288, 16384]) @
     map Other (concat (map (\<lambda>w. lf_steps (Worker w) 3) [0, 1, 2, 3]) @
       concat (map (\<lambda>w. lf_steps (Worker w) 4) [0, 1, 2])) @
     lf_client_call 3 @ [Proceed, Proceed] @ lf_client_call 3 @
     lf_client_call 1 @ lf_client_call 2 @ [Proceed]"

lemma lf_first_run:
  "\<exists>s. run (client_next (lf_service ring_queue_ops)) lf_sched_first (lf_run_start 10 16 (lf_api_first job)) = Some s \<and>
    verdict s = count_is 4 ''lfthpool_api.c'' 41 None 3"
  by (simp add: lf_sched_first_def lf_api_first_def eval_lf_test fun_upd_twist)

text \<open>What a failing test reports, with the pool it runs on.\<close>

definition lf_failing_tests :: "task_t \<Rightarrow> (size_t \<times> nat \<times> lf_call client_op list \<times> string) list" where
  "lf_failing_tests job =
     [(10, 16, lf_api_first job, ''lfthpool_api.c:41  expected 4, got 3''),
      (5, 8, lf_api_second job, ''lfthpool_api.c:58  expected 2, got 1''),
      (4, 2, lf_pause_resume job, ''lfthpool_pause_resume.c:33  expected 0, got 1: lfthpool_pause not work''),
      (4, 2, lf_worker_try_once job, ''lfthpool_worker_try_once.c:32  expected 0, got 1: lfthpool_pause not work'')]"

definition lf_can_report :: "size_t \<Rightarrow> nat \<Rightarrow> lf_call client_op list \<Rightarrow> string \<Rightarrow> bool" where
  "lf_can_report workers room prog msg \<longleftrightarrow>
     client_start (lf_init ring_ok ring_pointers) prog (lf_run_start workers room prog) \<and>
     (\<exists>es s. run (client_next (lf_service ring_queue_ops)) es (lf_run_start workers room prog) = Some s \<and>
       verdict s = Some msg)"

lemma lf_reports:
  assumes "run (client_next (lf_service ring_queue_ops)) es (lf_run_start workers room prog) = Some s"
    and "verdict s = Some msg" and "0 < workers" "unat workers \<le> 2 ^ 32" "0 < room" "room < 2 ^ 32"
  shows "lf_can_report workers room prog msg"
  unfolding lf_can_report_def using assms lf_run_start_init[OF assms(3-6)] by blast

lemma lf_paused_reports:
  assumes "chk 1 = Some msg"
    and "take 6 prog = [Do LfCallPause, Nap, Do (LfCallAdd job), Do (LfCallAdd job), Nap, Read chk]"
  shows "lf_can_report 4 2 prog msg"
proof -
  obtain s where "run (client_next (lf_service ring_queue_ops)) lf_sched_paused (lf_run_start 4 2 prog) = Some s"
    and "verdict s = chk 1"
    using lf_paused_run[of job chk "drop 6 prog"] unfolding assms(2)[symmetric] append_take_drop_id by blast
  with assms(1) show ?thesis by (intro lf_reports) simp_all
qed


end
