(* ===== verification/LfthpoolPause.thy ===== *)
theory LfthpoolPause
  imports LfthpoolTests
begin

text \<open>
  What a pause of the lock-free pool guarantees: the workers that have just found the pool not
  paused take one more task each.
\<close>

section \<open>What a pause keeps\<close>

text \<open>Only these look at the queue of a paused pool, or end the pause.\<close>

fun lf_overrides_pause :: "lfpc \<Rightarrow> bool" where
  "lf_overrides_pause p \<longleftrightarrow> p = LfMisc LM_Resume \<or> p = LfTryOnce LT_Dequeue"

fun lf_keeps_pause :: "lf_event \<Rightarrow> bool" where
  "lf_keeps_pause (LfCall c f) \<longleftrightarrow> f \<noteq> LfCallResume \<and> f \<noteq> LfCallTryOnce"
| "lf_keeps_pause (LfStep i v) \<longleftrightarrow> True"

definition lf_paused :: "'q lf_system \<Rightarrow> bool" where
  "lf_paused s \<longleftrightarrow> lf_hold (lf_mem s) \<noteq> 0 \<and> (\<forall>j. \<not> lf_overrides_pause (lf_pcs s j))"

text \<open>The tasks taken, and the workers that have just found the pool not paused.\<close>

definition lf_takable :: "'q lf_system \<Rightarrow> nat" where
  "lf_takable s = length (lf_taken (lf_mem s)) + tsum (\<lambda>p. of_bool (p = LfWorker LW_Dequeue)) (lf_pcs s)"

lemma lf_exec_paused:
  assumes "lf_exec Q i v p m = Some (m', p')" and "lf_hold m \<noteq> 0" and "\<not> lf_overrides_pause p"
  shows "lf_hold m' \<noteq> 0 \<and> \<not> lf_overrides_pause p' \<and>
    length (lf_taken m') + of_bool (p' = LfWorker LW_Dequeue) \<le> length (lf_taken m) + of_bool (p = LfWorker LW_Dequeue)"
  using assms
  by (cases p) (auto simp: lf_resume_at_Some lf_dequeue_def fold_free_task_sel step_defs
    elim!: lf_worker_stepE lf_try_once_stepE lf_add_task_stepE lf_add_try_stepE lf_misc_stepE lf_wait_stepE lf_shutdown_stepE
    split: if_splits option.splits prod.splits qerr.splits)

interpretation pausing: draining_steps "lf_next Q" lf_keeps_pause "\<lambda>e. False" lf_paused lf_takable
proof -
  have keeps: "lf_paused s' \<and> lf_takable s' \<le> lf_takable s"
    if paused: "lf_paused s" and e: "lf_keeps_pause e" and n: "lf_next Q e s = Some s'" for Q :: "'q queue_ops" and s e s'
  proof (cases e)
    case (LfStep i v)
    with n obtain m p where x: "lf_exec Q i v (lf_pcs s i) (lf_mem s) = Some (m, p)"
      and s': "s' = \<lparr>lf_mem = m, lf_pcs = (lf_pcs s)(i := p)\<rparr>" by (auto simp only: lf_step_Some)
    have "lf_hold m \<noteq> 0 \<and> \<not> lf_overrides_pause p \<and> length (lf_taken m) + of_bool (p = LfWorker LW_Dequeue)
        \<le> length (lf_taken (lf_mem s)) + of_bool (lf_pcs s i = LfWorker LW_Dequeue)"
      using paused by (intro lf_exec_paused[OF x]) (simp_all add: lf_paused_def)
    moreover have "tsum (\<lambda>p. of_bool (p = LfWorker LW_Dequeue)) ((lf_pcs s)(i := p)) + of_bool (lf_pcs s i = LfWorker LW_Dequeue) =
        tsum (\<lambda>p. of_bool (p = LfWorker LW_Dequeue) :: nat) (lf_pcs s) + of_bool (p = LfWorker LW_Dequeue)"
      by (rule tsum_upd)
    ultimately show ?thesis using paused by (simp add: lf_paused_def lf_takable_def s')
  next
    case (LfCall c f)
    with n obtain r where r: "lf_pcs s (Client c) = LfReturned r"
      and s': "s' = s\<lparr>lf_pcs := (lf_pcs s)(Client c := lf_entry f)\<rparr>" by (auto simp only: lf_call_Some)
    have f: "lf_entry f \<noteq> LfWorker LW_Dequeue" "\<not> lf_overrides_pause (lf_entry f)"
      using e by (cases f; simp add: LfCall)+
    then have "tsum (\<lambda>p. of_bool (p = LfWorker LW_Dequeue) :: nat) ((lf_pcs s)(Client c := lf_entry f)) =
        tsum (\<lambda>p. of_bool (p = LfWorker LW_Dequeue)) (lf_pcs s)"
      by (intro tsum_upd_eq) (simp add: r)
    with f(2) paused show ?thesis by (simp add: lf_paused_def lf_takable_def s')
  qed
  then show "draining_steps (lf_next Q) lf_keeps_pause (\<lambda>e. False) lf_paused lf_takable" for Q :: "'q queue_ops"
    by unfold_locales blast+
qed

text \<open>
  C22: What \<open>lfthpool_pause\<close> guarantees: as long as nobody resumes the pool or takes a task with
  \<open>lfthpool_worker_try_once\<close>, no more tasks leave the queue than there are workers which had
  just found the pool not paused when the flag was set, one for each; after that, none. So
  tasks added during the pause can run.
\<close>

theorem lfthpool_pause_window:
  assumes "lf_hold (lf_mem s) \<noteq> 0" and "\<forall>j. \<not> lf_overrides_pause (lf_pcs s j)"
    and "run (lf_next Q) es s = Some s'" and "list_all lf_keeps_pause es"
  shows "length (lf_taken (lf_mem s')) \<le> length (lf_taken (lf_mem s)) + card {j. lf_pcs s j = LfWorker LW_Dequeue} \<and>
    lf_hold (lf_mem s') \<noteq> 0"
proof -
  have "lf_paused s" using assms(1,2) by (simp add: lf_paused_def)
  from pausing.run_drains[OF this assms(4,3)] show ?thesis
    by (simp add: lf_paused_def lf_takable_def tsum_of_bool)
qed

text \<open>One worker of four is past the test; it takes a task added after the pause.\<close>

theorem lfthpool_pause_window_witness:
  "\<exists>s s'. reach (lf_init ring_ok ring_pointers) (lf_next ring_queue_ops) s \<and> lf_taken (lf_mem s) = [] \<and>
    card {j. lf_pcs s j = LfWorker LW_Dequeue} = 1 \<and>
    run (lf_next ring_queue_ops) [LfCall 0 (LfCallAdd lf_task), LfStep (Client 0) (Some 4096), LfStep (Client 0) None,
      LfStep (Worker 0) None, LfStep (Worker 1) None, LfStep (Worker 1) None] s = Some s' \<and>
    length (lf_taken (lf_mem s')) = 1"
proof -
  let ?pool = "lf_new_system 4 (ring_new (replicate 2 lf_task) 2) :: ring lf_system"
  have r: "reach (lf_init ring_ok ring_pointers) (lf_next ring_queue_ops) ?pool"
    using lf_run_start_init[of 4 2 "[]"]
    by (intro reach.reach_init) (simp add: client_start_def lf_run_start_def)
  obtain s where s: "run (lf_next ring_queue_ops) (lf_steps (Worker 0) 2 @ [LfCall 0 LfCallPause, LfStep (Client 0) None]) ?pool = Some s"
    and hold: "lf_hold (lf_mem s) \<noteq> 0" and none: "lf_taken (lf_mem s) = []"
    and pcs: "lf_pcs s = (\<lambda>i. if i = Worker 0 then LfWorker LW_Dequeue
      else if lf_is_worker (lf_mem ?pool) i then LfWorker LW_Shutdown else LfReturned RVoid)"
    and nx: "\<exists>s'. run (lf_next ring_queue_ops) [LfCall 0 (LfCallAdd lf_task), LfStep (Client 0) (Some 4096),
      LfStep (Client 0) None, LfStep (Worker 0) None, LfStep (Worker 1) None, LfStep (Worker 1) None] s = Some s' \<and>
      0 < length (lf_taken (lf_mem s'))"
    by (simp add: eval_lf fun_eq_iff)
  from nx obtain s' where s': "run (lf_next ring_queue_ops) [LfCall 0 (LfCallAdd lf_task), LfStep (Client 0) (Some 4096),
      LfStep (Client 0) None, LfStep (Worker 0) None, LfStep (Worker 1) None, LfStep (Worker 1) None] s = Some s'"
    and taken: "0 < length (lf_taken (lf_mem s'))" by blast
  have one: "{j. lf_pcs s j = LfWorker LW_Dequeue} = {Worker 0}" by (auto simp: pcs)
  have "\<forall>j. \<not> lf_overrides_pause (lf_pcs s j)" by (simp add: pcs)
  from lfthpool_pause_window[OF hold this s'] none taken have "length (lf_taken (lf_mem s')) = 1"
    unfolding one by (simp add: Suc_leI le_antisym)
  with none s' one reach_run[OF s r] show ?thesis by (intro exI[of _ s] exI[of _ s']) simp
qed

end
