(* ===== verification/Usem.thy ===== *)
theory Usem
  imports Prelude
begin

text \<open>
  The semaphore wrapper of \<open>include/threads/usem.h\<close>, in its POSIX and its macOS form. What
  the wrapped system calls return is given by an outcome function: the return value and the
  \<open>errno\<close> of the first call, the second, and so on.
\<close>

section \<open>Creation\<close>

text \<open>
  \<open>sem_init\<close> rejects a value above the maximum with \<open>EINVAL\<close>; \<open>usem_init\<close> and \<open>usem_destroy\<close>
  pass on what the system returns.
\<close>

definition sem_init :: "nat \<Rightarrow> errno + nat" where
  "sem_init n = (if SEM_VALUE_MAX < n then Inl EINVAL else Inr n)"

definition usem_init :: "32 word \<Rightarrow> errno + nat" where
  "usem_init initial_count = sem_init (unat initial_count)"

definition usem_destroy :: "int \<Rightarrow> int" where
  "usem_destroy sem_destroy_rc = sem_destroy_rc"

section \<open>Waiting\<close>

type_synonym outcomes = "nat \<Rightarrow> int \<times> errno"

definition interrupted :: "int \<times> errno \<Rightarrow> bool" where
  "interrupted r \<longleftrightarrow> fst r = -1 \<and> snd r = EINTR"

text \<open>
  The loop \<open>do rc = ... while (rc == -1 && errno == EINTR)\<close> of lines 95, 103 and 127; the
  result has the number of calls made. It does not return while calls are interrupted.
\<close>

partial_function (option) retry :: "outcomes \<Rightarrow> nat \<Rightarrow> ((int \<times> errno) \<times> nat) option" where
  "retry out k = (if interrupted (out k) then retry out (k + 1) else Some (out k, k + 1))"

definition usem_wait :: "outcomes \<Rightarrow> ((int \<times> errno) \<times> nat) option" where
  "usem_wait sem_wait = retry sem_wait 0"

definition usem_try_wait :: "outcomes \<Rightarrow> ((int \<times> errno) \<times> nat) option" where
  "usem_try_wait sem_trywait = retry sem_trywait 0"

text \<open>The absolute deadline of lines 115 to 125, from the clock and the timeout.\<close>

record timespec =
  tv_sec :: int
  tv_nsec :: int

definition deadline :: "timespec \<Rightarrow> 64 word \<Rightarrow> timespec" where
  "deadline now timeout_usecs =
     (let sec = ssize (tv_sec now + ssize (uint (timeout_usecs div 1000000)));
        nsec = ssize (tv_nsec now + ssize (ssize (uint (timeout_usecs mod 1000000)) * 1000))
      in if 1000000000 \<le> nsec
         then \<lparr>tv_sec = ssize (sec + 1), tv_nsec = ssize (nsec - 1000000000)\<rparr>
         else \<lparr>tv_sec = sec, tv_nsec = nsec\<rparr>)"

definition usem_timed_wait :: "timespec \<Rightarrow> (timespec \<Rightarrow> outcomes) \<Rightarrow> 64 word \<Rightarrow> ((int \<times> errno) \<times> nat) option" where
  "usem_timed_wait now sem_timedwait timeout_usecs = retry (sem_timedwait (deadline now timeout_usecs)) 0"

section \<open>Signalling\<close>

text \<open>
  \<open>sem_post\<close> adds one, or fails with \<open>EOVERFLOW\<close> at the maximum. The loops of lines 134 and
  138 repeat a failed post; here nobody else touches the semaphore, and \<open>None\<close> is a loop
  that never ends.
\<close>

definition sem_post :: "nat \<Rightarrow> nat option" where
  "sem_post v = (if v < SEM_VALUE_MAX then Some (v + 1) else None)"

partial_function (option) usem_signal :: "nat \<Rightarrow> nat option" where
  "usem_signal v = (case sem_post v of None \<Rightarrow> usem_signal v | Some v' \<Rightarrow> Some v')"

text \<open>The loop counter runs from \<open>count\<close> down; a count of zero or less posts nothing.\<close>

fun usem_signal_times :: "nat \<Rightarrow> nat \<Rightarrow> nat option" where
  "usem_signal_times 0 v = Some v"
| "usem_signal_times (Suc n) v = (case usem_signal v of None \<Rightarrow> None | Some v' \<Rightarrow> usem_signal_times n v')"

definition usem_signal_count :: "int \<Rightarrow> nat \<Rightarrow> nat option" where
  "usem_signal_count n v = usem_signal_times (nat n) v"

section \<open>The macOS form\<close>

text \<open>Line 44 computes the nanoseconds in 64 bits; line 65 takes an \<open>int\<close> count.\<close>

definition mac_timeout_nsecs :: "64 word \<Rightarrow> 64 word" where
  "mac_timeout_nsecs timeout_usecs = timeout_usecs * 1000"

definition mac_signal_count :: "int \<Rightarrow> nat" where
  "mac_signal_count n = nat (signed_take_bit 31 n)"

text \<open>Waits report a failed \<open>dispatch_semaphore_wait\<close> as \<open>ETIMEDOUT\<close>.\<close>

definition mac_wait_result :: "int \<Rightarrow> ret" where
  "mac_wait_result dispatch_rc = (if dispatch_rc = 0 then RInt 0 else RErr ETIMEDOUT)"

section \<open>Properties\<close>

lemma retry_skips: "\<forall>i. k \<le> i \<and> i < j \<longrightarrow> interrupted (out i) \<Longrightarrow> k \<le> j \<Longrightarrow> retry out k = retry out j"
proof (induction "j - k" arbitrary: k)
  case (Suc n)
  have k: "k < j" using Suc.hyps(2) by linarith
  with Suc.prems(1) have "interrupted (out k)" by blast
  then have "retry out k = retry out (k + 1)" by (subst retry.simps) (rule if_P)
  also have "\<dots> = retry out j"
  proof (rule Suc.hyps(1))
    show "n = j - (k + 1)" using Suc.hyps(2) by linarith
    show "\<forall>i. k + 1 \<le> i \<and> i < j \<longrightarrow> interrupted (out i)"
    proof (intro allI impI)
      fix i assume "k + 1 \<le> i \<and> i < j"
      then have "k \<le> i \<and> i < j" by linarith
      with Suc.prems(1) show "interrupted (out i)" by blast
    qed
    show "k + 1 \<le> j" using k by linarith
  qed
  finally show ?case .
qed simp

lemma retry_returns:
  assumes "retry out k = Some r"
  shows "\<exists>j \<ge> k. r = (out j, j + 1) \<and> \<not> interrupted (out j) \<and> (\<forall>i. k \<le> i \<and> i < j \<longrightarrow> interrupted (out i))"
proof (rule retry.raw_induct[OF _ assms])
  fix f :: "outcomes \<Rightarrow> nat \<Rightarrow> ((int \<times> errno) \<times> nat) option" and out k r
  let ?P = "\<lambda>out k r. \<exists>j \<ge> k. r = (out j, j + 1) \<and> \<not> interrupted (out j) \<and>
    (\<forall>i. k \<le> i \<and> i < j \<longrightarrow> interrupted (out i))"
  assume IH: "\<And>out k r. f out k = Some r \<Longrightarrow> ?P out k r"
    and now: "(if interrupted (out k) then f out (k + 1) else Some (out k, k + 1)) = Some r"
  show "?P out k r"
  proof (cases "interrupted (out k)")
    case True
    with now have "f out (k + 1) = Some r" by simp
    from IH[OF this] obtain j where j: "k + 1 \<le> j" "r = (out j, j + 1)" "\<not> interrupted (out j)"
      "\<forall>i. k + 1 \<le> i \<and> i < j \<longrightarrow> interrupted (out i)" by blast
    have below: "\<forall>i. k \<le> i \<and> i < j \<longrightarrow> interrupted (out i)"
    proof (intro allI impI)
      fix i assume i: "k \<le> i \<and> i < j"
      show "interrupted (out i)"
      proof (cases "i = k")
        case False
        with i have "k + 1 \<le> i \<and> i < j" by linarith
        with j(4) show ?thesis by blast
      qed (use True in simp)
    qed
    from j(1) have "k \<le> j" by linarith
    with j(2,3) below show ?thesis by blast
  next
    case False
    with now show ?thesis by (intro exI[of _ k]) auto
  qed
qed

text \<open>
  \<open>usem_wait\<close> repeats the system call exactly until the first result that is not an
  interruption, and returns that result: it never reports \<open>EINTR\<close>, and it fails to return
  only if every call is interrupted. The same loop serves \<open>usem_try_wait\<close> and
  \<open>usem_timed_wait\<close>.
\<close>

theorem usem_wait_result:
  "(usem_wait out = Some r \<longleftrightarrow>
      (\<exists>j. r = (out j, j + 1) \<and> \<not> interrupted (out j) \<and> (\<forall>i < j. interrupted (out i)))) \<and>
    (usem_wait out = None \<longleftrightarrow> (\<forall>i. interrupted (out i))) \<and>
    usem_try_wait out = usem_wait out \<and>
    usem_timed_wait now (\<lambda>d. out) tmo = usem_wait out"
proof -
  have found: "usem_wait out = Some (out j, j + 1)"
    if "\<not> interrupted (out j)" "\<forall>i < j. interrupted (out i)" for j
    using retry_skips[of 0 j out] that by (simp add: usem_wait_def retry.simps[of out j])
  have result: "\<exists>j. r = (out j, j + 1) \<and> \<not> interrupted (out j) \<and> (\<forall>i < j. interrupted (out i))"
    if "usem_wait out = Some r" for r using retry_returns[of out 0 r] that by (simp add: usem_wait_def)
  have none: "usem_wait out = None \<longleftrightarrow> (\<forall>i. interrupted (out i))"
  proof
    assume n: "usem_wait out = None"
    show "\<forall>i. interrupted (out i)"
    proof (rule ccontr)
      assume "\<not> ?thesis"
      then have ex: "\<exists>j. \<not> interrupted (out j)" by blast
      define j where "j = (LEAST j. \<not> interrupted (out j))"
      have "\<not> interrupted (out j)" unfolding j_def by (rule LeastI_ex[OF ex])
      moreover have "\<forall>i < j. interrupted (out i)"
        unfolding j_def using not_less_Least[of _ "\<lambda>j. \<not> interrupted (out j)"] by blast
      ultimately show False using found n by simp
    qed
  next
    assume "\<forall>i. interrupted (out i)"
    with result show "usem_wait out = None" by (cases "usem_wait out") blast+
  qed
  show ?thesis
    using found result none by (auto simp: usem_try_wait_def usem_timed_wait_def usem_wait_def)
qed

theorem usem_wait_result_witness:
  "usem_wait (\<lambda>k. if k < 2 then (- 1, EINTR) else (0, EINTR)) = Some ((0, EINTR), 3)"
proof -
  let ?out = "\<lambda>k. if k < (2 :: nat) then (- 1 :: int, EINTR) else (0, EINTR)"
  have "\<exists>j. ((0, EINTR), 3) = (?out j, j + 1) \<and> \<not> interrupted (?out j) \<and> (\<forall>i < j. interrupted (?out i))"
    by (rule exI[of _ 2]) (simp add: interrupted_def)
  with usem_wait_result[of ?out "((0, EINTR), 3)"] show ?thesis by simp
qed

text \<open>
  C40: The deadline \<open>usem_timed_wait\<close> hands to \<open>sem_timedwait\<close> is well-formed and exact: its
  nanoseconds are below one second, and it lies exactly the timeout after the clock reading,
  for every 64-bit timeout and every clock of less than \<open>2 ^ 62\<close> seconds; nothing overflows.
\<close>

theorem usem_deadline_exact:
  assumes "0 \<le> tv_sec now" and "tv_sec now < 2 ^ 62" and "0 \<le> tv_nsec now" and "tv_nsec now < 1000000000"
  shows "0 \<le> tv_nsec (deadline now tmo) \<and> tv_nsec (deadline now tmo) < 1000000000 \<and>
    tv_sec (deadline now tmo) * 1000000000 + tv_nsec (deadline now tmo) =
      tv_sec now * 1000000000 + tv_nsec now + uint tmo * 1000"
proof -
  define q r where "q = uint tmo div 1000000" and "r = uint tmo mod 1000000"
  have t: "uint tmo = q * 1000000 + r" by (simp add: q_def r_def)
  have "uint tmo < 2 ^ 64" using unsigned_less[of tmo, where 'a = int] by simp
  moreover have "0 \<le> uint tmo" by simp
  ultimately have q: "0 \<le> q" "q < 2 ^ 45" and r: "0 \<le> r" "r < 1000000"
    unfolding q_def r_def by (simp_all add: pos_imp_zdiv_nonneg_iff)
  have w: "uint (tmo div 1000000) = q" "uint (tmo mod 1000000) = r"
    by (simp_all add: q_def r_def uint_div uint_mod)
  have sec: "ssize (tv_sec now + ssize q) = tv_sec now + q"
    and nsec: "ssize (tv_nsec now + ssize (ssize r * 1000)) = tv_nsec now + r * 1000"
    using assms q r by (simp_all add: ssize_id)
  have carry: "ssize (tv_sec now + q + 1) = tv_sec now + q + 1"
    "ssize (tv_nsec now + r * 1000 - 1000000000) = tv_nsec now + r * 1000 - 1000000000"
    using assms q r by (simp_all add: ssize_id)
  show ?thesis
    using assms r unfolding deadline_def Let_def w sec nsec carry t by auto
qed

theorem usem_deadline_exact_witness:
  "tv_sec (deadline \<lparr>tv_sec = 10, tv_nsec = 999999999\<rparr> 2000001) * 1000000000 +
    tv_nsec (deadline \<lparr>tv_sec = 10, tv_nsec = 999999999\<rparr> 2000001) = 13000000999"
  using usem_deadline_exact[of "\<lparr>tv_sec = 10, tv_nsec = 999999999\<rparr>" 2000001] by simp

lemma usem_signal_value: "usem_signal v = (if v < SEM_VALUE_MAX then Some (v + 1) else None)"
proof (cases "v < SEM_VALUE_MAX")
  case True
  then show ?thesis by (subst usem_signal.simps) (simp add: sem_post_def)
next
  case False
  have "v < SEM_VALUE_MAX" if "usem_signal v = Some y" for y
  proof (rule usem_signal.raw_induct[OF _ that])
    fix f :: "nat \<Rightarrow> nat option" and v y
    assume IH: "\<And>v y. f v = Some y \<Longrightarrow> v < SEM_VALUE_MAX"
      and now: "(case sem_post v of None \<Rightarrow> f v | Some v' \<Rightarrow> Some v') = Some y"
    show "v < SEM_VALUE_MAX"
      using now IH[of v y] by (auto simp: sem_post_def split: if_splits)
  qed
  with False show ?thesis by (cases "usem_signal v") auto
qed

text \<open>
  \<open>usem_signal_count\<close> on a semaphore nobody else touches adds exactly the count, and
  nothing for a count of zero or less; but when that would exceed \<open>SEM_VALUE_MAX\<close> it never
  returns, because a post that fails with \<open>EOVERFLOW\<close> is repeated for ever.
\<close>

theorem usem_signal_count_result:
  assumes "v \<le> SEM_VALUE_MAX"
  shows "usem_signal_count n v = (if v + nat n \<le> SEM_VALUE_MAX then Some (v + nat n) else None)"
proof -
  have "usem_signal_times k v = (if v + k \<le> SEM_VALUE_MAX then Some (v + k) else None)"
    if "v \<le> SEM_VALUE_MAX" for k v
    using that by (induction k arbitrary: v) (auto simp: usem_signal_value)
  with assms show ?thesis by (simp add: usem_signal_count_def)
qed

theorem usem_signal_count_result_witness:
  "usem_signal_count 2 (SEM_VALUE_MAX - 1) = None \<and> usem_signal_count 2 0 = Some 2"
  using usem_signal_count_result[of "SEM_VALUE_MAX - 1" 2] usem_signal_count_result[of 0 2]
  by (simp add: SEM_VALUE_MAX_def)

text \<open>
  On macOS the timeout is multiplied by 1000 in 64 bits: it is what the caller asked for
  exactly up to 18446744073709551 microseconds; any longer timeout wraps around to a shorter
  one.
\<close>

theorem mac_timeout_exact:
  "uint (mac_timeout_nsecs tmo) = uint tmo * 1000 \<longleftrightarrow> uint tmo \<le> 18446744073709551"
proof -
  have "uint (mac_timeout_nsecs tmo) = (uint tmo * 1000) mod 2 ^ 64"
    by (simp add: mac_timeout_nsecs_def uint_word_ariths)
  moreover have "(uint tmo * 1000) mod 2 ^ 64 = uint tmo * 1000 \<longleftrightarrow> uint tmo * 1000 < 2 ^ 64"
    using mod_pos_pos_trivial[of "uint tmo * 1000" "2 ^ 64"] pos_mod_bound[of "2 ^ 64" "uint tmo * 1000"]
    by auto
  ultimately show ?thesis by auto
qed

end
