(* ===== verification/UsemForms.thy ===== *)
theory UsemForms
  imports Usem
begin

text \<open>
  The two forms of \<open>include/threads/usem.h\<close> as operations on a semaphore only one thread uses,
  and their equivalence. The POSIX form runs over semaphore values, with any number of calls
  interrupted by signals; the macOS form over the dispatch semaphores of the system library,
  whose calls are a parameter.
\<close>

section \<open>Operations\<close>

datatype usem_op = OpWait | OpTryWait | OpTimedWait "64 word" | OpSignal | OpSignalCount int

text \<open>An operation returns and changes the semaphore, or never returns.\<close>

type_synonym 'k usem_result = "(ret \<times> 'k) option"

fun run_ops :: "('o \<Rightarrow> 'k \<Rightarrow> 'k usem_result) \<Rightarrow> 'o list \<Rightarrow> 'k \<Rightarrow> (ret list \<times> 'k) option" where
  "run_ops f [] k = Some ([], k)"
| "run_ops f (op # ops) k = (case f op k of None \<Rightarrow> None
     | Some (r, k') \<Rightarrow> map_option (\<lambda>(rs, k''). (r # rs, k'')) (run_ops f ops k'))"

section \<open>The POSIX form\<close>

text \<open>
  What the calls of \<open>sem_wait\<close>, \<open>sem_trywait\<close> and \<open>sem_timedwait\<close> on a semaphore of value \<open>v\<close>
  return when the first \<open>intr\<close> of them are interrupted: 0 when there is a unit, else the
  error \<open>fail\<close>.
\<close>

definition sem_calls :: "nat \<Rightarrow> nat \<Rightarrow> errno \<Rightarrow> outcomes" where
  "sem_calls intr v fail k = (if k < intr then (- 1, EINTR) else if 0 < v then (0, fail) else (- 1, fail))"

definition took :: "((int \<times> errno) \<times> nat) \<Rightarrow> nat \<Rightarrow> ret \<times> nat" where
  "took r v = (if fst (fst r) = 0 then (RInt 0, v - 1) else (RErr (snd (fst r)), v))"

text \<open>A wait on an empty semaphore that nobody signals blocks for ever.\<close>

fun posix_op :: "nat \<Rightarrow> timespec \<Rightarrow> usem_op \<Rightarrow> nat \<Rightarrow> nat usem_result" where
  "posix_op intr now OpWait v = (if v = 0 then None
     else map_option (\<lambda>r. took r v) (usem_wait (sem_calls intr v EINVAL)))"
| "posix_op intr now OpTryWait v = map_option (\<lambda>r. took r v) (usem_try_wait (sem_calls intr v EAGAIN))"
| "posix_op intr now (OpTimedWait tmo) v =
     map_option (\<lambda>r. took r v) (usem_timed_wait now (\<lambda>d. sem_calls intr v ETIMEDOUT) tmo)"
| "posix_op intr now OpSignal v = map_option (\<lambda>v'. (RVoid, v')) (usem_signal v)"
| "posix_op intr now (OpSignalCount n) v = map_option (\<lambda>v'. (RVoid, v')) (usem_signal_count n v)"

text \<open>A list of operations, each with the number of times its system call is interrupted.\<close>

definition posix_run :: "timespec \<Rightarrow> (nat \<times> usem_op) list \<Rightarrow> nat \<Rightarrow> (ret list \<times> nat) option" where
  "posix_run now = run_ops (\<lambda>(intr, op). posix_op intr now op)"

section \<open>The macOS form\<close>

text \<open>
  The calls of \<open>dispatch/dispatch.h\<close> it uses: \<open>d_wait\<close> gives the return value and the
  semaphore afterwards, or \<open>None\<close> when it never returns.
\<close>

datatype dispatch_time = TIME_NOW | TIME_FOREVER | TIME_AFTER "64 word"

record 'd dispatch_ops =
  d_create :: "int \<Rightarrow> 'd"
  d_wait :: "dispatch_time \<Rightarrow> 'd \<Rightarrow> (int \<times> 'd) option"
  d_signal :: "'d \<Rightarrow> 'd"

definition mac_usem_init :: "'d dispatch_ops \<Rightarrow> 32 word \<Rightarrow> ret \<times> 'd" where
  "mac_usem_init D initial_count = (RInt 0, d_create D (uint initial_count))"

definition mac_usem_destroy :: "'d \<Rightarrow> ret \<times> 'd option" where
  "mac_usem_destroy d = (RInt 0, None)"

definition mac_wait_until :: "'d dispatch_ops \<Rightarrow> dispatch_time \<Rightarrow> 'd \<Rightarrow> 'd usem_result" where
  "mac_wait_until D t d = map_option (\<lambda>(rc, d'). (mac_wait_result rc, d')) (d_wait D t d)"

definition mac_usem_wait :: "'d dispatch_ops \<Rightarrow> 'd \<Rightarrow> 'd usem_result" where
  "mac_usem_wait D d = mac_wait_until D TIME_FOREVER d"

definition mac_usem_timed_wait :: "'d dispatch_ops \<Rightarrow> 64 word \<Rightarrow> 'd \<Rightarrow> 'd usem_result" where
  "mac_usem_timed_wait D tmo d = mac_wait_until D (TIME_AFTER (mac_timeout_nsecs tmo)) d"

definition mac_usem_try_wait :: "'d dispatch_ops \<Rightarrow> 'd \<Rightarrow> 'd usem_result" where
  "mac_usem_try_wait D d = mac_wait_until D TIME_NOW d"

definition mac_usem_signal :: "'d dispatch_ops \<Rightarrow> 'd \<Rightarrow> 'd" where
  "mac_usem_signal D d = d_signal D d"

text \<open>The \<open>int\<close> count drives the loop; a count of zero or less signals nothing.\<close>

fun mac_signal_times :: "'d dispatch_ops \<Rightarrow> nat \<Rightarrow> 'd \<Rightarrow> 'd" where
  "mac_signal_times D 0 d = d"
| "mac_signal_times D (Suc k) d = mac_signal_times D k (mac_usem_signal D d)"

definition mac_usem_signal_count :: "'d dispatch_ops \<Rightarrow> int \<Rightarrow> 'd \<Rightarrow> 'd" where
  "mac_usem_signal_count D n d = mac_signal_times D (mac_signal_count n) d"

fun mac_op :: "'d dispatch_ops \<Rightarrow> usem_op \<Rightarrow> 'd \<Rightarrow> 'd usem_result" where
  "mac_op D OpWait d = mac_usem_wait D d"
| "mac_op D OpTryWait d = mac_usem_try_wait D d"
| "mac_op D (OpTimedWait tmo) d = mac_usem_timed_wait D tmo d"
| "mac_op D OpSignal d = Some (RVoid, mac_usem_signal D d)"
| "mac_op D (OpSignalCount n) d = Some (RVoid, mac_usem_signal_count D n d)"

section \<open>What dispatch semaphores promise\<close>

text \<open>
  The documented behaviour on a semaphore nobody else uses: it counts; a wait with a unit
  takes it and returns zero; without a unit a wait returns non-zero when its time is up, and
  never when that is \<open>TIME_FOREVER\<close>; a signal adds a unit.
\<close>

locale dispatch_semaphore =
  fixes D :: "'d dispatch_ops" and ok :: "'d \<Rightarrow> bool" and units_of :: "'d \<Rightarrow> nat"
  assumes create: "0 \<le> n \<Longrightarrow> ok (d_create D n) \<and> units_of (d_create D n) = nat n"
    and wait_unit: "ok d \<Longrightarrow> 0 < units_of d \<Longrightarrow>
      \<exists>d'. d_wait D t d = Some (0, d') \<and> ok d' \<and> units_of d' = units_of d - 1"
    and wait_empty: "ok d \<Longrightarrow> units_of d = 0 \<Longrightarrow> t \<noteq> TIME_FOREVER \<Longrightarrow>
      \<exists>rc d'. d_wait D t d = Some (rc, d') \<and> rc \<noteq> 0 \<and> ok d' \<and> units_of d' = 0"
    and wait_forever: "ok d \<Longrightarrow> units_of d = 0 \<Longrightarrow> d_wait D TIME_FOREVER d = None"
    and signal: "ok d \<Longrightarrow> ok (d_signal D d) \<and> units_of (d_signal D d) = units_of d + 1"
begin

lemma signal_times: "ok d \<Longrightarrow> ok (mac_signal_times D k d) \<and> units_of (mac_signal_times D k d) = units_of d + k"
  by (induction k arbitrary: d) (auto simp: mac_usem_signal_def signal)

end

text \<open>The value of a POSIX semaphore, used through its own calls, keeps them.\<close>

definition sem_dispatch_ops :: "nat dispatch_ops" where
  "sem_dispatch_ops = \<lparr>d_create = nat,
     d_wait = (\<lambda>t v. if 0 < v then Some (0, v - 1) else if t = TIME_FOREVER then None else Some (49, v)),
     d_signal = Suc\<rparr>"

interpretation sem_dispatch: dispatch_semaphore sem_dispatch_ops "\<lambda>v. True" "\<lambda>v. v"
  by unfold_locales (auto simp: sem_dispatch_ops_def)

section \<open>Equivalence\<close>

text \<open>The units a list of operations signals; counts that both forms read the same.\<close>

fun op_units :: "usem_op \<Rightarrow> nat" where
  "op_units OpSignal = 1"
| "op_units (OpSignalCount n) = nat n"
| "op_units op = 0"

fun small_count :: "usem_op \<Rightarrow> bool" where
  "small_count (OpSignalCount n) \<longleftrightarrow> - (2 ^ 31) \<le> n \<and> n < 2 ^ 31"
| "small_count op \<longleftrightarrow> True"

fun succeeded :: "ret \<Rightarrow> bool" where
  "succeeded (RErr e) \<longleftrightarrow> False"
| "succeeded r \<longleftrightarrow> True"

lemma retry_sem_calls:
  assumes "fail \<noteq> EINTR"
  shows "retry (sem_calls intr v fail) 0 = Some (sem_calls intr v fail intr, intr + 1)"
proof -
  have "retry (sem_calls intr v fail) 0 = retry (sem_calls intr v fail) intr"
    by (rule retry_skips) (auto simp: sem_calls_def interrupted_def)
  with assms show ?thesis by (simp add: retry.simps[of _ intr] sem_calls_def interrupted_def)
qed

lemma posix_wait_value:
  assumes "fail \<noteq> EINTR"
  shows "map_option (\<lambda>r. took r v) (retry (sem_calls intr v fail) 0) =
    Some (if 0 < v then (RInt 0, v - 1) else (RErr fail, v))"
  by (simp add: retry_sem_calls[OF assms]) (simp add: took_def sem_calls_def)

lemma posix_signal_times:
  "v + k \<le> SEM_VALUE_MAX \<Longrightarrow> usem_signal_times k v = Some (v + k)"
  by (induction k arbitrary: v) (auto simp: usem_signal_value)

lemma mac_signal_count_small: "- (2 ^ 31) \<le> n \<Longrightarrow> n < 2 ^ 31 \<Longrightarrow> mac_signal_count n = nat n"
  unfolding mac_signal_count_def by (rule arg_cong[of _ _ nat], rule signed_take_bit_int_eq_self) simp_all

text \<open>One POSIX operation, as a function of the value.\<close>

fun op_value :: "usem_op \<Rightarrow> nat \<Rightarrow> (bool \<times> nat) option" where
  "op_value OpWait v = (if v = 0 then None else Some (True, v - 1))"
| "op_value OpTryWait v = Some (0 < v, v - 1)"
| "op_value (OpTimedWait tmo) v = Some (0 < v, v - 1)"
| "op_value op v = Some (True, v + op_units op)"

text \<open>The value stays within the maximum at every signal of the list.\<close>

fun within_max :: "usem_op list \<Rightarrow> nat \<Rightarrow> bool" where
  "within_max [] v \<longleftrightarrow> True"
| "within_max (op # ops) v \<longleftrightarrow> v + op_units op \<le> SEM_VALUE_MAX \<and>
     (case op_value op v of None \<Rightarrow> True | Some (b, v') \<Rightarrow> within_max ops v')"

lemma posix_op_value:
  assumes "v + op_units op \<le> SEM_VALUE_MAX"
  shows "map_option (\<lambda>(r, v'). (succeeded r, v')) (posix_op intr now op v) = op_value op v"
  using assms
  by (cases op)
    (auto simp: usem_wait_def usem_try_wait_def usem_timed_wait_def posix_wait_value usem_signal_value
      usem_signal_count_def posix_signal_times)

context dispatch_semaphore
begin

lemma mac_wait_value:
  assumes "ok d" and "0 < units_of d \<or> t \<noteq> TIME_FOREVER"
  obtains r d' where "mac_wait_until D t d = Some (r, d')" "succeeded r \<longleftrightarrow> 0 < units_of d"
    "ok d'" "units_of d' = units_of d - 1"
proof (cases "0 < units_of d")
  case True
  from wait_unit[OF assms(1) True, of t] obtain d' where "d_wait D t d = Some (0, d')" "ok d'"
    "units_of d' = units_of d - 1" by blast
  with True that show thesis by (simp add: mac_wait_until_def mac_wait_result_def)
next
  case False
  with wait_empty[OF assms(1), of t] assms(2) obtain rc d' where "d_wait D t d = Some (rc, d')" "rc \<noteq> 0"
    "ok d'" "units_of d' = 0" by blast
  with False that show thesis by (simp add: mac_wait_until_def mac_wait_result_def)
qed

lemma mac_op_value:
  assumes "ok d" and "small_count op"
  shows "map_option (\<lambda>(r, d'). (succeeded r, units_of d')) (mac_op D op d) = op_value op (units_of d) \<and>
    (\<forall>r d'. mac_op D op d = Some (r, d') \<longrightarrow> ok d')"
proof (cases op)
  case OpWait
  show ?thesis
  proof (cases "0 < units_of d")
    case True
    then obtain r d' where "mac_wait_until D TIME_FOREVER d = Some (r, d')" "succeeded r" "ok d'"
      "units_of d' = units_of d - 1" using mac_wait_value[OF assms(1), of TIME_FOREVER] by blast
    with True show ?thesis by (simp add: OpWait mac_usem_wait_def)
  next
    case False
    with wait_forever[OF assms(1)] show ?thesis by (simp add: OpWait mac_usem_wait_def mac_wait_until_def)
  qed
next
  case OpTryWait
  obtain r d' where "mac_wait_until D TIME_NOW d = Some (r, d')" "succeeded r \<longleftrightarrow> 0 < units_of d" "ok d'"
    "units_of d' = units_of d - 1" using mac_wait_value[OF assms(1), of TIME_NOW] by blast
  then show ?thesis by (simp add: OpTryWait mac_usem_try_wait_def)
next
  case (OpTimedWait tmo)
  let ?t = "TIME_AFTER (mac_timeout_nsecs tmo)"
  obtain r d' where "mac_wait_until D ?t d = Some (r, d')" "succeeded r \<longleftrightarrow> 0 < units_of d" "ok d'"
    "units_of d' = units_of d - 1" using mac_wait_value[OF assms(1), of ?t] by blast
  then show ?thesis by (simp add: OpTimedWait mac_usem_timed_wait_def)
next
  case OpSignal
  with signal[OF assms(1)] show ?thesis by (simp add: mac_usem_signal_def)
next
  case (OpSignalCount n)
  with signal_times[OF assms(1)] assms(2) show ?thesis
    by (simp add: mac_usem_signal_count_def mac_signal_count_small)
qed

lemma forms_agree:
  assumes "ok d" and "list_all small_count (map snd calls)" and "within_max (map snd calls) (units_of d)"
  shows "map_option (\<lambda>(rs, v). (map succeeded rs, v)) (posix_run now calls (units_of d)) =
    map_option (\<lambda>(rs, d'). (map succeeded rs, units_of d')) (run_ops (mac_op D) (map snd calls) d)"
  using assms unfolding posix_run_def
proof (induction calls arbitrary: d)
  case (Cons call calls)
  obtain intr op where call: "call = (intr, op)" by (cases call)
  let ?run = "run_ops (\<lambda>(intr, op). posix_op intr now op) calls"
  have small: "small_count op" and fits: "units_of d + op_units op \<le> SEM_VALUE_MAX"
    using Cons.prems by (simp_all add: call)
  note p = posix_op_value[OF fits, of intr now] and m = mac_op_value[OF Cons.prems(1) small]
  show ?case
  proof (cases "op_value op (units_of d)")
    case None
    with p m show ?thesis by (simp add: call)
  next
    case (Some bv)
    obtain b v where bv: "bv = (b, v)" by (cases bv)
    from p Some bv obtain r where r: "posix_op intr now op (units_of d) = Some (r, v)" "succeeded r = b" by auto
    from m Some bv obtain r' d' where r': "mac_op D op d = Some (r', d')" "succeeded r' = b" "units_of d' = v" "ok d'"
      by auto
    have "within_max (map snd calls) v" "list_all small_count (map snd calls)"
      using Cons.prems(2,3) Some bv by (simp_all add: call)
    with r' have "map_option (\<lambda>(rs, v). (map succeeded rs, v)) (?run v) =
        map_option (\<lambda>(rs, d'). (map succeeded rs, units_of d')) (run_ops (mac_op D) (map snd calls) d')"
      using Cons.IH[of d'] by simp
    with r r' show ?thesis
      by (cases "?run v"; cases "run_ops (mac_op D) (map snd calls) d'") (auto simp: call)
  qed
qed simp

end

text \<open>
  C26: The POSIX and the macOS form of \<open>usem_t\<close> are interchangeable for one thread: any
  sequence of waits and signals, each wait interrupted by signals any number of times on POSIX,
  succeeds and fails at the same places, blocks for ever at the same place, and leaves the same
  number of units, as long as no signal of the sequence would take the units above
  \<open>SEM_VALUE_MAX\<close> and the counts fit into an \<open>int\<close>. They differ
  in \<open>errno\<close>: a failed try reports \<open>EAGAIN\<close> on POSIX and \<open>ETIMEDOUT\<close> on macOS.
\<close>

theorem usem_forms_equivalent:
  assumes "dispatch_semaphore D ok units_of" and "ok d" and "list_all small_count (map snd calls)"
    and "within_max (map snd calls) (units_of d)"
  shows "map_option (\<lambda>(rs, v). (map succeeded rs, v)) (posix_run now calls (units_of d)) =
    map_option (\<lambda>(rs, d'). (map succeeded rs, units_of d')) (run_ops (mac_op D) (map snd calls) d) \<and>
    (units_of d = 0 \<longrightarrow> posix_op intr now OpTryWait 0 = Some (RErr EAGAIN, 0) \<and>
      (\<exists>d'. mac_op D OpTryWait d = Some (RErr ETIMEDOUT, d')))"
proof -
  have "posix_op intr now OpTryWait 0 = Some (RErr EAGAIN, 0)"
    by (simp add: usem_try_wait_def posix_wait_value)
  moreover have "\<exists>d'. mac_op D OpTryWait d = Some (RErr ETIMEDOUT, d')" if "units_of d = 0"
    using dispatch_semaphore.wait_empty[OF assms(1,2) that, of TIME_NOW]
    by (auto simp: mac_usem_try_wait_def mac_wait_until_def mac_wait_result_def)
  ultimately show ?thesis using dispatch_semaphore.forms_agree[OF assms] by blast
qed

theorem usem_forms_equivalent_witness:
  "run_ops (mac_op sem_dispatch_ops) [OpTryWait, OpSignalCount 2, OpWait, OpTimedWait 5, OpTryWait] 0 =
    Some ([RErr ETIMEDOUT, RVoid, RInt 0, RInt 0, RErr ETIMEDOUT], 0) \<and>
   map_option (\<lambda>(rs, v). (map succeeded rs, v))
     (posix_run \<lparr>tv_sec = 0, tv_nsec = 0\<rparr>
       [(3, OpTryWait), (0, OpSignalCount 2), (1, OpWait), (0, OpTimedWait 5), (2, OpTryWait)] 0) =
    Some ([False, True, True, True, False], 0)"
proof -
  let ?ops = "[OpTryWait, OpSignalCount 2, OpWait, OpTimedWait 5, OpTryWait]"
  let ?calls = "[(3, OpTryWait), (0, OpSignalCount 2), (1, OpWait), (0, OpTimedWait 5), (2, OpTryWait)]"
  have "run_ops (mac_op sem_dispatch_ops) ?ops 0 =
      Some ([RErr ETIMEDOUT, RVoid, RInt 0, RInt 0, RErr ETIMEDOUT], 0)"
    by (simp add: mac_usem_wait_def mac_usem_try_wait_def mac_usem_timed_wait_def mac_wait_until_def
        mac_wait_result_def mac_usem_signal_count_def mac_signal_count_small mac_usem_signal_def
        sem_dispatch_ops_def numeral_eq_Suc)
  with usem_forms_equivalent[OF sem_dispatch.dispatch_semaphore_axioms, where d = 0 and calls = ?calls
      and now = "\<lparr>tv_sec = 0, tv_nsec = 0\<rparr>"]
  show ?thesis by (simp add: SEM_VALUE_MAX_def posix_run_def del: run_ops.simps)
qed

end
