(* ===== verification/Semaphore.thy ===== *)
theory Semaphore
  imports Prelude
begin

text \<open>
  What the semaphores of the library share: the counting semaphore they implement, and the
  operations a program that waits and signals uses, with what it relies on.
\<close>

section \<open>A counting semaphore\<close>

text \<open>
  What a semaphore does: hand out a unit it has, receive units, or neither.
\<close>

datatype sem_action = SemTau | SemGot | SemGave nat

inductive sem_does :: "nat \<Rightarrow> sem_action \<Rightarrow> nat \<Rightarrow> bool" where
  tau: "sem_does n SemTau n"
| got: "sem_does (n + 1) SemGot n"
| gave: "sem_does n (SemGave k) (n + k)"

inductive_simps sem_does_simps: "sem_does n SemTau n'" "sem_does n SemGot n'" "sem_does n (SemGave k) n'"

section \<open>The operations\<close>

text \<open>
  A semaphore as a program sees it: its events, the events in which thread \<open>i\<close> calls it to
  wait and to signal, which events are calls and which are steps a thread makes by itself
  (the others are wake-ups without a signal), and whether a thread is outside of it.
\<close>

record ('e, 's) semaphore_ops =
  sem_next :: "'e \<Rightarrow> 's \<Rightarrow> 's option"
  sem_wait :: "tid \<Rightarrow> 'e"
  sem_signal :: "tid \<Rightarrow> 'e"
  sem_is_call :: "'e \<Rightarrow> bool"
  sem_is_step :: "'e \<Rightarrow> bool"
  sem_outside :: "'s \<Rightarrow> tid \<Rightarrow> bool"

text \<open>
  What a program relies on, apart from the counting: a thread outside can call, calls and steps
  of others leave it outside, only the call to wait puts a thread among those that wait, and
  when nobody can make a step, whoever is inside waits. So a signal is never stuck.
\<close>

locale semaphore =
  fixes S :: "('e, 's) semaphore_ops" and start :: "'s \<Rightarrow> bool" and inv :: "'s \<Rightarrow> bool"
    and waits :: "'s \<Rightarrow> tid \<Rightarrow> bool"
  assumes start_inv: "start s \<Longrightarrow> inv s" and start_outside: "start s \<Longrightarrow> sem_outside S s i"
    and next_inv: "inv s \<Longrightarrow> sem_next S e s = Some s' \<Longrightarrow> inv s'"
    and step_not_call: "sem_is_step S e \<Longrightarrow> \<not> sem_is_call S e"
    and can_wait: "sem_outside S s i \<Longrightarrow> sem_next S (sem_wait S i) s \<noteq> None"
    and can_signal: "sem_outside S s i \<Longrightarrow> sem_next S (sem_signal S i) s \<noteq> None"
    and stays_outside: "sem_next S e s = Some s' \<Longrightarrow> \<not> sem_is_call S e \<or> (\<exists>j. j \<noteq> i \<and> (e = sem_wait S j \<or> e = sem_signal S j)) \<Longrightarrow>
      sem_outside S s i \<Longrightarrow> sem_outside S s' i"
    and stays_active: "sem_next S e s = Some s' \<Longrightarrow> \<not> sem_is_call S e \<or> (\<exists>j. e = sem_signal S j \<or> j \<noteq> i \<and> e = sem_wait S j) \<Longrightarrow>
      \<not> waits s i \<Longrightarrow> \<not> waits s' i"
    and outside_active: "sem_outside S s i \<Longrightarrow> \<not> waits s i"
    and rests: "inv s \<Longrightarrow> (\<And>e. sem_is_step S e \<Longrightarrow> sem_next S e s = None) \<Longrightarrow> sem_outside S s i \<or> waits s i"
begin

lemma others_stay_outside:
  "sem_next S (sem_signal S j) s = Some s' \<Longrightarrow> j \<noteq> i \<Longrightarrow> sem_outside S s i \<Longrightarrow> sem_outside S s' i"
  "sem_next S (sem_wait S j) s = Some s' \<Longrightarrow> j \<noteq> i \<Longrightarrow> sem_outside S s i \<Longrightarrow> sem_outside S s' i"
  using stays_outside by blast+

lemma others_stay_active:
  "sem_next S (sem_signal S j) s = Some s' \<Longrightarrow> \<not> waits s i \<Longrightarrow> \<not> waits s' i"
  "sem_next S (sem_wait S j) s = Some s' \<Longrightarrow> j \<noteq> i \<Longrightarrow> \<not> waits s i \<Longrightarrow> \<not> waits s' i"
  using stays_active by blast+

end

end
