(* ===== verification/Barrier.thy ===== *)
theory Barrier
  imports Prelude
begin

text \<open>
  The barrier of \<open>src/pthread_barrier.c\<close>, for systems without one: initialisation and
  destruction as functions of what the pthread calls return, and \<open>pthread_barrier_wait\<close> as
  steps of concurrent threads over the fields \<open>count\<close>, \<open>left\<close> and \<open>round\<close>, 32 bits each.
\<close>

section \<open>Initialisation and destruction\<close>

text \<open>\<open>unsigned\<close> has 32 bits. The results of the pthread calls, 0 for success.\<close>

type_synonym uint = "32 word"

definition EINVAL_code :: int where
  "EINVAL_code = 22"

record barrier_env =
  getpshared_rc :: int
  setpshared_rc :: int
  mutex_init_rc :: int
  cond_init_rc :: int

record barrier_fields =
  count_field :: uint
  left_field :: uint
  round_field :: uint

text \<open>What \<open>pthread_barrier_init\<close> returns, and which objects it leaves initialised.\<close>

record barrier_result =
  rc :: int
  init_fields :: "barrier_fields option"
  mutex_live :: bool
  cond_live :: bool
  condattr_live :: bool

definition barrier_failed :: "int \<Rightarrow> bool \<Rightarrow> barrier_result" where
  "barrier_failed err attr_live =
     \<lparr>rc = err, init_fields = None, mutex_live = False, cond_live = False, condattr_live = attr_live\<rparr>"

text \<open>
  A barrier attribute is a mutex attribute: whether it is initialised, and its process-shared
  setting. What the system answers is in the first argument.
\<close>

record barrierattr =
  attr_live :: bool
  pshared :: int

definition barrierattr_init :: "int \<Rightarrow> barrierattr \<Rightarrow> int \<times> barrierattr" where
  "barrierattr_init err attr = (err, if err = 0 then \<lparr>attr_live = True, pshared = 0\<rparr> else attr)"

definition barrierattr_destroy :: "int \<Rightarrow> barrierattr \<Rightarrow> int \<times> barrierattr" where
  "barrierattr_destroy err attr = (err, if err = 0 then attr\<lparr>attr_live := False\<rparr> else attr)"

definition barrierattr_getpshared :: "barrier_env \<Rightarrow> int" where
  "barrierattr_getpshared env = getpshared_rc env"

definition barrierattr_setpshared :: "int \<Rightarrow> barrierattr \<Rightarrow> int \<Rightarrow> int \<times> barrierattr" where
  "barrierattr_setpshared err attr p = (err, if err = 0 then attr\<lparr>pshared := p\<rparr> else attr)"

definition barrier_init :: "barrier_env \<Rightarrow> bool \<Rightarrow> uint \<Rightarrow> barrier_result" where
  "barrier_init env has_attr n =
     (if n = 0 then barrier_failed EINVAL_code False
      else if has_attr \<and> barrierattr_getpshared env \<noteq> 0
        then barrier_failed (barrierattr_getpshared env) True
      else if has_attr \<and> setpshared_rc env \<noteq> 0 then barrier_failed (setpshared_rc env) True
      else if mutex_init_rc env \<noteq> 0 then barrier_failed (mutex_init_rc env) True
      else if cond_init_rc env \<noteq> 0 then barrier_failed (cond_init_rc env) True
      else \<lparr>rc = 0, init_fields = Some \<lparr>count_field = n, left_field = n, round_field = 0\<rparr>,
        mutex_live = True, cond_live = True, condattr_live = True\<rparr>)"

text \<open>\<open>rm\<close> and \<open>rc\<close> are what destroying the mutex and the condition variable returns.\<close>

definition barrier_destroy :: "int \<Rightarrow> int \<Rightarrow> barrier_fields \<Rightarrow> int \<times> barrier_fields" where
  "barrier_destroy rm rcond b =
     (if count_field b = 0 then (EINVAL_code, b)
      else (if rm \<noteq> 0 then rm else rcond, b\<lparr>count_field := 0\<rparr>))"

section \<open>Waiting\<close>

text \<open>
  The state: the fields, the owner of the mutex, the threads blocked on the condition
  variable. History: completed rounds, arrivals, returns of 0 and of
  \<open>PTHREAD_BARRIER_SERIAL_THREAD\<close>, and the round in which each thread last arrived.
\<close>

record barrier =
  bcount :: uint
  left :: uint
  round :: uint
  bmutex :: "tid option"
  bcond :: "tid set"
  rounds :: nat
  arrivals :: nat
  zeros :: nat
  serials :: nat
  arrived_in :: "tid \<Rightarrow> nat"

datatype bret = BZero | BSerial

datatype bpc = B_Lock | B_Dec | B_Wait uint | B_Blocked uint | B_Check uint | B_Unlock
  | B_Last | B_Broadcast | B_UnlockSerial | BReturned bret

definition block_on :: "tid \<Rightarrow> barrier \<Rightarrow> barrier" where
  "block_on i s = s\<lparr>bmutex := None, bcond := insert i (bcond s)\<rparr>"

fun barrier_step :: "tid \<Rightarrow> bpc \<Rightarrow> barrier \<Rightarrow> (barrier \<times> bpc) option" where
  "barrier_step i B_Lock s = (if bmutex s = None then Some (s\<lparr>bmutex := Some i\<rparr>, B_Dec) else None)"
| "barrier_step i B_Dec s =
     Some (s\<lparr>left := left s - 1, arrivals := arrivals s + 1, arrived_in := (arrived_in s)(i := rounds s)\<rparr>,
       if left s - 1 \<noteq> 0 then B_Wait (round s) else B_Last)"
| "barrier_step i (B_Wait r) s = Some (block_on i s, B_Blocked r)"
| "barrier_step i (B_Blocked r) s =
     (if i \<in> bcond s \<or> bmutex s \<noteq> None then None else Some (s\<lparr>bmutex := Some i\<rparr>, B_Check r))"
| "barrier_step i (B_Check r) s = Some (s, if r = round s then B_Wait r else B_Unlock)"
| "barrier_step i B_Unlock s = Some (s\<lparr>bmutex := None, zeros := zeros s + 1\<rparr>, BReturned BZero)"
| "barrier_step i B_Last s =
     Some (s\<lparr>round := round s + 1, left := bcount s, rounds := rounds s + 1\<rparr>, B_Broadcast)"
| "barrier_step i B_Broadcast s = Some (s\<lparr>bcond := cond_broadcast (bcond s)\<rparr>, B_UnlockSerial)"
| "barrier_step i B_UnlockSerial s =
     Some (s\<lparr>bmutex := None, serials := serials s + 1\<rparr>, BReturned BSerial)"
| "barrier_step i (BReturned r) s = None"

record barrier_system =
  bmem :: barrier
  bpcs :: "tid \<Rightarrow> bpc"

datatype barrier_event = BStep tid | BCall tid | BSpurious tid

fun barrier_next :: "barrier_event \<Rightarrow> barrier_system \<Rightarrow> barrier_system option" where
  "barrier_next (BStep i) s =
     (case barrier_step i (bpcs s i) (bmem s) of None \<Rightarrow> None
      | Some (m, p) \<Rightarrow> Some \<lparr>bmem = m, bpcs = (bpcs s)(i := p)\<rparr>)"
| "barrier_next (BCall i) s =
     (case bpcs s i of BReturned r \<Rightarrow> Some (s\<lparr>bpcs := (bpcs s)(i := B_Lock)\<rparr>) | _ \<Rightarrow> None)"
| "barrier_next (BSpurious i) s =
     (if i \<in> bcond (bmem s) then Some (s\<lparr>bmem := (bmem s)\<lparr>bcond := bcond (bmem s) - {i}\<rparr>\<rparr>) else None)"

text \<open>The barrier as a successful \<open>pthread_barrier_init\<close> leaves it, with no thread in it.\<close>

definition barrier_new :: "barrier_fields \<Rightarrow> barrier_system" where
  "barrier_new b = \<lparr>bmem = \<lparr>bcount = count_field b, left = left_field b, round = round_field b,
     bmutex = None, bcond = {}, rounds = 0, arrivals = 0, zeros = 0, serials = 0,
     arrived_in = (\<lambda>_. 0)\<rparr>, bpcs = (\<lambda>_. BReturned BZero)\<rparr>"

definition barrier_start :: "barrier_system \<Rightarrow> bool" where
  "barrier_start s \<longleftrightarrow> (\<exists>env a n b. init_fields (barrier_init env a n) = Some b \<and> s = barrier_new b)"

section \<open>The invariant\<close>

fun b_holds :: "bpc \<Rightarrow> bool" where
  "b_holds p \<longleftrightarrow> (case p of B_Lock \<Rightarrow> False | B_Blocked r \<Rightarrow> False | BReturned r \<Rightarrow> False | _ \<Rightarrow> True)"

text \<open>Has arrived and not returned; is the last one of a round and not returned.\<close>

fun b_inside :: "bpc \<Rightarrow> nat" where
  "b_inside p = (case p of B_Lock \<Rightarrow> 0 | B_Dec \<Rightarrow> 0 | BReturned r \<Rightarrow> 0 | _ \<Rightarrow> 1)"

fun b_serial :: "bpc \<Rightarrow> nat" where
  "b_serial p = (case p of B_Broadcast \<Rightarrow> 1 | B_UnlockSerial \<Rightarrow> 1 | _ \<Rightarrow> 0)"

text \<open>What a thread knows at its program point.\<close>

fun b_knows :: "tid \<Rightarrow> bpc \<Rightarrow> barrier \<Rightarrow> bool" where
  "b_knows i B_Last s \<longleftrightarrow> left s = 0"
| "b_knows i (B_Wait r) s \<longleftrightarrow> r = round s \<and> r = of_nat (arrived_in s i) \<and> arrived_in s i \<le> rounds s \<and> left s \<noteq> 0"
| "b_knows i (B_Blocked r) s \<longleftrightarrow> r = of_nat (arrived_in s i) \<and> arrived_in s i \<le> rounds s"
| "b_knows i (B_Check r) s \<longleftrightarrow> r = of_nat (arrived_in s i) \<and> arrived_in s i \<le> rounds s \<and> left s \<noteq> 0"
| "b_knows i B_Unlock s \<longleftrightarrow> arrived_in s i < rounds s \<and> left s \<noteq> 0"
| "b_knows i B_Lock s \<longleftrightarrow> True"
| "b_knows i (BReturned r) s \<longleftrightarrow> True"
| "b_knows i p s \<longleftrightarrow> left s \<noteq> 0"

definition b_lock_inv :: "barrier_system \<Rightarrow> bool" where
  "b_lock_inv s \<longleftrightarrow> (\<forall>i. b_holds (bpcs s i) \<longleftrightarrow> bmutex (bmem s) = Some i) \<and>
     (bmutex (bmem s) = None \<longrightarrow> left (bmem s) \<noteq> 0)"

definition b_knows_inv :: "barrier_system \<Rightarrow> bool" where
  "b_knows_inv s \<longleftrightarrow> (\<forall>i. b_knows i (bpcs s i) (bmem s))"

definition b_count_inv :: "barrier \<Rightarrow> bool" where
  "b_count_inv m \<longleftrightarrow> bcount m \<noteq> 0 \<and> unat (left m) \<le> unat (bcount m) \<and>
     round m = of_nat (rounds m) \<and> arrivals m + unat (left m) = (rounds m + 1) * unat (bcount m)"

definition b_sum_inv :: "barrier_system \<Rightarrow> bool" where
  "b_sum_inv s \<longleftrightarrow> serials (bmem s) + tsum b_serial (bpcs s) = rounds (bmem s) \<and>
     zeros (bmem s) + serials (bmem s) + tsum b_inside (bpcs s) = arrivals (bmem s)"

definition b_cond_inv :: "barrier_system \<Rightarrow> bool" where
  "b_cond_inv s \<longleftrightarrow> (\<forall>i \<in> bcond (bmem s). \<exists>r. bpcs s i = B_Blocked r \<and>
     (r = round (bmem s) \<or> (\<exists>j. bpcs s j = B_Broadcast)))"

definition barrier_inv :: "barrier_system \<Rightarrow> bool" where
  "barrier_inv s \<longleftrightarrow> b_lock_inv s \<and> b_knows_inv s \<and> b_count_inv (bmem s) \<and> b_sum_inv s \<and> b_cond_inv s"

section \<open>The invariant is kept\<close>

lemma b_step_lock:
  assumes "barrier_step i p m = Some (m', p')"
  shows "(b_holds p' = b_holds p \<and> bmutex m' = bmutex m) \<or>
    (\<not> b_holds p \<and> b_holds p' \<and> bmutex m = None \<and> bmutex m' = Some i) \<or>
    (b_holds p \<and> \<not> b_holds p' \<and> bmutex m' = None)"
  using assms by (cases p) (auto simp: block_on_def split: if_splits)

text \<open>Only the owner of the mutex touches the counters, and it leaves \<open>left\<close> non-zero.\<close>

lemma b_step_left:
  assumes "barrier_step i p m = Some (m', p')" and "b_knows i p m" and "b_count_inv m"
  shows "(\<not> b_holds p \<longrightarrow> left m' = left m \<and> round m' = round m \<and> rounds m' = rounds m) \<and>
    (b_holds p \<and> \<not> b_holds p' \<longrightarrow> left m' \<noteq> 0) \<and> rounds m \<le> rounds m' \<and>
    (\<forall>j. j \<noteq> i \<longrightarrow> arrived_in m' j = arrived_in m j)"
  using assms by (cases p) (auto simp: block_on_def split: if_splits)

lemma b_step_lock_inv:
  assumes inv: "b_lock_inv s" "b_knows_inv s" "b_count_inv (bmem s)"
    and e: "barrier_step i (bpcs s i) (bmem s) = Some (m, p)"
  shows "b_lock_inv \<lparr>bmem = m, bpcs = (bpcs s)(i := p)\<rparr>"
proof -
  have k: "b_knows i (bpcs s i) (bmem s)" using inv(2) by (simp add: b_knows_inv_def)
  have own: "b_holds (bpcs s j) \<longleftrightarrow> bmutex (bmem s) = Some j" for j
    using inv(1) unfolding b_lock_inv_def by blast
  have "b_holds (((bpcs s)(i := p)) j) \<longleftrightarrow> bmutex m = Some j" for j
    using b_step_lock[OF e] own[of i] own[of j] by (cases "j = i") auto
  moreover have "bmutex m = None \<longrightarrow> left m \<noteq> 0"
    using b_step_lock[OF e] b_step_left[OF e k inv(3)] own[of i] inv(1)
    unfolding b_lock_inv_def by auto
  ultimately show ?thesis by (simp add: b_lock_inv_def del: b_holds.simps)
qed

lemma b_knows_other:
  assumes "b_knows j q m" and "\<not> b_holds q \<or> left m' = left m \<and> round m' = round m"
    and "rounds m \<le> rounds m'" and "arrived_in m' j = arrived_in m j"
  shows "b_knows j q m'"
  using assms by (cases q) auto

lemma b_step_knows:
  assumes e: "barrier_step i p m = Some (m', p')" and k: "b_knows i p m"
    and c: "b_count_inv m" and z: "\<not> b_holds p \<longrightarrow> bmutex m = None \<longrightarrow> left m \<noteq> 0"
  shows "b_knows i p' m'"
proof (cases p)
  case (B_Check r)
  have "arrived_in m i \<noteq> rounds m" if "r \<noteq> round m"
    using that k c by (auto simp: B_Check b_count_inv_def)
  with e k show ?thesis by (auto simp: B_Check split: if_splits)
qed (use e k c z in \<open>auto simp: block_on_def b_count_inv_def split: if_splits\<close>)

lemma b_step_knows_inv:
  assumes inv: "b_lock_inv s" "b_knows_inv s" "b_count_inv (bmem s)"
    and e: "barrier_step i (bpcs s i) (bmem s) = Some (m, p)"
  shows "b_knows_inv \<lparr>bmem = m, bpcs = (bpcs s)(i := p)\<rparr>"
proof -
  have k: "b_knows j (bpcs s j) (bmem s)" for j using inv(2) by (simp add: b_knows_inv_def)
  have own: "b_holds (bpcs s j) \<longleftrightarrow> bmutex (bmem s) = Some j" for j
    using inv(1) unfolding b_lock_inv_def by blast
  have "b_knows i p m"
    by (rule b_step_knows[OF e k inv(3)]) (use inv(1) in \<open>simp add: b_lock_inv_def\<close>)
  moreover have "b_knows j (bpcs s j) m" if "j \<noteq> i" for j
  proof (rule b_knows_other[OF k])
    note step = b_step_left[OF e k inv(3)]
    show "\<not> b_holds (bpcs s j) \<or> left m = left (bmem s) \<and> round m = round (bmem s)"
      using step own[of i] own[of j] that by auto
    show "rounds (bmem s) \<le> rounds m" "arrived_in m j = arrived_in (bmem s) j"
      using step that by auto
  qed
  ultimately show ?thesis by (simp add: b_knows_inv_def)
qed

lemma b_step_count_inv:
  assumes c: "b_count_inv m" and k: "b_knows i p m" and e: "barrier_step i p m = Some (m', p')"
  shows "b_count_inv m'"
proof (cases p)
  case B_Dec
  then have "left m \<noteq> 0" using k by simp
  then have "unat (left m - 1) = unat (left m) - 1" "0 < unat (left m)"
    by (simp_all add: unat_minus_one unat_gt_0)
  with c e show ?thesis by (auto simp: B_Dec b_count_inv_def)
next
  case B_Last
  with c e k show ?thesis by (auto simp: b_count_inv_def)
qed (use c e in \<open>auto simp: b_count_inv_def block_on_def split: if_splits\<close>)

lemma b_step_sum_inv:
  assumes inv: "b_sum_inv s" and e: "barrier_step i (bpcs s i) (bmem s) = Some (m, p)"
  shows "b_sum_inv \<lparr>bmem = m, bpcs = (bpcs s)(i := p)\<rparr>"
proof -
  have "tsum b_serial ((bpcs s)(i := p)) + b_serial (bpcs s i) = tsum b_serial (bpcs s) + b_serial p"
    and "tsum b_inside ((bpcs s)(i := p)) + b_inside (bpcs s i) = tsum b_inside (bpcs s) + b_inside p"
    by (rule tsum_upd)+
  moreover have "serials m + rounds (bmem s) + b_serial p = serials (bmem s) + rounds m + b_serial (bpcs s i)"
    "zeros m + serials m + b_inside p + arrivals (bmem s) =
      zeros (bmem s) + serials (bmem s) + b_inside (bpcs s i) + arrivals m"
    using e by (cases "bpcs s i"; auto simp: block_on_def split: if_splits)+
  ultimately show ?thesis using inv by (simp add: b_sum_inv_def)
qed

lemma b_step_quiet:
  assumes "barrier_step i p m = Some (m', p')"
    and "p \<noteq> B_Last" and "p \<noteq> B_Broadcast" and "\<And>r. p \<noteq> B_Wait r"
  shows "bcond m' = bcond m \<and> round m' = round m \<and> (\<forall>r. p = B_Blocked r \<longrightarrow> i \<notin> bcond m)"
  using assms by (cases p) (auto split: if_splits)

lemma b_blocked_kept:
  assumes "f j = B_Blocked r" and "r = n \<or> (\<exists>j. f j = B_Broadcast)" and "f i \<noteq> B_Broadcast" and "j \<noteq> i"
  shows "\<exists>r. (f(i := p)) j = B_Blocked r \<and> (r = n \<or> (\<exists>j. (f(i := p)) j = B_Broadcast))"
proof -
  have "r = n \<or> (\<exists>j. (f(i := p)) j = B_Broadcast)"
    using assms(2)
  proof (elim disjE exE)
    fix j' assume b: "f j' = B_Broadcast"
    with assms(3) have "j' \<noteq> i" by auto
    with b show ?thesis by (intro disjI2 exI[of _ j']) simp
  qed simp
  with assms(1,4) show ?thesis by (intro exI[of _ r]) simp
qed

lemma b_step_cond_inv:
  assumes inv: "b_cond_inv s" "b_knows_inv s" "b_lock_inv s"
    and e: "barrier_step i (bpcs s i) (bmem s) = Some (m, p)"
  shows "b_cond_inv \<lparr>bmem = m, bpcs = (bpcs s)(i := p)\<rparr>"
proof -
  have k: "b_knows i (bpcs s i) (bmem s)" using inv(2) by (simp add: b_knows_inv_def)
  have own: "b_holds (bpcs s j) \<longleftrightarrow> bmutex (bmem s) = Some j" for j
    using inv(3) unfolding b_lock_inv_def by blast
  have free: "bpcs s j \<noteq> B_Broadcast" if "j \<noteq> i" "b_holds (bpcs s i) \<or> bmutex (bmem s) = None" for j
    using own[of i] own[of j] that by auto
  have old: "\<exists>r. bpcs s j = B_Blocked r \<and> (r = round (bmem s) \<or> (\<exists>j. bpcs s j = B_Broadcast))"
    if "j \<in> bcond (bmem s)" for j using inv(1) that by (auto simp: b_cond_inv_def)
  show ?thesis
    unfolding b_cond_inv_def barrier_system.simps
  proof
    fix j assume j: "j \<in> bcond m"
    show "\<exists>r. ((bpcs s)(i := p)) j = B_Blocked r \<and>
        (r = round m \<or> (\<exists>j. ((bpcs s)(i := p)) j = B_Broadcast))"
    proof -
      consider (last) "bpcs s i = B_Last" | (wait) r where "bpcs s i = B_Wait r"
        | (broadcast) "bpcs s i = B_Broadcast"
        | (quiet) "bpcs s i \<noteq> B_Last" "bpcs s i \<noteq> B_Broadcast" "\<And>r. bpcs s i \<noteq> B_Wait r" by blast
      then show ?thesis
      proof cases
        case last
        with e j old[of j] show ?thesis by (auto intro!: exI[of _ i])
      next
        case (wait r)
        show ?thesis
        proof (cases "j = i")
          case True
          with wait e k show ?thesis by (auto simp: block_on_def)
        next
          case False
          with wait e j have "j \<in> bcond (bmem s)" by (auto simp: block_on_def)
          from old[OF this] obtain r' where r': "bpcs s j = B_Blocked r'"
            and "r' = round (bmem s) \<or> (\<exists>j. bpcs s j = B_Broadcast)" by blast
          moreover have "bpcs s j' \<noteq> B_Broadcast" for j'
            using free[of j'] wait by (cases "j' = i") auto
          ultimately have "r' = round (bmem s)" by blast
          with False wait e r' show ?thesis by (auto simp: block_on_def)
        qed
      next
        case broadcast
        with e j show ?thesis by (auto simp: cond_broadcast_def)
      next
        case quiet
        note q = b_step_quiet[OF e quiet]
        with j have "j \<in> bcond (bmem s)" by simp
        from old[OF this] obtain r where r: "bpcs s j = B_Blocked r"
          and alt: "r = round (bmem s) \<or> (\<exists>j. bpcs s j = B_Broadcast)" by blast
        have "j \<noteq> i" using q r \<open>j \<in> bcond (bmem s)\<close> by blast
        note kept = b_blocked_kept[OF r alt quiet(2) this]
        from q have "round m = round (bmem s)" by simp
        with kept show ?thesis by (simp only:)
      qed
    qed
  qed
qed

lemma b_step_Some:
  "barrier_next (BStep i) s = Some s' \<longleftrightarrow>
    (\<exists>m p. barrier_step i (bpcs s i) (bmem s) = Some (m, p) \<and> s' = \<lparr>bmem = m, bpcs = (bpcs s)(i := p)\<rparr>)"
proof (cases "barrier_step i (bpcs s i) (bmem s)")
  case (Some mp)
  obtain m p where "mp = (m, p)" by (cases mp)
  with Some have e: "barrier_step i (bpcs s i) (bmem s) = Some (m, p)" by (simp only:)
  show ?thesis unfolding barrier_next.simps e by auto
qed simp

lemma b_call_Some:
  "barrier_next (BCall i) s = Some s' \<longleftrightarrow> (\<exists>r. bpcs s i = BReturned r) \<and> s' = s\<lparr>bpcs := (bpcs s)(i := B_Lock)\<rparr>"
  by (auto split: bpc.splits)

lemma b_call_inv:
  assumes inv: "barrier_inv s" and r: "bpcs s i = BReturned r"
  shows "barrier_inv (s\<lparr>bpcs := (bpcs s)(i := B_Lock)\<rparr>)"
proof -
  have "tsum b_serial ((bpcs s)(i := B_Lock)) = tsum b_serial (bpcs s)"
    "tsum b_inside ((bpcs s)(i := B_Lock)) = tsum b_inside (bpcs s)"
    using r by (auto intro!: tsum_upd_eq)
  moreover have "b_cond_inv (s\<lparr>bpcs := (bpcs s)(i := B_Lock)\<rparr>)"
  proof -
    have "b_cond_inv s" using inv by (simp only: barrier_inv_def)
    note cond = this[unfolded b_cond_inv_def]
    have "\<exists>r. ((bpcs s)(i := B_Lock)) j = B_Blocked r \<and>
        (r = round (bmem s) \<or> (\<exists>j. ((bpcs s)(i := B_Lock)) j = B_Broadcast))"
      if waits: "j \<in> bcond (bmem s)" for j
    proof -
      obtain r' where j: "bpcs s j = B_Blocked r'" "r' = round (bmem s) \<or> (\<exists>j. bpcs s j = B_Broadcast)"
        using bspec[OF cond waits] by (elim exE conjE)
      have "bpcs s i \<noteq> B_Broadcast" "j \<noteq> i" using r j(1) by auto
      then show ?thesis by (rule b_blocked_kept[OF j])
    qed
    then show ?thesis unfolding b_cond_inv_def by simp
  qed
  moreover have "b_lock_inv (s\<lparr>bpcs := (bpcs s)(i := B_Lock)\<rparr>)"
  proof -
    have "b_lock_inv s" using inv by (simp only: barrier_inv_def)
    then have own: "b_holds (bpcs s j) \<longleftrightarrow> bmutex (bmem s) = Some j"
      and free: "bmutex (bmem s) = None \<longrightarrow> left (bmem s) \<noteq> 0" for j
      unfolding b_lock_inv_def by blast+
    have "b_holds (((bpcs s)(i := B_Lock)) j) \<longleftrightarrow> bmutex (bmem s) = Some j" for j
      using own[of j] r by (cases "j = i") auto
    with free show ?thesis by (simp add: b_lock_inv_def del: b_holds.simps)
  qed
  moreover have "b_knows_inv (s\<lparr>bpcs := (bpcs s)(i := B_Lock)\<rparr>)"
    using inv by (simp add: barrier_inv_def b_knows_inv_def)
  ultimately show ?thesis
    using inv by (simp add: barrier_inv_def b_sum_inv_def)
qed

lemma barrier_inv_next:
  assumes inv: "barrier_inv s" and n: "barrier_next e s = Some s'"
  shows "barrier_inv s'"
proof (cases e)
  case (BStep i)
  with n obtain m p where e: "barrier_step i (bpcs s i) (bmem s) = Some (m, p)"
    and s': "s' = \<lparr>bmem = m, bpcs = (bpcs s)(i := p)\<rparr>"
    by (auto simp only: b_step_Some)
  have I: "b_lock_inv s" "b_knows_inv s" "b_count_inv (bmem s)" "b_sum_inv s" "b_cond_inv s"
    using inv by (auto simp: barrier_inv_def)
  have "b_knows i (bpcs s i) (bmem s)" using I(2) by (simp add: b_knows_inv_def)
  with b_step_lock_inv[OF I(1-3) e] b_step_knows_inv[OF I(1-3) e] b_step_count_inv[OF I(3) _ e]
    b_step_sum_inv[OF I(4) e] b_step_cond_inv[OF I(5,2,1) e]
  show ?thesis by (simp add: barrier_inv_def s')
next
  case (BCall i)
  with n b_call_inv[OF inv] show ?thesis by (auto simp only: b_call_Some)
next
  case (BSpurious i)
  with n have s': "s' = s\<lparr>bmem := (bmem s)\<lparr>bcond := bcond (bmem s) - {i}\<rparr>\<rparr>" by (simp split: if_splits)
  have "b_knows j (bpcs s j) (bmem s) \<longrightarrow> b_knows j (bpcs s j) (bmem s')" for j
    by (cases "bpcs s j") (auto simp: s')
  with inv show ?thesis
    by (auto simp: s' barrier_inv_def b_lock_inv_def b_knows_inv_def b_count_inv_def b_sum_inv_def b_cond_inv_def)
qed

lemma barrier_inv_start: "barrier_start s \<Longrightarrow> barrier_inv s"
  by (auto simp: barrier_start_def barrier_init_def barrier_failed_def barrier_new_def barrier_inv_def
      b_lock_inv_def b_knows_inv_def b_count_inv_def b_sum_inv_def b_cond_inv_def tsum_const_zero
      split: if_splits)

interpretation barrier: safety barrier_start barrier_next barrier_inv
  by unfold_locales (auto intro: barrier_inv_start barrier_inv_next)

end
