(* ===== verification/BarrierProps.thy ===== *)
theory BarrierProps
  imports Barrier
begin

text \<open>The properties of the barrier, with schedules of two threads as witnesses.\<close>

section \<open>Schedules\<close>

definition ok_env :: barrier_env where
  "ok_env = \<lparr>getpshared_rc = 0, setpshared_rc = 0, mutex_init_rc = 0, cond_init_rc = 0\<rparr>"

definition barrier_of_two :: barrier_system where
  "barrier_of_two = barrier_new \<lparr>count_field = 2, left_field = 2, round_field = 0\<rparr>"

lemma barrier_of_two_reach: "reach barrier_start barrier_next barrier_of_two"
  unfolding barrier_start_def
  by (rule reach_init, rule exI[of _ ok_env], rule exI[of _ False], rule exI[of _ 2])
    (simp add: barrier_init_def ok_env_def barrier_of_two_def)

definition b_steps :: "tid \<Rightarrow> nat \<Rightarrow> barrier_event list" where
  "b_steps i n = replicate n (BStep i)"

lemma b_steps_simps [simp]:
  "b_steps i 0 = []" "b_steps i (Suc n) = BStep i # b_steps i n"
  "b_steps i (numeral k) = BStep i # b_steps i (pred_numeral k)"
  by (simp_all add: b_steps_def numeral_eq_Suc)

lemmas eval_barrier = barrier_of_two_def barrier_new_def block_on_def cond_broadcast_def

text \<open>One thread waits, the other arrives and wakes it; the first has seen the new round.\<close>

definition b_sched_woken :: "barrier_event list" where
  "b_sched_woken = BCall (Client 0) # b_steps (Client 0) 3 @ BCall (Client 1) # b_steps (Client 1) 5 @
     b_steps (Client 0) 2"

definition b_state_woken :: barrier_system where
  "b_state_woken = \<lparr>bmem = (bmem barrier_of_two)\<lparr>round := 1, bmutex := Some (Client 0), rounds := 1,
       arrivals := 2, serials := 1, arrived_in := (\<lambda>_. 0)\<rparr>,
     bpcs = (bpcs barrier_of_two)(Client 0 := B_Unlock, Client 1 := BReturned BSerial)\<rparr>"

lemma b_run_woken: "run barrier_next b_sched_woken barrier_of_two = Some b_state_woken"
  by (simp add: b_sched_woken_def b_state_woken_def eval_barrier fun_upd_twist fun_eq_iff)

lemma b_reach_woken: "reach barrier_start barrier_next b_state_woken"
  by (rule reach_run[OF b_run_woken barrier_of_two_reach])

section \<open>Rounds\<close>

text \<open>
  Nobody leaves the barrier early: a thread about to return 0 arrived in a round that is
  complete, so at least as many threads have arrived as its round and all before it need.
  The same holds for the thread about to return \<open>PTHREAD_BARRIER_SERIAL_THREAD\<close>.
\<close>

theorem barrier_no_early_return:
  assumes "reach barrier_start barrier_next s"
  shows "(bpcs s i = B_Unlock \<longrightarrow>
      (arrived_in (bmem s) i + 1) * unat (bcount (bmem s)) \<le> arrivals (bmem s)) \<and>
    (bpcs s i = B_UnlockSerial \<longrightarrow> 0 < rounds (bmem s) \<and>
      rounds (bmem s) * unat (bcount (bmem s)) \<le> arrivals (bmem s))"
proof -
  let ?m = "bmem s" and ?c = "unat (bcount (bmem s))"
  have inv: "barrier_inv s" by (rule barrier.reach_inv[OF assms])
  then have k: "b_knows i (bpcs s i) ?m" and c: "b_count_inv ?m" and sums: "b_sum_inv s"
    by (auto simp: barrier_inv_def b_knows_inv_def)
  have "arrivals ?m + unat (left ?m) = rounds ?m * ?c + ?c" "unat (left ?m) \<le> ?c"
    using c by (auto simp: b_count_inv_def)
  then have le: "rounds ?m * ?c \<le> arrivals ?m" by linarith
  have "(arrived_in ?m i + 1) * ?c \<le> rounds ?m * ?c" if "bpcs s i = B_Unlock"
    using k that by (intro mult_le_mono1) simp
  moreover have "0 < rounds ?m" if "bpcs s i = B_UnlockSerial"
  proof -
    have "b_serial (bpcs s i) \<le> tsum b_serial (bpcs s)" by (rule tsum_nat_ge)
    with that sums show ?thesis by (simp add: b_sum_inv_def)
  qed
  ultimately show ?thesis using le by (auto intro: order.trans)
qed

theorem barrier_no_early_return_witness:
  "bpcs b_state_woken (Client 0) = B_Unlock \<and> 2 \<le> arrivals (bmem b_state_woken)"
proof -
  have p: "bpcs b_state_woken (Client 0) = B_Unlock" by (simp add: b_state_woken_def)
  with barrier_no_early_return[OF b_reach_woken, of "Client 0"] show ?thesis
    by (simp add: b_state_woken_def barrier_of_two_def barrier_new_def)
qed

text \<open>
  Every completed round has exactly one thread that returns
  \<open>PTHREAD_BARRIER_SERIAL_THREAD\<close> (or is about to); the arrivals fill the completed rounds
  and part of the current one; and each arrival has returned once or is still inside.
\<close>

theorem barrier_one_serial_per_round:
  assumes "reach barrier_start barrier_next s"
  shows "serials (bmem s) + tsum b_serial (bpcs s) = rounds (bmem s) \<and>
    rounds (bmem s) * unat (bcount (bmem s)) \<le> arrivals (bmem s) \<and>
    arrivals (bmem s) \<le> (rounds (bmem s) + 1) * unat (bcount (bmem s)) \<and>
    zeros (bmem s) + serials (bmem s) + tsum b_inside (bpcs s) = arrivals (bmem s)"
proof -
  have "barrier_inv s" by (rule barrier.reach_inv[OF assms])
  then have "b_count_inv (bmem s)" and "b_sum_inv s" by (auto simp: barrier_inv_def)
  then show ?thesis by (auto simp: b_count_inv_def b_sum_inv_def)
qed

theorem barrier_one_serial_per_round_witness:
  "serials (bmem b_state_woken) = 1 \<and> rounds (bmem b_state_woken) = 1 \<and> tsum b_serial (bpcs b_state_woken) = 0"
  using barrier_one_serial_per_round[OF b_reach_woken]
  by (simp add: b_state_woken_def barrier_of_two_def barrier_new_def)

text \<open>
  C33: No thread is left behind at the barrier: in every reachable state in which the mutex is free, a
  thread that went to sleep in a round whose number is not the current one is not blocked any
  more; its next step is enabled, and takes it back to the test of the round.
\<close>

theorem barrier_releases_all:
  assumes "reach barrier_start barrier_next s" and "bmutex (bmem s) = None"
    and "bpcs s i = B_Blocked r" and "r \<noteq> round (bmem s)"
  shows "i \<notin> bcond (bmem s) \<and> (\<exists>s'. barrier_next (BStep i) s = Some s' \<and> bpcs s' i = B_Check r)"
proof -
  have inv: "barrier_inv s" by (rule barrier.reach_inv[OF assms(1)])
  have "bpcs s j \<noteq> B_Broadcast" for j
  proof
    assume "bpcs s j = B_Broadcast"
    moreover have "b_holds (bpcs s j) \<longleftrightarrow> bmutex (bmem s) = Some j"
      using inv unfolding barrier_inv_def b_lock_inv_def by blast
    ultimately show False using assms(2) by simp
  qed
  with inv assms(3,4) have "i \<notin> bcond (bmem s)"
    unfolding barrier_inv_def b_cond_inv_def by fastforce
  with assms(2,3) show ?thesis by simp
qed

theorem barrier_releases_all_witness:
  "\<exists>s. reach barrier_start barrier_next s \<and> bpcs s (Client 0) = B_Blocked 0 \<and> Client 0 \<notin> bcond (bmem s)"
proof -
  obtain s where s: "run barrier_next (BCall (Client 0) # b_steps (Client 0) 3 @
      BCall (Client 1) # b_steps (Client 1) 5) barrier_of_two = Some s"
    and p: "bmutex (bmem s) = None" "bpcs s (Client 0) = B_Blocked 0" "round (bmem s) = 1"
    by (simp add: eval_barrier)
  note r = reach_run[OF s barrier_of_two_reach]
  have "(0 :: uint) \<noteq> round (bmem s)" by (simp add: p)
  from barrier_releases_all[OF r p(1,2) this] r p show ?thesis by blast
qed

section \<open>Creation\<close>

text \<open>
  \<open>pthread_barrier_init\<close> returns 0 exactly when the count is positive and every pthread
  call it makes succeeds, and then the barrier is ready for its first round; on any error it
  leaves neither the mutex nor the condition variable initialised. The attribute object it
  initialises on the way is never destroyed.
\<close>

theorem barrier_init_result:
  "let r = barrier_init env has_attr n in
    (rc r = 0 \<longleftrightarrow> n \<noteq> 0 \<and> mutex_init_rc env = 0 \<and> cond_init_rc env = 0 \<and>
      \<not> (has_attr \<and> (getpshared_rc env \<noteq> 0 \<or> setpshared_rc env \<noteq> 0))) \<and>
    init_fields r = (if rc r = 0 then Some \<lparr>count_field = n, left_field = n, round_field = 0\<rparr> else None) \<and>
    (mutex_live r \<longleftrightarrow> rc r = 0) \<and> (cond_live r \<longleftrightarrow> rc r = 0) \<and>
    (condattr_live r \<longleftrightarrow> n \<noteq> 0)"
  by (auto simp: Let_def barrier_init_def barrier_failed_def EINVAL_code_def barrierattr_getpshared_def)

text \<open>The mutex was created and the condition variable was not.\<close>

theorem barrier_init_result_witness:
  "rc (barrier_init (ok_env\<lparr>cond_init_rc := 12\<rparr>) True 3) \<noteq> 0 \<and>
    \<not> mutex_live (barrier_init (ok_env\<lparr>cond_init_rc := 12\<rparr>) True 3) \<and>
    condattr_live (barrier_init (ok_env\<lparr>cond_init_rc := 12\<rparr>) True 3)"
  using barrier_init_result[of "ok_env\<lparr>cond_init_rc := 12\<rparr>" True 3] by (simp add: Let_def ok_env_def)

text \<open>
  \<open>pthread_barrier_destroy\<close> makes the barrier unusable, reports the first error of the
  two objects it destroys, and a second destruction is refused with \<open>EINVAL\<close>.
\<close>

theorem barrier_destroy_result:
  "let (r, b') = barrier_destroy rm rcond b in
    count_field b' = 0 \<and> barrier_destroy rm' rcond' b' = (EINVAL_code, b') \<and>
    (r = 0 \<longleftrightarrow> count_field b \<noteq> 0 \<and> rm = 0 \<and> rcond = 0)"
  by (auto simp: barrier_destroy_def EINVAL_code_def)

end
