(* ===== verification/BarrierSpec.thy ===== *)
theory BarrierSpec
  imports BarrierProps
begin

text \<open>
  The barrier against its specification: a cyclic barrier that knows for every thread whether
  it is outside, present in the current round, released from a completed one, or the thread
  that completed a round and is still inside.
\<close>

section \<open>A cyclic barrier\<close>

datatype place = Outside | Present | Released | Serial

record round_state =
  places :: "tid \<Rightarrow> place"
  completed_rounds :: nat

datatype round_action = Nothing | Enters tid | Leaves tid bret

inductive cyclic_does :: "nat \<Rightarrow> round_state \<Rightarrow> round_action \<Rightarrow> round_state \<Rightarrow> bool" for n :: nat where
  nothing: "cyclic_does n a Nothing a"
| enters: "places a i = Outside \<Longrightarrow> card {j. places a j = Present} + 1 < n \<Longrightarrow>
    cyclic_does n a (Enters i) (a\<lparr>places := (places a)(i := Present)\<rparr>)"
| completes: "places a i = Outside \<Longrightarrow> card {j. places a j = Present} + 1 = n \<Longrightarrow>
    cyclic_does n a (Enters i) (a\<lparr>places := (\<lambda>j. if j = i then Serial
        else if places a j = Present then Released else places a j),
      completed_rounds := completed_rounds a + 1\<rparr>)"
| leaves: "places a i = Released \<Longrightarrow>
    cyclic_does n a (Leaves i BZero) (a\<lparr>places := (places a)(i := Outside)\<rparr>)"
| leaves_serial: "places a i = Serial \<Longrightarrow>
    cyclic_does n a (Leaves i BSerial) (a\<lparr>places := (places a)(i := Outside)\<rparr>)"

text \<open>Nobody present in a round leaves before it is complete, and a round never overfills.\<close>

lemma cyclic_present_stays:
  "cyclic_does n a act b \<Longrightarrow> places a i = Present \<Longrightarrow> act \<noteq> Leaves i r \<and>
    (places b i = Present \<or> places b i = Released \<and> completed_rounds b = completed_rounds a + 1)"
  by (induction rule: cyclic_does.induct) auto

lemma cyclic_not_full:
  "cyclic_does n a act b \<Longrightarrow> card {j. places a j = Present} < n \<Longrightarrow> card {j. places b j = Present} < n"
proof (induction rule: cyclic_does.induct)
  case (enters a i)
  have "{j. places (a\<lparr>places := (places a)(i := Present)\<rparr>) j = Present} = insert i {j. places a j = Present}"
    by auto
  with enters card_insert_le_m1[of _ "{j. places a j = Present}" i] show ?case
    by (simp add: card_insert_if)
next
  case (completes a i)
  then have "{j. places (a\<lparr>places := (\<lambda>j. if j = i then Serial
      else if places a j = Present then Released else places a j),
      completed_rounds := completed_rounds a + 1\<rparr>) j = Present} = {}" by auto
  with completes show ?case by simp
next
  case (leaves a i)
  then have "{j. places (a\<lparr>places := (places a)(i := Outside)\<rparr>) j = Present} = {j. places a j = Present}"
    by auto
  with leaves show ?case by simp
next
  case (leaves_serial a i)
  then have "{j. places (a\<lparr>places := (places a)(i := Outside)\<rparr>) j = Present} = {j. places a j = Present}"
    by auto
  with leaves_serial show ?case by simp
qed simp

section \<open>The abstraction\<close>

fun place_of :: "bpc \<Rightarrow> nat \<Rightarrow> nat \<Rightarrow> place" where
  "place_of (B_Wait r) arrived now = (if arrived = now then Present else Released)"
| "place_of (B_Blocked r) arrived now = (if arrived = now then Present else Released)"
| "place_of (B_Check r) arrived now = (if arrived = now then Present else Released)"
| "place_of B_Unlock arrived now = Released"
| "place_of B_Broadcast arrived now = Serial"
| "place_of B_UnlockSerial arrived now = Serial"
| "place_of _ arrived now = Outside"

definition round_state_of :: "barrier_system \<Rightarrow> round_state" where
  "round_state_of s = \<lparr>places = (\<lambda>i. place_of (bpcs s i) (arrived_in (bmem s) i) (rounds (bmem s))),
     completed_rounds = rounds (bmem s)\<rparr>"

fun round_action_of :: "barrier_event \<Rightarrow> barrier_system \<Rightarrow> barrier_system \<Rightarrow> round_action" where
  "round_action_of (BStep i) s s' = (case bpcs s' i of
       B_Wait r \<Rightarrow> if bpcs s i = B_Dec then Enters i else Nothing
     | B_Broadcast \<Rightarrow> Enters i
     | BReturned r \<Rightarrow> Leaves i r
     | _ \<Rightarrow> Nothing)"
| "round_action_of _ s s' = Nothing"

abbreviation present :: "barrier_system \<Rightarrow> tid set" where
  "present s \<equiv> {i. places (round_state_of s) i = Present}"

text \<open>The field \<open>left\<close> counts the threads the round still lacks.\<close>

definition present_inv :: "barrier_system \<Rightarrow> bool" where
  "present_inv s \<longleftrightarrow> card (present s) + unat (left (bmem s)) + card {i. bpcs s i = B_Last} = unat (bcount (bmem s))"

lemma barrier_inv_facts:
  assumes "barrier_inv s"
  shows "b_knows i (bpcs s i) (bmem s)" and "b_count_inv (bmem s)"
    and "b_holds (bpcs s i) \<longleftrightarrow> bmutex (bmem s) = Some i"
  using assms unfolding barrier_inv_def b_knows_inv_def b_lock_inv_def by blast+

lemma one_holder:
  assumes "barrier_inv s" and "b_holds (bpcs s i)" and "j \<noteq> i"
  shows "\<not> b_holds (bpcs s j)"
  using barrier_inv_facts(3)[OF assms(1), of i] barrier_inv_facts(3)[OF assms(1), of j] assms(2,3) by auto

text \<open>What one step does to the places, told apart by the program point.\<close>

lemma place_step_other:
  assumes "barrier_step i p m = Some (m', p')" and "p \<noteq> B_Last"
  shows "rounds m' = rounds m" and "bcount m' = bcount m" and "j \<noteq> i \<Longrightarrow> arrived_in m' j = arrived_in m j"
    and "p \<noteq> B_Dec \<Longrightarrow> left m' = left m \<and> p' \<noteq> B_Last"
  using assms by (cases p; auto simp: block_on_def split: if_splits)+

lemma place_step_own:
  assumes "barrier_step i p m = Some (m', p')" and "b_knows i p m" and "b_count_inv m"
    and "p \<noteq> B_Last" and "p \<noteq> B_Dec" and "p \<noteq> B_Unlock" and "p \<noteq> B_UnlockSerial"
  shows "place_of p' (arrived_in m' i) (rounds m') = place_of p (arrived_in m i) (rounds m)"
  using assms by (cases p) (auto simp: block_on_def b_count_inv_def split: if_splits)

lemma quiet_step_places:
  assumes "barrier_step i (bpcs s i) (bmem s) = Some (m, p)" and "bpcs s i \<noteq> B_Last"
  shows "round_state_of \<lparr>bmem = m, bpcs = (bpcs s)(i := p)\<rparr> = (round_state_of s)\<lparr>places :=
    (places (round_state_of s))(i := place_of p (arrived_in m i) (rounds m))\<rparr>"
  using place_step_other[OF assms] by (auto simp: round_state_of_def)

lemma last_step_places:
  assumes inv: "barrier_inv s" and last: "bpcs s i = B_Last"
    and e: "barrier_step i (bpcs s i) (bmem s) = Some (m, p)"
  shows "round_state_of \<lparr>bmem = m, bpcs = (bpcs s)(i := p)\<rparr> = (let a = round_state_of s in
    a\<lparr>places := (\<lambda>j. if j = i then Serial else if places a j = Present then Released else places a j),
      completed_rounds := completed_rounds a + 1\<rparr>)"
    and "bpcs s j = B_Last \<longleftrightarrow> j = i"
proof -
  let ?a = "round_state_of s"
  have below: "place_of (bpcs s j) (arrived_in (bmem s) j) (rounds (bmem s) + 1) =
      (if places ?a j = Present then Released else places ?a j)" for j
    using barrier_inv_facts(1)[OF inv, of j] by (cases "bpcs s j") (auto simp: round_state_of_def)
  have m: "arrived_in m = arrived_in (bmem s)" "rounds m = rounds (bmem s) + 1" "p = B_Broadcast"
    using e last by auto
  have "places (round_state_of \<lparr>bmem = m, bpcs = (bpcs s)(i := p)\<rparr>) j = (if j = i then Serial
      else if places ?a j = Present then Released else places ?a j)" for j
    using below[of j] by (simp add: round_state_of_def[of "\<lparr>bmem = m, bpcs = (bpcs s)(i := q)\<rparr>" for q] m)
  then show "round_state_of \<lparr>bmem = m, bpcs = (bpcs s)(i := p)\<rparr> = (let a = round_state_of s in
      a\<lparr>places := (\<lambda>j. if j = i then Serial else if places a j = Present then Released else places a j),
        completed_rounds := completed_rounds a + 1\<rparr>)"
    by (intro round_state.equality) (auto simp: Let_def fun_eq_iff, simp_all add: round_state_of_def m)
  show "bpcs s j = B_Last \<longleftrightarrow> j = i"
    using one_holder[OF inv, of i j] last by (cases "j = i") auto
qed

section \<open>The simulation\<close>

lemma dec_step:
  assumes inv: "barrier_inv s" "present_inv s" and dec: "bpcs s i = B_Dec"
    and e: "barrier_step i (bpcs s i) (bmem s) = Some (m, p)"
  shows "card (present s) + unat (left (bmem s)) = unat (bcount (bmem s))"
    and "unat (left m) = unat (left (bmem s)) - 1" and "0 < unat (left (bmem s))"
    and "p = (if left m \<noteq> 0 then B_Wait (round (bmem s)) else B_Last)"
    and "arrived_in m i = rounds (bmem s)" and "bpcs s j \<noteq> B_Last"
proof -
  have none: "bpcs s j \<noteq> B_Last" for j
    using one_holder[OF inv(1), of i j] dec by (cases "j = i") auto
  then show "bpcs s j \<noteq> B_Last" .
  from none inv(2) show "card (present s) + unat (left (bmem s)) = unat (bcount (bmem s))"
    by (simp add: present_inv_def)
  have "left (bmem s) \<noteq> 0" using barrier_inv_facts(1)[OF inv(1), of i] dec by simp
  then show "0 < unat (left (bmem s))" and "unat (left m) = unat (left (bmem s)) - 1"
    using e dec by (auto simp: unat_gt_0 unat_minus_one)
  show "p = (if left m \<noteq> 0 then B_Wait (round (bmem s)) else B_Last)" "arrived_in m i = rounds (bmem s)"
    using e dec by auto
qed

lemma present_step:
  assumes inv: "barrier_inv s" "present_inv s"
    and e: "barrier_step i (bpcs s i) (bmem s) = Some (m, p)"
  shows "present_inv \<lparr>bmem = m, bpcs = (bpcs s)(i := p)\<rparr>"
proof -
  let ?s' = "\<lparr>bmem = m, bpcs = (bpcs s)(i := p)\<rparr>"
  consider (dec) "bpcs s i = B_Dec" | (last) "bpcs s i = B_Last"
    | (quiet) "bpcs s i \<noteq> B_Dec" "bpcs s i \<noteq> B_Last" by blast
  then show ?thesis
  proof cases
    case last
    have "{j. bpcs ?s' j = B_Last} = {}" and "left m = bcount m"
      using last_step_places(2)[OF inv(1) last e] e last by auto
    moreover have "present ?s' = {}" by (simp add: last_step_places(1)[OF inv(1) last e] Let_def)
    ultimately show ?thesis by (simp add: present_inv_def)
  next
    case dec
    note d = dec_step[OF inv dec e]
    have places: "present ?s' = (if left m \<noteq> 0 then insert i (present s) else present s)"
      using quiet_step_places[OF e] place_step_other(1)[OF e] d(4,5) dec
      by (auto simp: round_state_of_def)
    have lasts: "{j. bpcs ?s' j = B_Last} = (if left m \<noteq> 0 then {} else {i})"
      using d(4,6) by auto
    have "i \<notin> present s" by (simp add: dec round_state_of_def)
    with d(1-3) place_step_other(2)[OF e] dec show ?thesis
      unfolding present_inv_def places lasts by (auto simp: unat_eq_zero)
  next
    case quiet
    have "place_of p (arrived_in m i) (rounds m) = Present \<longleftrightarrow> places (round_state_of s) i = Present"
    proof (cases "bpcs s i = B_Unlock \<or> bpcs s i = B_UnlockSerial")
      case True
      with e show ?thesis by (auto simp: round_state_of_def)
    next
      case False
      with place_step_own[OF e barrier_inv_facts(1,2)[OF inv(1)]] quiet show ?thesis
        by (simp add: round_state_of_def)
    qed
    with quiet_step_places[OF e quiet(2)] have "present ?s' = present s" by auto
    moreover have "{j. bpcs ?s' j = B_Last} = {j. bpcs s j = B_Last}"
      using place_step_other(4)[OF e] quiet by auto
    ultimately show ?thesis
      using inv(2) place_step_other(2,4)[OF e] quiet by (simp add: present_inv_def)
  qed
qed

lemma step_refines_cyclic:
  assumes inv: "barrier_inv s" "present_inv s"
    and e: "barrier_step i (bpcs s i) (bmem s) = Some (m, p)"
  shows "cyclic_does (unat (bcount (bmem s))) (round_state_of s)
    (round_action_of (BStep i) s \<lparr>bmem = m, bpcs = (bpcs s)(i := p)\<rparr>)
    (round_state_of \<lparr>bmem = m, bpcs = (bpcs s)(i := p)\<rparr>)"
proof -
  let ?s' = "\<lparr>bmem = m, bpcs = (bpcs s)(i := p)\<rparr>" and ?a = "round_state_of s" and ?n = "unat (bcount (bmem s))"
  have at: "places ?a i = place_of (bpcs s i) (arrived_in (bmem s) i) (rounds (bmem s))"
    by (simp add: round_state_of_def)
  consider (dec) "bpcs s i = B_Dec" | (last) "bpcs s i = B_Last" | (zero) "bpcs s i = B_Unlock"
    | (serial) "bpcs s i = B_UnlockSerial"
    | (quiet) "bpcs s i \<notin> {B_Dec, B_Last, B_Unlock, B_UnlockSerial}" by blast
  then show ?thesis
  proof cases
    case last
    have "card (present s) + 1 = ?n"
      using inv last_step_places(2)[OF inv(1) last e] barrier_inv_facts(1)[OF inv(1), of i] last
      by (simp add: present_inv_def)
    with cyclic_does.completes[of ?a i ?n] at last have
      "cyclic_does ?n ?a (Enters i) (?a\<lparr>places := (\<lambda>j. if j = i then Serial
          else if places ?a j = Present then Released else places ?a j),
        completed_rounds := completed_rounds ?a + 1\<rparr>)" by simp
    moreover have "round_action_of (BStep i) s ?s' = Enters i" using e last by simp
    ultimately show ?thesis by (simp add: last_step_places(1)[OF inv(1) last e] Let_def)
  next
    case dec
    note d = dec_step[OF inv dec e]
    have out: "places ?a i = Outside" using at dec by simp
    have next_places: "round_state_of ?s' = ?a\<lparr>places := (places ?a)(i := place_of p (arrived_in m i) (rounds m))\<rparr>"
      using quiet_step_places[OF e] dec by simp
    show ?thesis
    proof (cases "left m = 0")
      case True
      have "(places ?a)(i := Outside) = places ?a" using out by (auto simp: fun_eq_iff)
      with d(4) True have "round_state_of ?s' = ?a" unfolding next_places by simp
      moreover have "round_action_of (BStep i) s ?s' = Nothing" using d(4) True by simp
      ultimately show ?thesis by (simp add: cyclic_does.nothing)
    next
      case False
      then have "0 < unat (left m)" by (simp add: unat_gt_0)
      with d(1-3) have "card (present s) + 1 < ?n" by linarith
      moreover have "round_action_of (BStep i) s ?s' = Enters i" using d(4) False dec by simp
      moreover have "place_of p (arrived_in m i) (rounds m) = Present"
        using d(4,5) False place_step_other(1)[OF e] dec by simp
      ultimately show ?thesis unfolding next_places using out by (simp add: cyclic_does.enters)
    qed
  next
    case zero
    then have "p = BReturned BZero" "places ?a i = Released" using e at by auto
    with quiet_step_places[OF e] zero show ?thesis by (simp add: cyclic_does.leaves)
  next
    case serial
    then have "p = BReturned BSerial" "places ?a i = Serial" using e at by auto
    with quiet_step_places[OF e] serial show ?thesis by (simp add: cyclic_does.leaves_serial)
  next
    case quiet
    then have "round_state_of ?s' = ?a"
      using quiet_step_places[OF e] place_step_own[OF e barrier_inv_facts(1,2)[OF inv(1)]] at
      by (simp add: fun_upd_idem)
    moreover have "round_action_of (BStep i) s ?s' = Nothing"
      using e quiet by (cases "bpcs s i") (auto split: if_splits)
    ultimately show ?thesis by (simp add: cyclic_does.nothing)
  qed
qed

lemma idle_event_places:
  assumes "barrier_next e s = Some s'" and "\<And>i. e \<noteq> BStep i"
  shows "round_state_of s' = round_state_of s" and "bcount (bmem s') = bcount (bmem s)"
    and "left (bmem s') = left (bmem s)" and "{i. bpcs s' i = B_Last} = {i. bpcs s i = B_Last}"
proof -
  have same: "arrived_in (bmem s') = arrived_in (bmem s) \<and> rounds (bmem s') = rounds (bmem s) \<and>
      bcount (bmem s') = bcount (bmem s) \<and> left (bmem s') = left (bmem s) \<and>
      (\<forall>j. (bpcs s' j = B_Last \<longleftrightarrow> bpcs s j = B_Last) \<and>
        place_of (bpcs s' j) a n = place_of (bpcs s j) a n)" for a n
    using assms by (cases e) (auto split: bpc.splits if_splits)
  then show "bcount (bmem s') = bcount (bmem s)" "left (bmem s') = left (bmem s)"
    "{i. bpcs s' i = B_Last} = {i. bpcs s i = B_Last}" by blast+
  show "round_state_of s' = round_state_of s" using same by (simp add: round_state_of_def)
qed

lemma present_inv_next:
  assumes "barrier_inv s" and "present_inv s" and "barrier_next e s = Some s'"
  shows "present_inv s'"
proof (cases "\<exists>i. e = BStep i")
  case True
  with assms(3) obtain i m p where "barrier_step i (bpcs s i) (bmem s) = Some (m, p)"
    and "s' = \<lparr>bmem = m, bpcs = (bpcs s)(i := p)\<rparr>" by (auto simp only: b_step_Some)
  with present_step[OF assms(1,2)] show ?thesis by simp
next
  case False
  then have "\<And>i. e \<noteq> BStep i" by blast
  from idle_event_places[OF assms(3) this] assms(2) show ?thesis by (simp add: present_inv_def)
qed

interpretation cyclic: safety barrier_start barrier_next "\<lambda>s. barrier_inv s \<and> present_inv s"
proof
  fix s assume start: "barrier_start s"
  then have "present_inv s"
    by (auto simp: barrier_start_def barrier_init_def barrier_failed_def barrier_new_def present_inv_def
        round_state_of_def split: if_splits)
  with barrier_inv_start[OF start] show "barrier_inv s \<and> present_inv s" ..
next
  fix s e s'
  assume "barrier_inv s \<and> present_inv s" and "barrier_next e s = Some s'"
  then show "barrier_inv s' \<and> present_inv s'" using barrier_inv_next present_inv_next by blast
qed

text \<open>
  C12: \<open>pthread_barrier_wait\<close> implements a cyclic barrier, in every interleaving and with
  spurious wake-ups: the arrivals of a round other than the last wait; the arrival that makes
  the round complete releases exactly the threads present in it; a thread returns 0 only after
  it was released, and \<open>PTHREAD_BARRIER_SERIAL_THREAD\<close> only if it completed a round; no other
  step changes anything. A thread that returned can enter the next round while others of the
  old one are still inside.
\<close>

theorem barrier_refines_cyclic:
  assumes "reach barrier_start barrier_next s" and "barrier_next e s = Some s'"
  shows "cyclic_does (unat (bcount (bmem s))) (round_state_of s) (round_action_of e s s') (round_state_of s')"
proof -
  have inv: "barrier_inv s" "present_inv s" using cyclic.reach_inv[OF assms(1)] by auto
  show ?thesis
  proof (cases "\<exists>i. e = BStep i")
    case True
    then obtain i where i: "e = BStep i" by blast
    with assms(2) obtain m p where "barrier_step i (bpcs s i) (bmem s) = Some (m, p)"
      and "s' = \<lparr>bmem = m, bpcs = (bpcs s)(i := p)\<rparr>" by (auto simp only: b_step_Some)
    with step_refines_cyclic[OF inv] i show ?thesis by blast
  next
    case False
    then have no: "\<And>i. e \<noteq> BStep i" by blast
    then have "round_action_of e s s' = Nothing" by (cases e) auto
    with idle_event_places(1)[OF assms(2) no] show ?thesis by (simp add: cyclic_does.nothing)
  qed
qed

text \<open>The thread that was woken leaves the barrier of two.\<close>

theorem barrier_refines_cyclic_witness:
  "\<exists>s'. barrier_next (BStep (Client 0)) b_state_woken = Some s' \<and>
    cyclic_does 2 (round_state_of b_state_woken) (Leaves (Client 0) BZero) (round_state_of s')"
proof -
  obtain s' where s': "barrier_next (BStep (Client 0)) b_state_woken = Some s'"
    "bpcs s' (Client 0) = BReturned BZero"
    by (simp add: b_state_woken_def)
  have "bcount (bmem b_state_woken) = 2" by (simp add: b_state_woken_def eval_barrier)
  with barrier_refines_cyclic[OF b_reach_woken s'(1)] s' show ?thesis by simp
qed

end
