(* ===== verification/SemBench.thy ===== *)
theory SemBench
  imports Semaphore BarrierSpec
begin

text \<open>
  The program \<open>bench\<close> of \<open>usem_test.c\<close>, \<open>lusem_test.c\<close> and \<open>psem_test.c\<close> under
  \<open>src/threads/test\<close>, the same in all three but for the semaphore: writers signal until all
  readers have left, readers wait until a shared counter has passed the loop count, and a
  barrier lets the writers start. It runs over any semaphore and the barrier of \<open>Barrier\<close>.
\<close>

section \<open>The program\<close>

text \<open>\<open>struct task_param\<close>, the program points of all threads, and \<open>ret\<close>, the exit status of the test.\<close>

datatype bench_pc = N_Barrier | N_InBarrier | N_Test | N_InSignal
  | R_Add | R_InWait | R_Sub
  | M_Barrier | M_InBarrier | M_JoinWriters | M_JoinReaders | M_Check | Ended

record 's bench =
  b_sem :: 's
  start_barrier :: barrier_system
  cnt_n :: size_t
  cnt_w :: size_t
  bench_pcs :: "tid \<Rightarrow> bench_pc"
  bench_ret :: int

text \<open>The threads that were created, and the arguments of \<open>bench\<close>.\<close>

record bench_args =
  main_thread :: tid
  writers :: "tid list"
  readers :: "tid list"
  loop_count :: size_t

definition b_goto :: "tid \<Rightarrow> bench_pc \<Rightarrow> 's bench \<Rightarrow> 's bench" where
  "b_goto i p s = s\<lparr>bench_pcs := (bench_pcs s)(i := p)\<rparr>"

definition enter_barrier :: "tid \<Rightarrow> bench_pc \<Rightarrow> 's bench \<Rightarrow> 's bench option" where
  "enter_barrier i p s = map_option (\<lambda>b. b_goto i p (s\<lparr>start_barrier := b\<rparr>))
     (barrier_next (BCall i) (start_barrier s))"

definition enter_sem :: "('e, 's) semaphore_ops \<Rightarrow> 'e \<Rightarrow> tid \<Rightarrow> bench_pc \<Rightarrow> 's bench \<Rightarrow> 's bench option" where
  "enter_sem S e i p s = map_option (\<lambda>x. b_goto i p (s\<lparr>b_sem := x\<rparr>)) (sem_next S e (b_sem s))"

fun barrier_left :: "bpc \<Rightarrow> bool" where
  "barrier_left (BReturned r) \<longleftrightarrow> True"
| "barrier_left _ \<longleftrightarrow> False"

definition all_ended :: "tid list \<Rightarrow> 's bench \<Rightarrow> bool" where
  "all_ended ts s = list_all (\<lambda>i. bench_pcs s i = Ended) ts"

definition after_barrier :: "tid \<Rightarrow> bench_pc \<Rightarrow> 's bench \<Rightarrow> 's bench option" where
  "after_barrier i p s = (if barrier_left (bpcs (start_barrier s) i) then Some (b_goto i p s) else None)"

definition after_sem :: "('e, 's) semaphore_ops \<Rightarrow> tid \<Rightarrow> bench_pc \<Rightarrow> 's bench \<Rightarrow> 's bench option" where
  "after_sem S i p s = (if sem_outside S (b_sem s) i then Some (b_goto i p s) else None)"

text \<open>
  \<open>notify_thread\<close>, \<open>wait_thread\<close> and the part of \<open>bench\<close> that runs once the threads exist. A
  reader's atomic increment of \<open>w\<close> and the test of the old value are one step.
\<close>

fun bench_step :: "('e, 's) semaphore_ops \<Rightarrow> bench_args \<Rightarrow> tid \<Rightarrow> bench_pc \<Rightarrow> 's bench \<Rightarrow> 's bench option" where
  "bench_step S A i N_Barrier s = enter_barrier i N_InBarrier s"
| "bench_step S A i N_InBarrier s = after_barrier i N_Test s"
| "bench_step S A i N_Test s =
     (if cnt_n s \<noteq> 0 then enter_sem S (sem_signal S i) i N_InSignal s else Some (b_goto i Ended s))"
| "bench_step S A i N_InSignal s = after_sem S i N_Test s"
| "bench_step S A i R_Add s = (let s' = s\<lparr>cnt_w := cnt_w s + 1\<rparr> in
     if cnt_w s < loop_count A then enter_sem S (sem_wait S i) i R_InWait s' else Some (b_goto i R_Sub s'))"
| "bench_step S A i R_InWait s = after_sem S i R_Add s"
| "bench_step S A i R_Sub s = Some (b_goto i Ended (s\<lparr>cnt_n := cnt_n s - 1\<rparr>))"
| "bench_step S A i M_Barrier s = enter_barrier i M_InBarrier s"
| "bench_step S A i M_InBarrier s = after_barrier i M_JoinWriters s"
| "bench_step S A i M_JoinWriters s =
     (if all_ended (writers A) s then Some (b_goto i M_JoinReaders s) else None)"
| "bench_step S A i M_JoinReaders s =
     (if all_ended (readers A) s then Some (b_goto i M_Check s) else None)"
| "bench_step S A i M_Check s = Some (b_goto i Ended
     (if cnt_w s < loop_count A \<or> loop_count A + of_nat (length (readers A)) < cnt_w s
      then s\<lparr>bench_ret := bench_ret s + 1\<rparr> else s))"
| "bench_step S A i Ended s = None"

text \<open>Threads inside the semaphore and the barrier run there; calls come from the program only.\<close>

datatype 'e bench_event = InSem 'e | InBarrier barrier_event | Go tid

fun barrier_call :: "barrier_event \<Rightarrow> bool" where
  "barrier_call (BCall i) \<longleftrightarrow> True"
| "barrier_call _ \<longleftrightarrow> False"

fun bench_next :: "('e, 's) semaphore_ops \<Rightarrow> bench_args \<Rightarrow> 'e bench_event \<Rightarrow> 's bench \<Rightarrow> 's bench option" where
  "bench_next S A (InSem e) s =
     (if sem_is_call S e then None else map_option (\<lambda>x. s\<lparr>b_sem := x\<rparr>) (sem_next S e (b_sem s)))"
| "bench_next S A (InBarrier e) s =
     (if barrier_call e then None
      else map_option (\<lambda>b. s\<lparr>start_barrier := b\<rparr>) (barrier_next e (start_barrier s)))"
| "bench_next S A (Go i) s = bench_step S A i (bench_pcs s i) s"

text \<open>After the threads were created: the assignments and the calls of \<open>bench\<close> before that.\<close>

fun first_pc :: "bench_args \<Rightarrow> tid \<Rightarrow> bench_pc" where
  "first_pc A i = (if i = main_thread A then M_Barrier else if i \<in> set (writers A) then N_Barrier
     else if i \<in> set (readers A) then R_Add else Ended)"

definition bench_start :: "('s \<Rightarrow> bool) \<Rightarrow> bench_args \<Rightarrow> 's bench \<Rightarrow> bool" where
  "bench_start start A s \<longleftrightarrow> start (b_sem s) \<and>
     (\<exists>env b. init_fields (barrier_init env False (of_nat (length (writers A)) + 1)) = Some b \<and>
        start_barrier s = barrier_new b) \<and>
     cnt_n s = of_nat (length (readers A)) \<and> cnt_w s = 0 \<and> bench_pcs s = first_pc A \<and> bench_ret s = 0"

text \<open>The threads differ, and there is at least one of each kind.\<close>

definition bench_ok :: "bench_args \<Rightarrow> bool" where
  "bench_ok A \<longleftrightarrow> distinct (main_thread A # writers A @ readers A) \<and> writers A \<noteq> [] \<and> readers A \<noteq> [] \<and>
     length (writers A) + 1 < 2 ^ 32 \<and> unat (loop_count A) + length (readers A) < 2 ^ 64"

section \<open>What the program itself guarantees\<close>

fun main_pc :: "bench_pc \<Rightarrow> bool" where
  "main_pc p \<longleftrightarrow> p \<in> {M_Barrier, M_InBarrier, M_JoinWriters, M_JoinReaders, M_Check, Ended}"

fun writer_pc :: "bench_pc \<Rightarrow> bool" where
  "writer_pc p \<longleftrightarrow> p \<in> {N_Barrier, N_InBarrier, N_Test, N_InSignal, Ended}"

fun reader_pc :: "bench_pc \<Rightarrow> bool" where
  "reader_pc p \<longleftrightarrow> p \<in> {R_Add, R_InWait, R_Sub, Ended}"

definition role_pc :: "bench_args \<Rightarrow> tid \<Rightarrow> bench_pc \<Rightarrow> bool" where
  "role_pc A i p \<longleftrightarrow> (if i = main_thread A then main_pc p else if i \<in> set (writers A) then writer_pc p
     else if i \<in> set (readers A) then reader_pc p else p = Ended)"

text \<open>The readers that have seen the counter at its limit, and those that have ended.\<close>

definition at_points :: "(bench_pc \<Rightarrow> bool) \<Rightarrow> tid list \<Rightarrow> (tid \<Rightarrow> bench_pc) \<Rightarrow> nat" where
  "at_points P ts f = length (filter (\<lambda>i. P (f i)) ts)"

definition leaving :: "bench_args \<Rightarrow> 's bench \<Rightarrow> nat" where
  "leaving A s = at_points (\<lambda>p. p = R_Sub \<or> p = Ended) (readers A) (bench_pcs s)"

definition gone :: "bench_args \<Rightarrow> 's bench \<Rightarrow> nat" where
  "gone A s = at_points (\<lambda>p. p = Ended) (readers A) (bench_pcs s)"

definition count_inv :: "bench_args \<Rightarrow> 's bench \<Rightarrow> bool" where
  "count_inv A s \<longleftrightarrow> (\<forall>i. role_pc A i (bench_pcs s i)) \<and>
     (leaving A s = 0 \<and> unat (cnt_w s) \<le> unat (loop_count A) \<or>
      unat (cnt_w s) = unat (loop_count A) + leaving A s) \<and>
     unat (cnt_n s) = length (readers A) - gone A s \<and>
     (\<forall>i \<in> set (writers A). bench_pcs s i = Ended \<longrightarrow> cnt_n s = 0) \<and>
     (bench_pcs s (main_thread A) \<in> {M_Check, Ended} \<longrightarrow> all_ended (readers A) s) \<and>
     bench_ret s = 0"

section \<open>The steps\<close>

text \<open>Where a thread goes from each program point, and what its step does to the counters.\<close>

fun next_pc :: "bench_args \<Rightarrow> 's bench \<Rightarrow> bench_pc \<Rightarrow> bench_pc" where
  "next_pc A s N_Barrier = N_InBarrier"
| "next_pc A s N_InBarrier = N_Test"
| "next_pc A s N_Test = (if cnt_n s \<noteq> 0 then N_InSignal else Ended)"
| "next_pc A s N_InSignal = N_Test"
| "next_pc A s R_Add = (if cnt_w s < loop_count A then R_InWait else R_Sub)"
| "next_pc A s R_InWait = R_Add"
| "next_pc A s R_Sub = Ended"
| "next_pc A s M_Barrier = M_InBarrier"
| "next_pc A s M_InBarrier = M_JoinWriters"
| "next_pc A s M_JoinWriters = M_JoinReaders"
| "next_pc A s M_JoinReaders = M_Check"
| "next_pc A s M_Check = Ended"
| "next_pc A s Ended = Ended"

lemmas bench_moves = b_goto_def enter_barrier_def enter_sem_def after_barrier_def after_sem_def Let_def

lemma bench_step_does:
  assumes "bench_step S A i p s = Some s'"
  shows "bench_pcs s' = (bench_pcs s)(i := next_pc A s p)" and "p \<noteq> Ended"
    and "cnt_n s' = (if p = R_Sub then cnt_n s - 1 else cnt_n s)"
    and "cnt_w s' = (if p = R_Add then cnt_w s + 1 else cnt_w s)"
    and "bench_ret s' = (if p = M_Check \<and> (cnt_w s < loop_count A \<or>
        loop_count A + of_nat (length (readers A)) < cnt_w s) then bench_ret s + 1 else bench_ret s)"
    and "p = M_JoinWriters \<Longrightarrow> all_ended (writers A) s" and "p = M_JoinReaders \<Longrightarrow> all_ended (readers A) s"
  using assms by (cases p; auto simp: bench_moves split: if_splits)+

lemma bench_other_does:
  assumes "bench_next S A e s = Some s'" and "\<And>i. e \<noteq> Go i"
  shows "bench_pcs s' = bench_pcs s" and "cnt_n s' = cnt_n s" and "cnt_w s' = cnt_w s" and "bench_ret s' = bench_ret s"
  using assms by (cases e; auto split: if_splits)+

lemma role_next: "role_pc A i p \<Longrightarrow> role_pc A i (next_pc A s p)"
  by (cases p) (auto simp: role_pc_def split: if_splits)

lemma role_of:
  assumes "role_pc A i p" and "p \<noteq> Ended"
  shows "main_pc p \<Longrightarrow> i = main_thread A" and "writer_pc p \<Longrightarrow> i \<in> set (writers A)"
    and "reader_pc p \<Longrightarrow> i \<in> set (readers A)"
  using assms by (cases p; auto simp: role_pc_def split: if_splits)+

text \<open>How the number of threads at certain program points changes when one thread moves.\<close>

lemma at_points_other: "i \<notin> set ts \<Longrightarrow> at_points P ts (f(i := p)) = at_points P ts f"
  unfolding at_points_def by (rule arg_cong[where f = length], rule filter_cong) auto

lemma at_points_Cons: "at_points P (j # ts) f = of_bool (P (f j)) + at_points P ts f"
  by (simp add: at_points_def)

lemma at_points_upd:
  "distinct ts \<Longrightarrow>
    at_points P ts (f(i := p)) + of_bool (i \<in> set ts \<and> P (f i)) = at_points P ts f + of_bool (i \<in> set ts \<and> P p)"
  by (induction ts) (auto simp: at_points_Cons at_points_other)

lemma at_points_le: "at_points P ts f \<le> length ts"
  by (simp add: at_points_def)

lemma at_points_all: "at_points P ts f = length ts \<longleftrightarrow> (\<forall>i \<in> set ts. P (f i))"
proof (induction ts)
  case (Cons j ts)
  then show ?case using at_points_le[of P ts f] by (auto simp: at_points_Cons)
qed (simp add: at_points_def)

lemma at_points_less: "i \<in> set ts \<Longrightarrow> \<not> P (f i) \<Longrightarrow> at_points P ts f < length ts"
  using at_points_all[of P ts f] at_points_le[of P ts f] by fastforce

section \<open>The counters\<close>

lemma gone_less: "i \<in> set (readers A) \<Longrightarrow> bench_pcs s i \<noteq> Ended \<Longrightarrow> gone A s < length (readers A)"
  unfolding gone_def by (rule at_points_less)

lemma count_inv_step:
  assumes ok: "bench_ok A" and inv: "count_inv A s" and e: "bench_step S A i (bench_pcs s i) s = Some s'"
  shows "count_inv A s'"
proof -
  let ?p = "bench_pcs s i" and ?q = "next_pc A s (bench_pcs s i)"
  note d = bench_step_does[OF e]
  have role: "role_pc A j (bench_pcs s j)" for j using inv by (simp add: count_inv_def)
  note mine = role_of[OF role d(2)]
  have dist: "distinct (readers A)" using ok by (simp add: bench_ok_def)
  have bound: "leaving A s' \<le> length (readers A)" unfolding leaving_def by (rule at_points_le)
  have n: "unat (cnt_n s) = length (readers A) - gone A s" and w: "leaving A s = 0 \<and> unat (cnt_w s) \<le> unat (loop_count A) \<or>
      unat (cnt_w s) = unat (loop_count A) + leaving A s"
    and small: "unat (loop_count A) + length (readers A) < 2 ^ 64"
    using inv ok unfolding count_inv_def bench_ok_def by blast+
  have reader: "i \<in> set (readers A) \<longleftrightarrow> reader_pc ?p"
  proof
    assume "i \<in> set (readers A)"
    with ok have "i \<noteq> main_thread A" "i \<notin> set (writers A)" by (auto simp: bench_ok_def)
    with role[of i] \<open>i \<in> set (readers A)\<close> show "reader_pc ?p" by (simp only: role_pc_def if_False if_True)
  qed (rule mine(3))
  have gone': "gone A s' = gone A s + of_bool (?p = R_Sub)"
    using at_points_upd[OF dist, of "\<lambda>p. p = Ended" "bench_pcs s" i ?q] d(1,2)
    by (cases ?p) (auto simp: gone_def reader)
  have leaving': "leaving A s' = leaving A s + of_bool (?p = R_Add \<and> \<not> cnt_w s < loop_count A)"
    using at_points_upd[OF dist, of "\<lambda>p. p = R_Sub \<or> p = Ended" "bench_pcs s" i ?q] d(1,2)
    by (cases ?p) (auto simp: leaving_def reader)
  have "role_pc A j (bench_pcs s' j)" for j
    using role[of j] role_next[OF role[of i], of s] by (cases "j = i") (simp_all add: d(1))
  moreover have "leaving A s' = 0 \<and> unat (cnt_w s') \<le> unat (loop_count A) \<or>
      unat (cnt_w s') = unat (loop_count A) + leaving A s'"
  proof (cases "?p = R_Add")
    case True
    have "0 < length (readers A)" using ok by (simp add: bench_ok_def)
    then have "unat (cnt_w s) + 1 < 2 ^ 64" using w small bound leaving' True
      by (cases "cnt_w s < loop_count A") (simp_all add: word_less_nat_alt, linarith+)
    then have "unat (cnt_w s + 1) = unat (cnt_w s) + 1" by (simp add: unat_word_ariths)
    with True w leaving' d(4) show ?thesis by (auto simp: word_less_nat_alt)
  qed (use w leaving' d(4) in simp)
  moreover have n': "unat (cnt_n s') = length (readers A) - gone A s'"
  proof (cases "?p = R_Sub")
    case True
    then have "gone A s < length (readers A)" using reader by (intro gone_less) auto
    with True n gone' d(3) show ?thesis by (simp add: unat_minus_one unat_eq_zero[symmetric])
  qed (use n gone' d(3) in simp)
  moreover have "cnt_n s' = 0" if "j \<in> set (writers A)" and "bench_pcs s' j = Ended" for j
  proof -
    have "cnt_n s = 0"
    proof (cases "j = i")
      case True
      with that mine d(1,2) ok role[of i] show ?thesis
        by (cases ?p) (auto simp: bench_ok_def role_pc_def split: if_splits)
    next
      case False
      with that d(1) inv show ?thesis by (auto simp: count_inv_def)
    qed
    moreover have "gone A s \<le> gone A s'" using gone' by simp
    ultimately have "unat (cnt_n s') = 0" using n n' by simp
    then show ?thesis by (simp add: unat_eq_zero)
  qed
  moreover have "all_ended (readers A) s'" if "bench_pcs s' (main_thread A) \<in> {M_Check, Ended}"
  proof -
    have "all_ended (readers A) s"
    proof (cases "main_thread A = i")
      case True
      with that d(1,2,7) role[of i] inv show ?thesis
        by (cases ?p) (auto simp: role_pc_def count_inv_def)
    next
      case False
      with that d(1) inv show ?thesis by (auto simp: count_inv_def)
    qed
    with d(1,2) show ?thesis by (auto simp: all_ended_def list_all_iff)
  qed
  moreover have "bench_ret s' = 0"
  proof (cases "?p = M_Check")
    case True
    then have "main_thread A = i" using mine by simp
    with True inv have "all_ended (readers A) s" by (simp add: count_inv_def)
    then have "leaving A s = length (readers A)"
      unfolding leaving_def at_points_all by (auto simp: all_ended_def list_all_iff)
    moreover have "readers A \<noteq> []" using ok by (simp add: bench_ok_def)
    ultimately have "unat (cnt_w s) = unat (loop_count A) + length (readers A)" using w by auto
    moreover have "unat (loop_count A + of_nat (length (readers A))) = unat (loop_count A) + length (readers A)"
      using small by (simp add: unat_word_ariths unsigned_of_nat take_bit_nat_eq_self)
    ultimately show ?thesis using inv d(5) by (auto simp: count_inv_def word_less_nat_alt)
  qed (use d(5) inv in \<open>simp add: count_inv_def\<close>)
  ultimately show ?thesis unfolding count_inv_def by blast
qed

lemma count_inv_start:
  assumes ok: "bench_ok A" and start: "bench_start start A s"
  shows "count_inv A s"
proof -
  have pcs: "bench_pcs s = first_pc A" and n: "cnt_n s = of_nat (length (readers A))"
    and "cnt_w s = 0" "bench_ret s = 0" using start by (simp_all add: bench_start_def)
  have reader: "bench_pcs s i = R_Add" if "i \<in> set (readers A)" for i
    using ok that by (auto simp: pcs bench_ok_def)
  then have "leaving A s = 0" "gone A s = 0"
    by (simp_all add: leaving_def gone_def at_points_def filter_empty_conv)
  moreover have "unat (cnt_n s) = length (readers A)"
    using ok by (simp add: n bench_ok_def unsigned_of_nat take_bit_nat_eq_self)
  moreover have "role_pc A i (bench_pcs s i)" for i by (simp add: pcs role_pc_def)
  ultimately show ?thesis
    using \<open>cnt_w s = 0\<close> \<open>bench_ret s = 0\<close> by (simp add: count_inv_def pcs)
qed

lemma count_inv_next:
  assumes "bench_ok A" and inv: "count_inv A s" and e: "bench_next S A e s = Some s'"
  shows "count_inv A s'"
proof (cases "\<exists>i. e = Go i")
  case True
  with e count_inv_step[OF assms(1,2)] show ?thesis by auto
next
  case False
  then have "\<And>i. e \<noteq> Go i" by blast
  from bench_other_does[OF e this] inv show ?thesis
    by (simp add: count_inv_def leaving_def gone_def all_ended_def)
qed

interpretation bench_counts: safety "bench_start start A" "bench_next S A" "\<lambda>s. bench_ok A \<longrightarrow> count_inv A s"
  by unfold_locales (auto intro: count_inv_start count_inv_next)

lemma bench_done:
  assumes "bench_ok A" and inv: "count_inv A s" and main: "bench_pcs s (main_thread A) = Ended"
  shows "unat (cnt_w s) = unat (loop_count A) + length (readers A) \<and> cnt_n s = 0"
proof -
  have "all_ended (readers A) s" using inv main by (simp add: count_inv_def)
  then have "leaving A s = length (readers A)" "gone A s = length (readers A)"
    unfolding leaving_def gone_def at_points_all by (auto simp: all_ended_def list_all_iff)
  moreover have "readers A \<noteq> []" using assms(1) by (simp add: bench_ok_def)
  ultimately show ?thesis using inv by (auto simp: count_inv_def unat_eq_zero)
qed

end
