(* ===== verification/SemRest.thy ===== *)
theory SemRest
  imports SemBench
begin

text \<open>
  The benchmark of the semaphore tests cannot deadlock, over any semaphore that keeps the
  promises of the locale \<open>semaphore\<close>: when no thread can make a step, all of them have ended.
\<close>

section \<open>What a step does to the semaphore and the barrier\<close>

lemma bench_sem_effect:
  assumes "bench_next S A e s = Some s'"
  obtains (same) "b_sem s' = b_sem s"
      "\<And>i. e = Go i \<Longrightarrow> bench_pcs s' i \<notin> {N_InSignal, R_InWait}"
      "\<And>i. e = Go i \<Longrightarrow> bench_pcs s i \<in> {N_InSignal, R_InWait} \<Longrightarrow> sem_outside S (b_sem s) i"
  | (inside) x where "e = InSem x" "sem_next S x (b_sem s) = Some (b_sem s')" "\<not> sem_is_call S x"
  | (signals) i where "e = Go i" "sem_next S (sem_signal S i) (b_sem s) = Some (b_sem s')"
      "bench_pcs s i = N_Test" "bench_pcs s' i = N_InSignal"
  | (waits) i where "e = Go i" "sem_next S (sem_wait S i) (b_sem s) = Some (b_sem s')"
      "bench_pcs s i = R_Add" "bench_pcs s' i = R_InWait"
proof (cases e)
  case (Go i)
  with assms that(1,3,4) show ?thesis
    by (cases "bench_pcs s i") (auto simp: bench_moves split: if_splits)
qed (use assms that(1,2) in \<open>auto split: if_splits\<close>)

lemma bench_barrier_effect:
  assumes "bench_next S A e s = Some s'"
  obtains (same) "start_barrier s' = start_barrier s"
      "\<And>i. e = Go i \<Longrightarrow> bench_pcs s i \<notin> {N_Barrier, M_Barrier} \<and>
        bench_pcs s' i \<notin> {N_Barrier, M_Barrier, N_InBarrier, M_InBarrier}"
      "\<And>i. e = Go i \<Longrightarrow> bench_pcs s i \<in> {N_InBarrier, M_InBarrier} \<Longrightarrow> barrier_left (bpcs (start_barrier s) i)"
  | (inside) x where "e = InBarrier x" "barrier_next x (start_barrier s) = Some (start_barrier s')" "\<not> barrier_call x"
  | (enters) i where "e = Go i" "barrier_next (BCall i) (start_barrier s) = Some (start_barrier s')"
      "bench_pcs s i \<in> {N_Barrier, M_Barrier}" "bench_pcs s' i \<in> {N_InBarrier, M_InBarrier}"
proof (cases e)
  case (Go i)
  with assms that(1,3) show ?thesis
    by (cases "bench_pcs s i") (auto simp: bench_moves simp del: barrier_next.simps split: if_splits)
qed (use assms that(1,2) in \<open>auto simp del: barrier_next.simps split: if_splits\<close>)

lemma bench_pcs_kept:
  assumes "bench_next S A e s = Some s'" and "e \<noteq> Go i"
  shows "bench_pcs s' i = bench_pcs s i"
proof (cases "\<exists>j. e = Go j")
  case True
  then obtain j where j: "e = Go j" by blast
  with assms have "bench_step S A j (bench_pcs s j) s = Some s'" by simp
  from bench_step_does(1)[OF this] j assms(2) show ?thesis by auto
next
  case False
  then have "\<And>j. e \<noteq> Go j" by blast
  from bench_other_does(1)[OF assms(1) this] show ?thesis by simp
qed

section \<open>The barrier of the benchmark\<close>

text \<open>Those the barrier still waits for: they have not called it, or not yet counted themselves.\<close>

definition unarrived :: "'s bench \<Rightarrow> tid set" where
  "unarrived s = {i. bench_pcs s i \<in> {N_Barrier, M_Barrier} \<or> bpcs (start_barrier s) i \<in> {B_Lock, B_Dec}}"

definition parties_inv :: "bench_args \<Rightarrow> 's bench \<Rightarrow> bool" where
  "parties_inv A s \<longleftrightarrow> barrier_inv (start_barrier s) \<and> present_inv (start_barrier s) \<and>
     unat (bcount (bmem (start_barrier s))) = length (writers A) + 1 \<and>
     arrivals (bmem (start_barrier s)) + card (unarrived s) = length (writers A) + 1 \<and>
     (\<forall>i. bench_pcs s i \<notin> {N_InBarrier, M_InBarrier} \<longrightarrow> barrier_left (bpcs (start_barrier s) i))"

lemma parties_start:
  assumes ok: "bench_ok A" and start: "bench_start start A s"
  shows "parties_inv A s"
proof -
  obtain env b where b: "init_fields (barrier_init env False (of_nat (length (writers A)) + 1)) = Some b"
    and s: "start_barrier s = barrier_new b" using start by (auto simp: bench_start_def)
  then have "barrier_start (start_barrier s)" by (auto simp: barrier_start_def)
  then have "barrier_inv (start_barrier s) \<and> present_inv (start_barrier s)" by (rule cyclic.inv_init)
  moreover have "count_field b = of_nat (length (writers A)) + 1"
    using b by (auto simp: barrier_init_def barrier_failed_def split: if_splits)
  then have "unat (bcount (bmem (start_barrier s))) = length (writers A) + 1"
  proof -
    have "unat (of_nat (length (writers A) + 1) :: uint) = length (writers A) + 1"
      using ok by (simp add: bench_ok_def unsigned_of_nat take_bit_nat_eq_self del: of_nat_Suc of_nat_add)
    with \<open>count_field b = _\<close> show ?thesis by (simp add: s barrier_new_def add.commute)
  qed
  moreover have "unarrived s = set (main_thread A # writers A)"
    using start ok by (auto simp: unarrived_def bench_start_def s barrier_new_def bench_ok_def split: if_splits)
  then have "card (unarrived s) = length (writers A) + 1"
    using ok distinct_card[of "main_thread A # writers A"] by (auto simp: bench_ok_def)
  ultimately show ?thesis by (simp add: parties_inv_def s barrier_new_def)
qed

text \<open>What one event of the barrier does to a thread and to the arrivals.\<close>

lemma barrier_step_arrives:
  assumes "barrier_step i p m = Some (m', p')"
  shows "arrivals m' = arrivals m + of_bool (p = B_Dec)" and "bcount m' = bcount m"
    and "p' \<in> {B_Lock, B_Dec} \<longleftrightarrow> p = B_Lock" and "\<not> barrier_left p"
  using assms by (cases p; auto simp: block_on_def split: if_splits)+

lemma parties_inside:
  assumes inv: "parties_inv A s" and x: "barrier_next x (start_barrier s) = Some b" and call: "\<not> barrier_call x"
  shows "parties_inv A (s\<lparr>start_barrier := b\<rparr>)"
proof -
  let ?b = "start_barrier s" and ?s' = "s\<lparr>start_barrier := b\<rparr>"
  have keeps: "barrier_inv b" "present_inv b"
    using inv x cyclic.inv_next[of ?b x b] by (simp_all add: parties_inv_def)
  have "bcount (bmem b) = bcount (bmem ?b) \<and> arrivals (bmem b) + card (unarrived ?s') = arrivals (bmem ?b) + card (unarrived s) \<and>
    (\<forall>i. barrier_left (bpcs ?b i) \<longrightarrow> barrier_left (bpcs b i))"
  proof (cases x)
    case (BStep i)
    with x obtain m p where e: "barrier_step i (bpcs ?b i) (bmem ?b) = Some (m, p)"
      and b: "b = \<lparr>bmem = m, bpcs = (bpcs ?b)(i := p)\<rparr>" by (auto simp only: b_step_Some)
    note d = barrier_step_arrives[OF e]
    have "bench_pcs s i \<in> {N_InBarrier, M_InBarrier}" using inv d(4) unfolding parties_inv_def by blast
    then have "unarrived ?s' = (if bpcs ?b i = B_Dec then unarrived s - {i} else unarrived s)"
      using d(3) by (auto simp: unarrived_def b)
    moreover have "bpcs ?b i = B_Dec \<Longrightarrow> i \<in> unarrived s" by (simp add: unarrived_def)
    ultimately have "arrivals m + card (unarrived ?s') = arrivals (bmem ?b) + card (unarrived s)"
      using d(1) card_Suc_Diff1[of "unarrived s" i] by auto
    with d(2,4) show ?thesis by (auto simp: b)
  next
    case (BSpurious i)
    with x show ?thesis by (auto simp: unarrived_def split: if_splits)
  qed (use call in simp)
  with inv keeps show ?thesis by (simp add: parties_inv_def)
qed

lemma parties_next:
  assumes inv: "parties_inv A s" and e: "bench_next S A e s = Some s'"
  shows "parties_inv A s'"
  using e
proof (cases rule: bench_barrier_effect)
  case same
  have "i \<in> unarrived s' \<longleftrightarrow> i \<in> unarrived s" for i
    using same bench_pcs_kept[OF e, of i] by (cases "e = Go i") (auto simp: unarrived_def)
  then have "unarrived s' = unarrived s" by blast
  moreover have "barrier_left (bpcs (start_barrier s) i)" if "bench_pcs s' i \<notin> {N_InBarrier, M_InBarrier}" for i
    using that same(2,3) inv bench_pcs_kept[OF e, of i] by (cases "e = Go i") (auto simp: parties_inv_def)
  ultimately show ?thesis using inv same(1) by (simp add: parties_inv_def)
next
  case (inside x)
  from parties_inside[OF inv inside(2,3)] show ?thesis
    using bench_other_does(1)[OF e] inside(1) by (simp add: parties_inv_def unarrived_def)
next
  case (enters i)
  let ?b = "start_barrier s"
  obtain r where r: "bpcs ?b i = BReturned r" and b: "start_barrier s' = ?b\<lparr>bpcs := (bpcs ?b)(i := B_Lock)\<rparr>"
    using enters(2) by (auto simp only: b_call_Some)
  have "barrier_inv (start_barrier s') \<and> present_inv (start_barrier s')"
    using cyclic.inv_next[OF _ enters(2)] inv unfolding parties_inv_def by blast
  moreover have "j \<in> unarrived s' \<longleftrightarrow> j \<in> unarrived s" for j
    using enters(1,3) bench_pcs_kept[OF e, of j] by (cases "j = i") (auto simp: unarrived_def b)
  then have "unarrived s' = unarrived s" by blast
  moreover have "barrier_left (bpcs (start_barrier s') j)" if "bench_pcs s' j \<notin> {N_InBarrier, M_InBarrier}" for j
    using that enters(1,4) inv bench_pcs_kept[OF e, of j] by (cases "j = i") (auto simp: parties_inv_def b)
  ultimately show ?thesis using inv by (simp add: parties_inv_def b)
qed

text \<open>When nothing can move in the barrier and all parties have called it, nobody is inside.\<close>

lemma holder_moves: "b_holds p \<Longrightarrow> barrier_step i p m \<noteq> None"
  by (cases p) auto

lemma barrier_rest:
  assumes inv: "barrier_inv b" and rest: "\<And>i. barrier_next (BStep i) b = None"
  shows "bmutex (bmem b) = None" and "barrier_left (bpcs b i) \<or> (\<exists>r. bpcs b i = B_Blocked r \<and> i \<in> bcond (bmem b))"
proof -
  have stuck: "barrier_step j (bpcs b j) (bmem b) = None" for j
    using rest[of j] by (cases "barrier_step j (bpcs b j) (bmem b)") auto
  show free: "bmutex (bmem b) = None"
    using stuck holder_moves barrier_inv_facts(3)[OF inv] by (metis not_None_eq)
  with stuck[of i] show "barrier_left (bpcs b i) \<or> (\<exists>r. bpcs b i = B_Blocked r \<and> i \<in> bcond (bmem b))"
    by (cases "bpcs b i") (auto split: if_splits)
qed

lemma full_barrier_empties:
  assumes inv: "barrier_inv b" "present_inv b" and rest: "\<And>i. barrier_next (BStep i) b = None"
    and full: "arrivals (bmem b) = unat (bcount (bmem b))"
  shows "barrier_left (bpcs b i)"
proof (rule ccontr)
  let ?m = "bmem b"
  assume "\<not> barrier_left (bpcs b i)"
  with barrier_rest[OF inv(1) rest] obtain r where r: "bpcs b i = B_Blocked r" and blocked: "i \<in> bcond ?m"
    and free: "bmutex ?m = None" by blast
  have c: "b_count_inv ?m" and k: "b_knows i (B_Blocked r) ?m"
    using barrier_inv_facts(1,2)[OF inv(1)] r by (metis, metis)
  have "left ?m \<noteq> 0" using inv(1) free by (simp add: barrier_inv_def b_lock_inv_def)
  then have pos: "0 < unat (left ?m)" by (simp add: unat_gt_0)
  have left: "unat (left ?m) = rounds ?m * unat (bcount ?m)" "unat (left ?m) \<le> unat (bcount ?m)"
    using c full by (auto simp: b_count_inv_def)
  with pos have one: "rounds ?m = 1" by (cases "rounds ?m") auto
  with left inv(2) have "card (present b) = 0" by (simp add: present_inv_def)
  then have "i \<notin> present b" by auto
  then have "arrived_in ?m i \<noteq> 1" using r one by (auto simp: round_state_of_def)
  with k one have "r = 0" by (cases "arrived_in ?m i") auto
  moreover have "round ?m = 1" using c one by (simp add: b_count_inv_def)
  moreover have "bpcs b j \<noteq> B_Broadcast" for j
    using barrier_inv_facts(3)[OF inv(1), of j] free by auto
  ultimately show False using inv(1) blocked r by (fastforce simp: barrier_inv_def b_cond_inv_def)
qed

section \<open>Over a semaphore\<close>

text \<open>What each thread does in the semaphore agrees with its program point.\<close>

definition users_inv :: "('e, 's) semaphore_ops \<Rightarrow> ('s \<Rightarrow> tid \<Rightarrow> bool) \<Rightarrow> 's bench \<Rightarrow> bool" where
  "users_inv S waits s \<longleftrightarrow>
     (\<forall>i. bench_pcs s i \<notin> {N_InSignal, R_InWait} \<longrightarrow> sem_outside S (b_sem s) i) \<and>
     (\<forall>i. bench_pcs s i = N_InSignal \<longrightarrow> \<not> waits (b_sem s) i)"

text \<open>Nobody can move: not in the program, not in the semaphore, not in the barrier.\<close>

definition bench_rest :: "('e, 's) semaphore_ops \<Rightarrow> bench_args \<Rightarrow> 's bench \<Rightarrow> bool" where
  "bench_rest S A s \<longleftrightarrow> (\<forall>i. bench_next S A (Go i) s = None) \<and>
     (\<forall>e. sem_is_step S e \<longrightarrow> bench_next S A (InSem e) s = None) \<and>
     (\<forall>i. bench_next S A (InBarrier (BStep i)) s = None)"

context semaphore
begin

lemma users_next:
  assumes inv: "users_inv S waits s" and e: "bench_next S A e s = Some s'"
  shows "users_inv S waits s'"
proof -
  have out: "sem_outside S (b_sem s) i" if "bench_pcs s i \<notin> {N_InSignal, R_InWait}" for i
    using inv that by (simp add: users_inv_def)
  have idle: "\<not> waits (b_sem s) i" if "bench_pcs s i \<noteq> R_InWait" for i
    using inv that outside_active[OF out, of i] by (cases "bench_pcs s i = N_InSignal") (auto simp: users_inv_def)
  note kept = bench_pcs_kept[OF e]
  show ?thesis
    using e
  proof (cases rule: bench_sem_effect)
    case same
    have "sem_outside S (b_sem s) i" if "bench_pcs s' i \<notin> {N_InSignal, R_InWait}" for i
      using that same(3) out[of i] kept[of i] by (cases "e = Go i") auto
    moreover have "\<not> waits (b_sem s) i" if "bench_pcs s' i = N_InSignal" for i
      using that same(2) idle[of i] kept[of i] by (cases "e = Go i") auto
    ultimately show ?thesis by (simp add: users_inv_def same(1))
  next
    case (inside x)
    with kept have "bench_pcs s' = bench_pcs s" by auto
    with stays_outside[OF inside(2)] stays_active[OF inside(2)] inside(3) out idle show ?thesis
      by (simp add: users_inv_def)
  next
    case (signals i)
    have "sem_outside S (b_sem s') j" if "bench_pcs s' j \<notin> {N_InSignal, R_InWait}" for j
      using that others_stay_outside(1)[OF signals(2)] out[of j] kept[of j] signals(1,4) by (cases "j = i") auto
    moreover have "\<not> waits (b_sem s') j" if "bench_pcs s' j = N_InSignal" for j
      using that others_stay_active(1)[OF signals(2)] idle[of j] kept[of j] signals(1,3) by (cases "j = i") auto
    ultimately show ?thesis by (simp add: users_inv_def)
  next
    case (waits i)
    have "sem_outside S (b_sem s') j" if "bench_pcs s' j \<notin> {N_InSignal, R_InWait}" for j
      using that others_stay_outside(2)[OF waits(2)] out[of j] kept[of j] waits(1,4) by (cases "j = i") auto
    moreover have "\<not> waits (b_sem s') j" if "bench_pcs s' j = N_InSignal" for j
      using that others_stay_active(2)[OF waits(2)] idle[of j] kept[of j] waits(1,4) by (cases "j = i") auto
    ultimately show ?thesis by (simp add: users_inv_def)
  qed
qed

lemma sem_inv_next:
  assumes "inv (b_sem s)" and e: "bench_next S A e s = Some s'"
  shows "inv (b_sem s')"
  using e by (cases rule: bench_sem_effect) (use assms(1) next_inv in \<open>auto\<close>)

lemma users_start: "bench_start start A s \<Longrightarrow> inv (b_sem s) \<and> users_inv S waits s"
  by (auto simp: bench_start_def users_inv_def start_inv start_outside intro!: outside_active)

lemma bench_reach:
  assumes "bench_ok A" and "reach (bench_start start A) (bench_next S A) s"
  shows "count_inv A s \<and> parties_inv A s \<and> inv (b_sem s) \<and> users_inv S waits s"
  using assms(2)
proof (induction rule: reach.induct)
  case (reach_init s)
  with assms(1) show ?case by (simp add: count_inv_start parties_start users_start)
next
  case (reach_step s e s')
  with assms(1) show ?case
    using count_inv_next parties_next sem_inv_next users_next by blast
qed

lemma rest_facts:
  assumes rest: "bench_rest S A s"
  shows "bench_step S A i (bench_pcs s i) s = None" and "barrier_next (BStep i) (start_barrier s) = None"
    and "inv (b_sem s) \<Longrightarrow> sem_outside S (b_sem s) i \<or> waits (b_sem s) i"
proof -
  show "bench_step S A i (bench_pcs s i) s = None" using rest by (simp add: bench_rest_def)
  have "bench_next S A (InBarrier (BStep i)) s = None" using rest unfolding bench_rest_def by blast
  then show "barrier_next (BStep i) (start_barrier s) = None" by (simp del: barrier_next.simps)
  have "sem_next S e (b_sem s) = None" if "sem_is_step S e" for e
    using rest that step_not_call[OF that] by (auto simp: bench_rest_def)
  from rests[OF _ this] show "inv (b_sem s) \<Longrightarrow> sem_outside S (b_sem s) i \<or> waits (b_sem s) i" .
qed

lemma rest_leaves_barrier:
  assumes inv: "parties_inv A s" and rest: "bench_rest S A s"
  shows "bench_pcs s i \<notin> {N_Barrier, M_Barrier, N_InBarrier, M_InBarrier}"
proof -
  let ?b = "start_barrier s"
  note b = rest_facts(2)[OF rest]
  have binv: "barrier_inv ?b" "present_inv ?b" using inv by (simp_all add: parties_inv_def)
  have before: "bench_pcs s j \<notin> {N_Barrier, M_Barrier}" for j
  proof
    assume at: "bench_pcs s j \<in> {N_Barrier, M_Barrier}"
    then have "bench_pcs s j \<notin> {N_InBarrier, M_InBarrier}" by auto
    then have "barrier_left (bpcs ?b j)" using inv unfolding parties_inv_def by blast
    with at rest_facts(1)[OF rest, of j] show False
      by (cases "bpcs ?b j") (auto simp: enter_barrier_def)
  qed
  have "j \<notin> unarrived s" for j
    using before[of j] barrier_rest(2)[OF binv(1) b, of j] by (auto simp: unarrived_def)
  then have "unarrived s = {}" by blast
  then have "arrivals (bmem ?b) = unat (bcount (bmem ?b))" using inv by (simp add: parties_inv_def)
  from full_barrier_empties[OF binv b this] have "barrier_left (bpcs ?b i)" .
  with before[of i] rest_facts(1)[OF rest, of i] show ?thesis by (auto simp: after_barrier_def)
qed

lemma rest_writer_ended:
  assumes inv: "parties_inv A s" "users_inv S waits s" "inv (b_sem s)" and rest: "bench_rest S A s"
    and p: "writer_pc (bench_pcs s i)"
  shows "bench_pcs s i = Ended"
proof -
  note stuck = rest_facts(1)[OF rest, of i]
  have "bench_pcs s i \<noteq> N_InSignal"
    using stuck inv(2) rest_facts(3)[OF rest inv(3), of i] by (auto simp: users_inv_def after_sem_def)
  moreover have "bench_pcs s i \<noteq> N_Test"
  proof
    assume at: "bench_pcs s i = N_Test"
    then have "sem_outside S (b_sem s) i" using inv(2) by (simp add: users_inv_def)
    from can_signal[OF this] at stuck show False by (auto simp: enter_sem_def split: if_splits)
  qed
  ultimately show ?thesis using p rest_leaves_barrier[OF inv(1) rest, of i] by auto
qed

text \<open>
  At rest the barrier is empty, so the writers have ended; they end only when every reader has;
  and then the main thread has joined them all.
\<close>

lemma rest_ended:
  assumes ok: "bench_ok A" and inv: "count_inv A s" "parties_inv A s" "users_inv S waits s" "inv (b_sem s)"
    and rest: "bench_rest S A s"
  shows "bench_pcs s i = Ended"
proof -
  have role: "role_pc A j (bench_pcs s j)" for j using inv(1) by (simp add: count_inv_def)
  have writers: "bench_pcs s j = Ended" if "j \<in> set (writers A)" for j
  proof (rule rest_writer_ended[OF inv(2-4) rest])
    have "j \<noteq> main_thread A" using ok that by (auto simp: bench_ok_def)
    with role[of j] that show "writer_pc (bench_pcs s j)" by (simp only: role_pc_def if_False if_True)
  qed
  have "writers A \<noteq> []" using ok by (simp add: bench_ok_def)
  then obtain w where w: "w \<in> set (writers A)" by fastforce
  with writers[OF w] inv(1) have "cnt_n s = 0" and n: "unat (cnt_n s) = length (readers A) - gone A s"
    unfolding count_inv_def by blast+
  moreover have "gone A s \<le> length (readers A)" unfolding gone_def by (rule at_points_le)
  ultimately have "gone A s = length (readers A)" by simp
  then have readers: "bench_pcs s j = Ended" if "j \<in> set (readers A)" for j
    using that unfolding gone_def at_points_all by blast
  have "all_ended (writers A) s" "all_ended (readers A) s"
    using writers readers by (simp_all add: all_ended_def list_all_iff)
  with role[of "main_thread A"] rest_facts(1)[OF rest, of "main_thread A"]
    rest_leaves_barrier[OF inv(2) rest, of "main_thread A"]
  have "bench_pcs s (main_thread A) = Ended" by (auto simp: role_pc_def)
  with writers readers role[of i] show ?thesis by (auto simp: role_pc_def split: if_splits)
qed

end

end
