(* ===== verification/Lusem.thy ===== *)
theory Lusem
  imports Usem
begin

text \<open>
  The lightweight semaphore of \<open>include/threads/lusem.h\<close> and \<open>src/threads/lusem.c\<close>: a count
  that threads change with atomic operations, and a kernel semaphore for those that must
  block. Every function is a step function over its own program points, one step per atomic
  operation or semaphore call; any thread may run between two steps.
\<close>

section \<open>State\<close>

text \<open>
  \<open>lusem_t\<close> with the value of its kernel semaphore. The last fields are history: the
  initial count, the waits that returned 0, and the sum of the counts signalled.
\<close>

record lusem =
  m_count :: int
  sem_value :: nat
  max_spins :: int
  initial :: nat
  acquired :: nat
  signalled :: nat

text \<open>
  \<open>lusem_init\<close> gives the \<open>unsigned\<close> initial count to both the count and the kernel semaphore.
  \<open>lusem_destroy\<close> destroys the kernel semaphore.
\<close>

definition lusem_init :: "32 word \<Rightarrow> int \<Rightarrow> errno + lusem" where
  "lusem_init initial_count spins = (case usem_init initial_count of
       Inl e \<Rightarrow> Inl e
     | Inr v \<Rightarrow> Inr \<lparr>m_count = uint initial_count, sem_value = v, max_spins = spins,
         initial = unat initial_count, acquired = 0, signalled = 0\<rparr>)"

definition lusem_destroy :: "int \<Rightarrow> int" where
  "lusem_destroy sem_destroy_rc = usem_destroy sem_destroy_rc"

type_synonym 'p lus_outcome = "(lusem \<times> ('p + ret)) option"

definition take_unit :: "lusem \<Rightarrow> lusem" where
  "take_unit s = s\<lparr>m_count := ssize (m_count s - 1), acquired := acquired s + 1\<rparr>"

definition sem_take :: "lusem \<Rightarrow> lusem" where
  "sem_take s = s\<lparr>sem_value := sem_value s - 1, acquired := acquired s + 1\<rparr>"

section \<open>Waiting\<close>

text \<open>
  \<open>lusem_try_wait\<close>, alone or at the start of a wait with the given timeout. The exchange of
  line 35 is weak: the argument \<open>v\<close> lets it fail although the count is the expected one.
\<close>

datatype after = ReturnFailure | PartSpin "64 word"

datatype ypc = Y_Load after | Y_Test after int | Y_Cas after int

datatype ppc = P_Spin "64 word" int | P_Load "64 word" int | P_Cas "64 word" int int
  | P_Sub "64 word" | P_Block "64 word" | P_Load2 | P_Try int | P_Cas2 int

datatype gpc = G_Add int | G_Post int | G_Inc | G_PostOne

datatype lpc = Trying ypc | Spinning ppc | Signalling gpc | LReturned ret

fun try_wait_step :: "bool \<Rightarrow> ypc \<Rightarrow> lusem \<Rightarrow> lpc lus_outcome" where
  "try_wait_step v (Y_Load a) s = Some (s, Inl (Trying (Y_Test a (m_count s))))"
| "try_wait_step v (Y_Test a old) s = Some (s,
     if 0 < old then Inl (Trying (Y_Cas a old))
     else (case a of ReturnFailure \<Rightarrow> Inr (RInt (-1))
       | PartSpin tmo \<Rightarrow> Inl (Spinning (P_Spin tmo (max_spins s)))))"
| "try_wait_step v (Y_Cas a old) s =
     (if m_count s = old \<and> \<not> v then Some (take_unit s, Inr (RInt 0))
      else Some (s, Inl (Trying (Y_Test a (m_count s)))))"

text \<open>
  \<open>lusem_wait_with_part_spin\<close>. \<open>v\<close> lets a timed wait on the semaphore end without it; a
  wait with timeout 0 can only end by taking the semaphore.
\<close>

fun part_spin_step :: "bool \<Rightarrow> ppc \<Rightarrow> lusem \<Rightarrow> ppc lus_outcome" where
  "part_spin_step v (P_Spin tmo spin) s =
     Some (s, Inl (if 0 \<le> spin - 1 then P_Load tmo (spin - 1) else P_Sub tmo))"
| "part_spin_step v (P_Load tmo spin) s =
     Some (s, Inl (if 0 < m_count s then P_Cas tmo spin (m_count s) else P_Spin tmo spin))"
| "part_spin_step v (P_Cas tmo spin old) s =
     (if m_count s = old then Some (take_unit s, Inr (RInt 0)) else Some (s, Inl (P_Spin tmo spin)))"
| "part_spin_step v (P_Sub tmo) s =
     (if 0 < m_count s then Some (take_unit s, Inr (RInt 0))
      else Some (s\<lparr>m_count := ssize (m_count s - 1)\<rparr>, Inl (P_Block tmo)))"
| "part_spin_step v (P_Block tmo) s =
     (if tmo \<noteq> 0 \<and> v then Some (s, Inl P_Load2)
      else if 0 < sem_value s then Some (sem_take s, Inr (RInt 0))
      else None)"
| "part_spin_step v P_Load2 s =
     Some (s, Inl (if 0 \<le> m_count s then P_Try (m_count s) else P_Cas2 (m_count s)))"
| "part_spin_step v (P_Try old) s =
     (if 0 < sem_value s then Some (sem_take s, Inr (RInt 0)) else Some (s, Inl P_Load2))"
| "part_spin_step v (P_Cas2 old) s =
     (if m_count s = old then Some (s\<lparr>m_count := ssize (old + 1)\<rparr>, Inr (RInt (-1)))
      else Some (s, Inl P_Load2))"

section \<open>Signalling\<close>

text \<open>
  \<open>lusem_signal_count\<close> (\<open>G_Add\<close> and \<open>G_Post\<close>) and \<open>lusem_signal\<close> (\<open>G_Inc\<close> and \<open>G_PostOne\<close>). A
  post on a semaphore at its maximum fails and is retried.
\<close>

definition to_release :: "int \<Rightarrow> int \<Rightarrow> int" where
  "to_release old n = (if - old < n then - old else n)"

fun signal_step :: "gpc \<Rightarrow> lusem \<Rightarrow> gpc lus_outcome" where
  "signal_step (G_Add n) s =
     (if 0 < n
      then Some (s\<lparr>m_count := ssize (m_count s + n), signalled := signalled s + nat n\<rparr>,
        if 0 < to_release (m_count s) n
        then Inl (G_Post (to_release (m_count s) n)) else Inr RVoid)
      else Some (s, Inr RVoid))"
| "signal_step (G_Post n) s =
     (if n \<le> 0 then Some (s, Inr RVoid)
      else case sem_post (sem_value s) of
        None \<Rightarrow> Some (s, Inl (G_Post n))
      | Some v \<Rightarrow> Some (s\<lparr>sem_value := v\<rparr>, if n = 1 then Inr RVoid else Inl (G_Post (n - 1))))"
| "signal_step G_Inc s =
     Some (s\<lparr>m_count := ssize (m_count s + 1), signalled := signalled s + 1\<rparr>,
       if 0 < to_release (m_count s) 1 then Inl G_PostOne else Inr RVoid)"
| "signal_step G_PostOne s =
     (case sem_post (sem_value s) of
        None \<Rightarrow> Some (s, Inl G_PostOne)
      | Some v \<Rightarrow> Some (s\<lparr>sem_value := v\<rparr>, Inr RVoid))"

section \<open>The system of threads\<close>

datatype lus_call = TryWait | LWait | TimedWait "64 word" | Signal | SignalCount int

fun lus_entry :: "lus_call \<Rightarrow> lpc" where
  "lus_entry TryWait = Trying (Y_Load ReturnFailure)"
| "lus_entry LWait = Trying (Y_Load (PartSpin 0))"
| "lus_entry (TimedWait tmo) = Trying (Y_Load (PartSpin tmo))"
| "lus_entry Signal = Signalling G_Inc"
| "lus_entry (SignalCount n) = Signalling (G_Add n)"

fun lus_resume_at :: "('p \<Rightarrow> lpc) \<Rightarrow> 'p lus_outcome \<Rightarrow> (lusem \<times> lpc) option" where
  "lus_resume_at lift None = None"
| "lus_resume_at lift (Some (s, Inl p)) = Some (s, lift p)"
| "lus_resume_at lift (Some (s, Inr r)) = Some (s, LReturned r)"

fun lus_exec :: "bool \<Rightarrow> lpc \<Rightarrow> lusem \<Rightarrow> (lusem \<times> lpc) option" where
  "lus_exec v (Trying p) s = lus_resume_at (\<lambda>q. q) (try_wait_step v p s)"
| "lus_exec v (Spinning p) s = lus_resume_at Spinning (part_spin_step v p s)"
| "lus_exec v (Signalling p) s = lus_resume_at Signalling (signal_step p s)"
| "lus_exec v (LReturned r) s = None"

record lus_system =
  lmem :: lusem
  lpcs :: "tid \<Rightarrow> lpc"

datatype lus_event = LusStep tid bool | LusCall tid lus_call

fun lus_next :: "lus_event \<Rightarrow> lus_system \<Rightarrow> lus_system option" where
  "lus_next (LusStep i v) s =
     (case lus_exec v (lpcs s i) (lmem s) of None \<Rightarrow> None
      | Some (m, p) \<Rightarrow> Some \<lparr>lmem = m, lpcs = (lpcs s)(i := p)\<rparr>)"
| "lus_next (LusCall i f) s =
     (case lpcs s i of
        LReturned r \<Rightarrow> Some (s\<lparr>lpcs := (lpcs s)(i := lus_entry f)\<rparr>)
      | _ \<Rightarrow> None)"

definition lus_new :: "lusem \<Rightarrow> lus_system" where
  "lus_new m = \<lparr>lmem = m, lpcs = (\<lambda>_. LReturned RVoid)\<rparr>"

definition lus_init :: "lus_system \<Rightarrow> bool" where
  "lus_init s \<longleftrightarrow> (\<exists>n spins m. lusem_init n spins = Inr m \<and> s = lus_new m)"

section \<open>What one step does\<close>

text \<open>Has counted itself as waiting and not been served; posts it still has to make.\<close>

fun waiting :: "lpc \<Rightarrow> nat" where
  "waiting (Spinning p) = (case p of P_Block tmo \<Rightarrow> 1 | P_Load2 \<Rightarrow> 1 | P_Try old \<Rightarrow> 1
     | P_Cas2 old \<Rightarrow> 1 | _ \<Rightarrow> 0)"
| "waiting _ = 0"

fun posting :: "lpc \<Rightarrow> nat" where
  "posting (Signalling (G_Post n)) = nat n"
| "posting (Signalling G_PostOne) = 1"
| "posting _ = 0"

text \<open>What the value a thread has read tells it.\<close>

fun lus_knows :: "lpc \<Rightarrow> bool" where
  "lus_knows (Trying (Y_Cas a old)) \<longleftrightarrow> 0 < old"
| "lus_knows (Spinning (P_Cas tmo spin old)) \<longleftrightarrow> 0 < old"
| "lus_knows (Spinning (P_Cas2 old)) \<longleftrightarrow> old < 0"
| "lus_knows _ \<longleftrightarrow> True"

inductive lus_effect :: "lusem \<Rightarrow> lpc \<Rightarrow> lusem \<Rightarrow> lpc \<Rightarrow> bool" for m p m' p' where
  skip: "m' = m \<Longrightarrow> waiting p' = waiting p \<Longrightarrow> posting p' = posting p \<Longrightarrow> lus_effect m p m' p'"
| grab: "0 < m_count m \<Longrightarrow> m' = take_unit m \<Longrightarrow> waiting p' = waiting p \<Longrightarrow>
    posting p' = posting p \<Longrightarrow> lus_effect m p m' p'"
| queue_up: "m_count m \<le> 0 \<Longrightarrow> m' = m\<lparr>m_count := ssize (m_count m - 1)\<rparr> \<Longrightarrow>
    waiting p' = waiting p + 1 \<Longrightarrow> posting p' = posting p \<Longrightarrow> lus_effect m p m' p'"
| served: "0 < sem_value m \<Longrightarrow> m' = sem_take m \<Longrightarrow> waiting p = waiting p' + 1 \<Longrightarrow>
    posting p' = posting p \<Longrightarrow> lus_effect m p m' p'"
| give_up: "m_count m < 0 \<Longrightarrow> m' = m\<lparr>m_count := ssize (m_count m + 1)\<rparr> \<Longrightarrow>
    waiting p = waiting p' + 1 \<Longrightarrow> posting p' = posting p \<Longrightarrow> lus_effect m p m' p'"
| add: "0 < n \<Longrightarrow> m' = m\<lparr>m_count := ssize (m_count m + n), signalled := signalled m + nat n\<rparr> \<Longrightarrow>
    waiting p' = waiting p \<Longrightarrow> posting p = 0 \<Longrightarrow> posting p' = nat (min (- m_count m) n) \<Longrightarrow>
    lus_effect m p m' p'"
| post: "m' = m\<lparr>sem_value := sem_value m + 1\<rparr> \<Longrightarrow> waiting p' = waiting p \<Longrightarrow>
    posting p = posting p' + 1 \<Longrightarrow> lus_effect m p m' p'"

inductive_cases lus_effectE: "lus_effect m p m' p'"

lemma lus_resume_at_Some:
  "lus_resume_at f x = Some (m, p) \<longleftrightarrow>
     (\<exists>q. x = Some (m, Inl q) \<and> p = f q) \<or> (\<exists>r. x = Some (m, Inr r) \<and> p = LReturned r)"
  by (cases "(f, x)" rule: lus_resume_at.cases) auto

lemma lus_exec_effect:
  assumes e: "lus_exec v p m = Some (m', p')" and k: "lus_knows p"
  shows "lus_effect m p m' p' \<and> lus_knows p'"
proof (cases p)
  case (Trying y)
  with e k show ?thesis
    by (cases y) (auto simp: lus_resume_at_Some intro: lus_effect.intros split: if_splits after.splits)
next
  case (Spinning y)
  with e k show ?thesis
    by (cases y) (auto simp: lus_resume_at_Some intro: lus_effect.intros split: if_splits)
next
  case (Signalling y)
  show ?thesis
  proof (cases y)
    case (G_Add n)
    with Signalling e show ?thesis
      by (auto simp: lus_resume_at_Some to_release_def min_def intro: lus_effect.intros split: if_splits)
        (rule lus_effect.add[of n]; simp add: min_def)+
  next
    case (G_Post n)
    with Signalling e show ?thesis
      by (auto simp: lus_resume_at_Some sem_post_def intro: lus_effect.skip split: if_splits)
        (rule lus_effect.post; simp; linarith)+
  next
    case G_Inc
    with Signalling e show ?thesis
      by (auto simp: lus_resume_at_Some to_release_def min_def intro!: lus_effect.add[of 1] split: if_splits)
  next
    case G_PostOne
    with Signalling e show ?thesis
      by (auto simp: lus_resume_at_Some sem_post_def intro: lus_effect.skip lus_effect.post split: if_splits)
  qed
qed (use e in simp)

end
