(* ===== verification/LusemProps.thy ===== *)
theory LusemProps
  imports Lusem
begin

text \<open>
  The bookkeeping of the lightweight semaphore: two equations between the count, the kernel
  semaphore, the waiting threads and the posts still to be made, which every step of every
  thread keeps, and what they say of acquisitions and signals.
\<close>

section \<open>The invariant\<close>

abbreviation waiters :: "lus_system \<Rightarrow> nat" where
  "waiters s \<equiv> tsum waiting (lpcs s)"

abbreviation posts_due :: "lus_system \<Rightarrow> nat" where
  "posts_due s \<equiv> tsum posting (lpcs s)"

definition balance :: "lus_system \<Rightarrow> bool" where
  "balance s \<longleftrightarrow>
     m_count (lmem s) + int (acquired (lmem s)) + int (waiters s) =
       int (initial (lmem s)) + int (signalled (lmem s)) \<and>
     int (sem_value (lmem s)) + int (posts_due s) + max 0 (- m_count (lmem s)) =
       int (waiters s) + int (initial (lmem s))"

text \<open>The equations hold as long as the signals sum up to less than \<open>2 ^ 62\<close>: no count wraps.\<close>

definition lus_inv :: "lus_system \<Rightarrow> bool" where
  "lus_inv s \<longleftrightarrow> (\<forall>i. lus_knows (lpcs s i)) \<and> initial (lmem s) < 2 ^ 31 \<and>
     (signalled (lmem s) < 2 ^ 62 \<longrightarrow> balance s)"

lemma waiting_le: "waiting p \<le> 1"
  by (cases p) (auto split: ppc.splits)

lemma waiters_le: "waiters s \<le> 2 ^ 33"
proof -
  have "waiters s \<le> (\<Sum>t \<in> (UNIV :: tid set). 1)"
    unfolding tsum_def by (rule sum_mono) (rule waiting_le)
  then show ?thesis by (simp add: card_tid)
qed

lemma balance_range:
  assumes "balance s" and "initial (lmem s) < 2 ^ 31" and "signalled (lmem s) < 2 ^ 62"
  shows "- (2 ^ 34) \<le> m_count (lmem s)"
    and "m_count (lmem s) \<le> int (initial (lmem s)) + int (signalled (lmem s))"
  using assms waiters_le[of s] by (auto simp: balance_def max_def split: if_splits)

lemma lus_step_inv:
  assumes inv: "lus_inv s" and e: "lus_exec v (lpcs s i) (lmem s) = Some (m, p)"
  shows "lus_inv \<lparr>lmem = m, lpcs = (lpcs s)(i := p)\<rparr>"
proof -
  let ?M = "lmem s"
  have k: "lus_knows (lpcs s i)" using inv by (simp add: lus_inv_def)
  note eff = lus_exec_effect[OF e k]
  have init: "initial m = initial ?M" and grow: "signalled ?M \<le> signalled m"
    using eff by (auto elim!: lus_effectE simp: take_unit_def sem_take_def)
  have w: "tsum waiting ((lpcs s)(i := p)) + waiting (lpcs s i) = waiters s + waiting p"
    and d: "tsum posting ((lpcs s)(i := p)) + posting (lpcs s i) = posts_due s + posting p"
    by (rule tsum_upd)+
  have "balance \<lparr>lmem = m, lpcs = (lpcs s)(i := p)\<rparr>" if small: "signalled m < 2 ^ 62"
  proof -
    have b: "balance s" and i31: "initial ?M < 2 ^ 31" and small': "signalled ?M < 2 ^ 62"
      using inv grow small by (auto simp: lus_inv_def)
    note range = balance_range[OF b i31 small']
    have in_range: "ssize (m_count ?M - 1) = m_count ?M - 1" "ssize (m_count ?M + 1) = m_count ?M + 1"
      using range i31 small' by (auto intro!: ssize_id)
    from eff[THEN conjunct1] show ?thesis
    proof cases
      case (add n)
      have "int (signalled ?M) + n < 2 ^ 62" using add small by simp
      then have "ssize (m_count ?M + n) = m_count ?M + n" using range i31 add(1) by (intro ssize_id) auto
      with add b w d show ?thesis by (auto simp: balance_def)
    qed (use b w d in_range in \<open>auto simp: balance_def take_unit_def sem_take_def\<close>)
  qed
  with inv eff init show ?thesis by (auto simp: lus_inv_def)
qed

lemma lus_step_Some:
  "lus_next (LusStep i v) s = Some s' \<longleftrightarrow>
    (\<exists>m p. lus_exec v (lpcs s i) (lmem s) = Some (m, p) \<and> s' = \<lparr>lmem = m, lpcs = (lpcs s)(i := p)\<rparr>)"
proof (cases "lus_exec v (lpcs s i) (lmem s)")
  case (Some mp)
  obtain m p where "mp = (m, p)" by (cases mp)
  with Some have e: "lus_exec v (lpcs s i) (lmem s) = Some (m, p)" by (simp only:)
  show ?thesis unfolding lus_next.simps e by auto
qed simp

lemma lus_call_Some:
  "lus_next (LusCall i f) s = Some s' \<longleftrightarrow>
    (\<exists>r. lpcs s i = LReturned r) \<and> s' = s\<lparr>lpcs := (lpcs s)(i := lus_entry f)\<rparr>"
  by (auto split: lpc.splits)

lemma lus_entry_neutral [simp]:
  "waiting (lus_entry f) = 0" "posting (lus_entry f) = 0" "lus_knows (lus_entry f)"
  by (cases f; simp)+

lemma lus_inv_next:
  assumes inv: "lus_inv s" and n: "lus_next e s = Some s'"
  shows "lus_inv s'"
proof (cases e)
  case (LusStep i v)
  with n lus_step_inv[OF inv] show ?thesis by (auto simp only: lus_step_Some)
next
  case (LusCall i f)
  with n obtain r where r: "lpcs s i = LReturned r" and s': "s' = s\<lparr>lpcs := (lpcs s)(i := lus_entry f)\<rparr>"
    by (auto simp only: lus_call_Some)
  have "waiters s' = waiters s" "posts_due s' = posts_due s"
    using tsum_upd_eq[of waiting "lpcs s" i "lus_entry f"] tsum_upd_eq[of posting "lpcs s" i "lus_entry f"]
    by (simp_all add: s' r)
  then show ?thesis using inv by (simp add: lus_inv_def balance_def s')
qed

lemma lus_inv_init: "lus_init s \<Longrightarrow> lus_inv s"
  by (auto simp: lus_init_def lusem_init_def usem_init_def sem_init_def lus_new_def lus_inv_def balance_def
      SEM_VALUE_MAX_def tsum_const_zero split: if_splits)

interpretation lus: safety lus_init lus_next lus_inv
  by unfold_locales (auto intro: lus_inv_init lus_inv_next)

section \<open>Schedules\<close>

definition lus_of :: "32 word \<Rightarrow> lus_system" where
  "lus_of n = lus_new \<lparr>m_count = uint n, sem_value = unat n, max_spins = 1, initial = unat n,
     acquired = 0, signalled = 0\<rparr>"

lemma lus_of_init: "unat n \<le> SEM_VALUE_MAX \<Longrightarrow> lus_init (lus_of n)"
  unfolding lus_init_def
  by (rule exI[of _ n], rule exI[of _ 1]) (simp add: lusem_init_def usem_init_def sem_init_def lus_of_def)

lemma lus_of_reach: "unat n \<le> SEM_VALUE_MAX \<Longrightarrow> reach lus_init lus_next (lus_of n)"
  by (rule reach_init) (rule lus_of_init)

definition lus_steps :: "tid \<Rightarrow> nat \<Rightarrow> lus_event list" where
  "lus_steps i n = replicate n (LusStep i False)"

lemma lus_steps_simps [simp]:
  "lus_steps i 0 = []" "lus_steps i (Suc n) = LusStep i False # lus_steps i n"
  "lus_steps i (numeral k) = LusStep i False # lus_steps i (pred_numeral k)"
  by (simp_all add: lus_steps_def numeral_eq_Suc)

lemma ssize_small [simp]: "ssize (- 1) = - 1" "ssize 0 = 0" "ssize 1 = 1"
  by (simp_all add: ssize_id)

lemmas eval_lus = lus_of_def lus_new_def take_unit_def sem_take_def to_release_def SEM_VALUE_MAX_def sem_post_def

text \<open>One thread blocked on a semaphore of count 0, another about to post for it.\<close>

definition lus_sched_blocked :: "lus_event list" where
  "lus_sched_blocked = LusCall (Client 0) (TimedWait 5) # lus_steps (Client 0) 6"

definition lus_state_blocked :: lus_system where
  "lus_state_blocked = \<lparr>lmem = (lmem (lus_of 0))\<lparr>m_count := - 1\<rparr>,
     lpcs = (lpcs (lus_of 0))(Client 0 := Spinning (P_Block 5))\<rparr>"

lemma lus_run_blocked: "run lus_next lus_sched_blocked (lus_of 0) = Some lus_state_blocked"
  by (simp add: lus_sched_blocked_def lus_state_blocked_def eval_lus)

lemma lus_reach_blocked: "reach lus_init lus_next lus_state_blocked"
  by (rule reach_run[OF lus_run_blocked lus_of_reach]) simp

lemma lus_blocked_sums: "waiters lus_state_blocked = 1" "posts_due lus_state_blocked = 0"
proof -
  have "tsum waiting (lpcs (lus_of 0)) = 0" "tsum posting (lpcs (lus_of 0)) = 0"
    by (auto intro!: tsum_const_zero simp: eval_lus)
  with tsum_upd[of waiting "lpcs (lus_of 0)" "Client 0" "Spinning (P_Block 5)"]
    tsum_upd[of posting "lpcs (lus_of 0)" "Client 0" "Spinning (P_Block 5)"]
  show "waiters lus_state_blocked = 1" "posts_due lus_state_blocked = 0"
    by (simp_all add: lus_state_blocked_def eval_lus)
qed

section \<open>Accounting\<close>

text \<open>
  The units of a lightweight semaphore are accounted for exactly, whatever the threads
  do: successful waits, units in the kernel semaphore, posts still to be made and a positive
  count add up to the units signalled plus twice the initial count. So with initial count 0
  there are never more successful waits than signals; a timed-out wait gives its claim back.
\<close>

theorem lusem_balance:
  assumes "reach lus_init lus_next s" and "signalled (lmem s) < 2 ^ 62"
  shows "int (acquired (lmem s)) + int (sem_value (lmem s)) + int (posts_due s) + max 0 (m_count (lmem s)) =
      2 * int (initial (lmem s)) + int (signalled (lmem s)) \<and>
    (initial (lmem s) = 0 \<longrightarrow> acquired (lmem s) \<le> signalled (lmem s))"
  using lus.reach_inv[OF assms(1)] assms(2) by (auto simp: lus_inv_def balance_def max_def split: if_splits)

theorem lusem_balance_witness:
  "acquired (lmem lus_state_blocked) = 0 \<and> m_count (lmem lus_state_blocked) = - 1"
proof -
  have "signalled (lmem lus_state_blocked) < 2 ^ 62"
    by (simp add: lus_state_blocked_def eval_lus)
  from lusem_balance[OF lus_reach_blocked this] show ?thesis
    by (simp add: lus_blocked_sums) (simp add: lus_state_blocked_def eval_lus)
qed

text \<open>
  \<open>lusem_init\<close> gives the initial count to both the counter and the kernel semaphore, so
  a semaphore initialised to 1 lets two threads through without any signal: it does not
  exclude.
\<close>

theorem lusem_initial_counts_twice:
  "\<exists>m s. lusem_init 1 1 = Inr m \<and> reach lus_init lus_next s \<and>
    run lus_next (LusCall (Client 0) LWait # lus_steps (Client 0) 3 @
      LusCall (Client 1) LWait # lus_steps (Client 1) 7) (lus_new m) = Some s \<and>
    lpcs s (Client 0) = LReturned (RInt 0) \<and> lpcs s (Client 1) = LReturned (RInt 0) \<and>
    acquired (lmem s) = 2 \<and> signalled (lmem s) = 0"
proof -
  obtain s where s: "run lus_next (LusCall (Client 0) LWait # lus_steps (Client 0) 3 @
      LusCall (Client 1) LWait # lus_steps (Client 1) 7) (lus_of 1) = Some s"
    "lpcs s (Client 0) = LReturned (RInt 0)" "lpcs s (Client 1) = LReturned (RInt 0)"
    "acquired (lmem s) = 2" "signalled (lmem s) = 0"
    by (simp add: eval_lus)
  have "1 \<le> SEM_VALUE_MAX" by (simp add: SEM_VALUE_MAX_def)
  with reach_run[OF s(1) lus_of_reach] s show ?thesis
    by (intro exI[of _ "lmem (lus_of 1)"] exI[of _ s]) (simp add: lusem_init_def usem_init_def sem_init_def lus_of_def lus_new_def)
qed

section \<open>Blocking\<close>

text \<open>
  C32: No wake-up is lost: when a thread is blocked on an empty kernel semaphore and no
  signaller is between its addition and its posts, every unit there ever was has been
  acquired, and the count says how many threads wait. (As long as fewer than \<open>2 ^ 62\<close> units have
  been signalled.)
\<close>

theorem lusem_no_lost_wakeup:
  assumes "reach lus_init lus_next s" and "signalled (lmem s) < 2 ^ 62"
    and "lpcs s i = Spinning (P_Block tmo)" and "sem_value (lmem s) = 0" and "posts_due s = 0"
  shows "acquired (lmem s) = 2 * initial (lmem s) + signalled (lmem s) \<and>
    m_count (lmem s) = - (int (waiters s) + int (initial (lmem s)))"
proof -
  have b: "balance s" using lus.reach_inv[OF assms(1)] assms(2) by (simp add: lus_inv_def)
  have "waiting (lpcs s i) \<le> waiters s" by (rule tsum_nat_ge)
  with assms(3) have "1 \<le> waiters s" by simp
  with b assms(4,5) show ?thesis by (auto simp: balance_def max_def split: if_splits)
qed

theorem lusem_no_lost_wakeup_witness:
  "acquired (lmem lus_state_blocked) = 0 \<and> m_count (lmem lus_state_blocked) = - 1 \<and>
    lpcs lus_state_blocked (Client 0) = Spinning (P_Block 5)"
proof -
  have p: "signalled (lmem lus_state_blocked) < 2 ^ 62"
    "lpcs lus_state_blocked (Client 0) = Spinning (P_Block 5)" "sem_value (lmem lus_state_blocked) = 0"
    by (simp_all add: lus_state_blocked_def eval_lus)
  from lusem_no_lost_wakeup[OF lus_reach_blocked p lus_blocked_sums(2)] p(2) show ?thesis
    by (simp add: lus_blocked_sums) (simp add: lus_state_blocked_def eval_lus)
qed

text \<open>
  The loop a timed-out wait ends in (lines 31 to 38) does not spin for nothing: at its
  load, either the count is negative and the thread can take its claim back, or there is a
  unit in the kernel semaphore for it, or a signaller is about to post one.
\<close>

theorem lusem_timeout_resolves:
  assumes "reach lus_init lus_next s" and "signalled (lmem s) < 2 ^ 62"
    and "lpcs s i = Spinning P_Load2"
  shows "m_count (lmem s) < 0 \<or> 0 < sem_value (lmem s) \<or> (\<exists>j. 0 < posting (lpcs s j))"
proof (rule ccontr)
  assume c: "\<not> ?thesis"
  then have "posting (lpcs s j) = 0" for j by simp
  then have "posts_due s = 0" by (rule tsum_const_zero)
  moreover have "waiting (lpcs s i) \<le> waiters s" by (rule tsum_nat_ge)
  moreover have "balance s" using lus.reach_inv[OF assms(1)] assms(2) by (simp add: lus_inv_def)
  ultimately show False using c assms(3) by (auto simp: balance_def max_def split: if_splits)
qed

theorem lusem_timeout_resolves_witness:
  "\<exists>s. reach lus_init lus_next s \<and> lpcs s (Client 0) = Spinning P_Load2 \<and> m_count (lmem s) = 0 \<and>
    sem_value (lmem s) = 0 \<and> (\<exists>j. 0 < posting (lpcs s j))"
proof -
  obtain s where s: "run lus_next [LusStep (Client 0) True, LusCall (Client 1) Signal, LusStep (Client 1) False]
      lus_state_blocked = Some s"
    and p: "signalled (lmem s) = 1" "lpcs s (Client 0) = Spinning P_Load2" "m_count (lmem s) = 0"
      "sem_value (lmem s) = 0"
    by (simp add: lus_state_blocked_def eval_lus)
  note r = reach_run[OF s lus_reach_blocked]
  have "signalled (lmem s) < 2 ^ 62" by (simp add: p)
  from lusem_timeout_resolves[OF r this p(2)] r p show ?thesis by auto
qed

text \<open>
  \<open>lusem_try_wait\<close> without interference: with a positive count it takes a unit and
  returns 0, otherwise it returns -1 and changes nothing; it never blocks.
\<close>

theorem lusem_try_wait_result:
  assumes "lpcs s i = LReturned r"
  shows "\<exists>n. run lus_next (LusCall i TryWait # lus_steps i n) s =
    Some (if 0 < m_count (lmem s)
      then \<lparr>lmem = take_unit (lmem s), lpcs = (lpcs s)(i := LReturned (RInt 0))\<rparr>
      else s\<lparr>lpcs := (lpcs s)(i := LReturned (RInt (-1)))\<rparr>)"
proof (cases "0 < m_count (lmem s)")
  case True
  with assms show ?thesis by (intro exI[of _ 3]) simp
next
  case False
  with assms show ?thesis by (intro exI[of _ 2]) simp
qed

theorem lusem_try_wait_result_witness:
  "\<exists>n. run lus_next (LusCall (Client 0) TryWait # lus_steps (Client 0) n) (lus_of 0) =
    Some ((lus_of 0)\<lparr>lpcs := (lpcs (lus_of 0))(Client 0 := LReturned (RInt (-1)))\<rparr>)"
proof -
  have "lpcs (lus_of 0) (Client 0) = LReturned RVoid" "\<not> 0 < m_count (lmem (lus_of 0))"
    by (simp_all add: eval_lus)
  with lusem_try_wait_result[of "lus_of 0" "Client 0" RVoid] show ?thesis by (simp only: if_False)
qed

end
