(* ===== verification/LusemSpec.thy ===== *)
theory LusemSpec
  imports LusemProps Semaphore
begin

text \<open>
  The lightweight semaphore against its specification, a counter of available units; the
  equivalence of the functions the source writes twice; and the length of the spinning phase.
\<close>

section \<open>It is a counting semaphore\<close>

text \<open>
  \<open>lus_action\<close> says which action of the counting semaphore a step of the program stands for: a
  wait that returns 0 has got a unit, the atomic addition of a signaller gives its units.
\<close>

fun given :: "lpc \<Rightarrow> nat" where
  "given (Signalling (G_Add n)) = nat n"
| "given (Signalling G_Inc) = 1"
| "given _ = 0"

fun lus_action :: "lus_event \<Rightarrow> lus_system \<Rightarrow> lus_system \<Rightarrow> sem_action" where
  "lus_action (LusStep i v) s s' =
     (if lpcs s' i = LReturned (RInt 0) then SemGot
      else if 0 < given (lpcs s i) then SemGave (given (lpcs s i)) else SemTau)"
| "lus_action (LusCall i f) s s' = SemTau"

definition units :: "lus_system \<Rightarrow> nat" where
  "units s = sem_value (lmem s) + posts_due s + nat (m_count (lmem s))"

lemma lus_exec_history:
  assumes "lus_exec v p m = Some (m', p')"
  shows "initial m' = initial m \<and> acquired m' = acquired m + of_bool (p' = LReturned (RInt 0)) \<and>
    signalled m' = signalled m + given p \<and> (0 < given p \<longrightarrow> p' \<noteq> LReturned (RInt 0))"
proof (cases p)
  case (Trying y)
  with assms show ?thesis
    by (cases y) (auto simp: lus_resume_at_Some take_unit_def split: if_splits after.splits)
next
  case (Spinning y)
  with assms show ?thesis
    by (cases y) (auto simp: lus_resume_at_Some take_unit_def sem_take_def split: if_splits)
next
  case (Signalling y)
  with assms show ?thesis
    by (cases y) (auto simp: lus_resume_at_Some split: if_splits option.splits)
qed (use assms in simp)

lemma units_balance: "balance s \<Longrightarrow> units s + acquired (lmem s) = 2 * initial (lmem s) + signalled (lmem s)"
  by (auto simp: balance_def units_def max_def split: if_splits)

lemma lus_step_refines:
  assumes inv: "lus_inv s" and n: "lus_next e s = Some s'" and small: "signalled (lmem s') < 2 ^ 62"
  shows "sem_does (units s) (lus_action e s s') (units s')"
proof (cases e)
  case (LusStep i v)
  with n obtain m p where e: "lus_exec v (lpcs s i) (lmem s) = Some (m, p)"
    and s': "s' = \<lparr>lmem = m, lpcs = (lpcs s)(i := p)\<rparr>" by (auto simp only: lus_step_Some)
  note h = lus_exec_history[OF e]
  have "balance s" "balance s'"
    using inv lus_inv_next[OF inv n] small h by (auto simp: lus_inv_def s')
  from this[THEN units_balance] h show ?thesis
    by (auto simp: LusStep s' sem_does_simps)
next
  case (LusCall i f)
  with n obtain r where r: "lpcs s i = LReturned r" and s': "s' = s\<lparr>lpcs := (lpcs s)(i := lus_entry f)\<rparr>"
    by (auto simp only: lus_call_Some)
  have "posts_due s' = posts_due s"
    using tsum_upd_eq[of posting "lpcs s" i "lus_entry f"] by (simp add: s' r)
  then have "units s' = units s" by (simp add: units_def s')
  then show ?thesis by (simp add: LusCall sem_does_simps)
qed

text \<open>
  C11: The lightweight semaphore implements a counting semaphore, step by step and in every
  interleaving: a wait returns 0 only by taking one unit that was available, each signaller's
  addition makes exactly its count available, and no other step (spinning, blocking, posting
  to the kernel semaphore, timing out) creates or loses a unit. It starts with twice the
  initial count. (As long as fewer than \<open>2 ^ 62\<close> units have been signalled.)
\<close>

theorem lusem_refines_semaphore:
  assumes "reach lus_init lus_next s" and "lus_next e s = Some s'" and "signalled (lmem s') < 2 ^ 62"
  shows "sem_does (units s) (lus_action e s s') (units s') \<and>
    (lus_init s \<longrightarrow> units s = 2 * initial (lmem s))"
proof -
  note inv = lus.reach_inv[OF assms(1)]
  have "units s = 2 * initial (lmem s)" if "lus_init s"
  proof -
    from that obtain n spins m where m: "lusem_init n spins = Inr m" and s: "s = lus_new m"
      unfolding lus_init_def by blast
    have "posts_due s = 0" by (rule tsum_const_zero) (simp add: s lus_new_def)
    with m show ?thesis
      by (auto simp: units_def s lus_new_def lusem_init_def usem_init_def sem_init_def split: if_splits)
  qed
  with lus_step_refines[OF inv assms(2,3)] show ?thesis by blast
qed

text \<open>A signal for the blocked thread: one unit becomes available.\<close>

theorem lusem_refines_semaphore_witness:
  "\<exists>s s'. lus_next (LusStep (Client 1) False) s = Some s' \<and> units s' = units s + 1"
proof -
  obtain s where s: "run lus_next [LusCall (Client 1) Signal] lus_state_blocked = Some s"
    and p: "lpcs s (Client 1) = Signalling G_Inc"
    and st: "\<exists>s'. lus_next (LusStep (Client 1) False) s = Some s' \<and> signalled (lmem s') = 1 \<and>
      lpcs s' (Client 1) = Signalling G_PostOne"
    by (simp add: lus_state_blocked_def eval_lus)
  from st obtain s' where s': "lus_next (LusStep (Client 1) False) s = Some s'" "signalled (lmem s') = 1"
    "lpcs s' (Client 1) = Signalling G_PostOne" by blast
  then have "signalled (lmem s') < 2 ^ 62" by simp
  from lusem_refines_semaphore[OF reach_run[OF s lus_reach_blocked] s'(1) this]
  have "sem_does (units s) (SemGave 1) (units s')" using s'(3) p by simp
  with s'(1) show ?thesis by (intro exI[of _ s] exI[of _ s']) (simp only: sem_does_simps)
qed

section \<open>Functions written twice\<close>

text \<open>
  The same program with every \<open>lusem_signal\<close> replaced by \<open>lusem_signal_count\<close> with count 1,
  and every \<open>lusem_wait\<close> by \<open>lusem_timed_wait\<close> with timeout 0.
\<close>

fun merge_call :: "lus_call \<Rightarrow> lus_call" where
  "merge_call Signal = SignalCount 1"
| "merge_call LWait = TimedWait 0"
| "merge_call f = f"

fun merge_pc :: "lpc \<Rightarrow> lpc" where
  "merge_pc (Signalling G_Inc) = Signalling (G_Add 1)"
| "merge_pc (Signalling G_PostOne) = Signalling (G_Post 1)"
| "merge_pc p = p"

fun merge_event :: "lus_event \<Rightarrow> lus_event" where
  "merge_event (LusStep i v) = LusStep i v"
| "merge_event (LusCall i f) = LusCall i (merge_call f)"

definition merge_system :: "lus_system \<Rightarrow> lus_system" where
  "merge_system s = \<lparr>lmem = lmem s, lpcs = (\<lambda>i. merge_pc (lpcs s i))\<rparr>"

lemma merge_exec: "lus_exec v (merge_pc p) m = map_option (\<lambda>(m, p). (m, merge_pc p)) (lus_exec v p m)"
proof (cases p)
  case (Trying y)
  then show ?thesis by (cases y) (auto split: after.splits)
next
  case (Spinning y)
  then show ?thesis by (cases y) auto
next
  case (Signalling y)
  then show ?thesis by (cases y) (auto simp: to_release_def split: option.splits)
qed simp

lemma merge_entry: "lus_entry (merge_call f) = merge_pc (lus_entry f)"
  by (cases f) simp_all

lemma merge_upd: "(\<lambda>j. merge_pc ((f(i := p)) j)) = (\<lambda>j. merge_pc (f j))(i := merge_pc p)"
  by auto

interpretation merged: functional_simulation lus_next lus_next merge_event merge_system
proof
  fix e s
  show "lus_next (merge_event e) (merge_system s) = map_option merge_system (lus_next e s)"
  proof (cases e)
    case (LusStep i v)
    then show ?thesis
      by (cases "lus_exec v (lpcs s i) (lmem s)") (auto simp: merge_system_def merge_exec merge_upd simp del: fun_upd_apply)
  next
    case (LusCall i f)
    show ?thesis
    proof (cases "lpcs s i")
      case (Signalling y)
      with LusCall show ?thesis by (cases y) (auto simp: merge_system_def)
    qed (auto simp: LusCall merge_system_def merge_upd merge_entry simp del: fun_upd_apply)
  qed
qed

text \<open>
  C27: \<open>lusem_signal\<close>, which the header writes out separately, is \<open>lusem_signal_count\<close> with
  count 1, and \<open>lusem_wait\<close> is \<open>lusem_timed_wait\<close> with timeout 0: replacing the calls changes no
  run of any number of threads, whether it succeeds or gets stuck, what each call returns
  included. In particular a timeout of 0 waits for ever.
\<close>

theorem lusem_calls_equivalent:
  "run lus_next (map merge_event es) (merge_system s) = map_option merge_system (run lus_next es s) \<and>
    (lpcs (merge_system s) i = LReturned r \<longleftrightarrow> lpcs s i = LReturned r)"
proof -
  have "merge_pc p = LReturned r \<longleftrightarrow> p = LReturned r" for p by (cases p rule: merge_pc.cases) auto
  then have "lpcs (merge_system s) i = LReturned r \<longleftrightarrow> lpcs s i = LReturned r"
    by (simp add: merge_system_def)
  with merged.run_sim show ?thesis by blast
qed

section \<open>Spinning\<close>

text \<open>The steps a thread still makes before it leaves the spinning phase.\<close>

fun spin_fuel :: "lpc \<Rightarrow> nat" where
  "spin_fuel (Spinning p) = (case p of P_Spin tmo k \<Rightarrow> 3 * nat k + 2 | P_Load tmo k \<Rightarrow> 3 * nat k + 4
     | P_Cas tmo k old \<Rightarrow> 3 * nat k + 3 | P_Sub tmo \<Rightarrow> 1 | _ \<Rightarrow> 0)"
| "spin_fuel _ = 0"

fun past_try :: "lpc \<Rightarrow> bool" where
  "past_try (Spinning p) \<longleftrightarrow> True"
| "past_try (LReturned r) \<longleftrightarrow> True"
| "past_try _ \<longleftrightarrow> False"

fun lus_step_of :: "tid \<Rightarrow> lus_event \<Rightarrow> bool" where
  "lus_step_of i (LusStep j v) \<longleftrightarrow> j = i"
| "lus_step_of i _ \<longleftrightarrow> False"

fun lus_not_called :: "tid \<Rightarrow> lus_event \<Rightarrow> bool" where
  "lus_not_called i (LusCall j f) \<longleftrightarrow> j \<noteq> i"
| "lus_not_called i _ \<longleftrightarrow> True"

lemma lus_exec_spin_fuel:
  assumes "lus_exec v p m = Some (m', p')" and "past_try p"
  shows "past_try p' \<and> spin_fuel p' \<le> spin_fuel p - 1"
proof (cases p)
  case (Spinning q)
  with assms show ?thesis by (cases q) (auto simp: lus_resume_at_Some split: if_splits)
qed (use assms in auto)

interpretation spinning: draining_steps lus_next "lus_not_called i" "lus_step_of i"
  "\<lambda>s. past_try (lpcs s i)" "\<lambda>s. spin_fuel (lpcs s i)" for i
proof
  fix s s' e
  assume good: "past_try (lpcs s i)" and call: "lus_not_called i e" and n: "lus_next e s = Some s'"
  have own: "past_try (lpcs s' i) \<and> spin_fuel (lpcs s' i) \<le> spin_fuel (lpcs s i) - 1" if "lus_step_of i e"
  proof -
    from that obtain v where "e = LusStep i v" by (cases e) auto
    with n obtain m p where "lus_exec v (lpcs s i) (lmem s) = Some (m, p)"
      and "s' = \<lparr>lmem = m, lpcs = (lpcs s)(i := p)\<rparr>" by (auto simp only: lus_step_Some)
    with lus_exec_spin_fuel good show ?thesis by simp
  qed
  have other: "lpcs s' i = lpcs s i" if "\<not> lus_step_of i e"
  proof (cases e)
    case (LusStep j v)
    with n that show ?thesis by (auto simp only: lus_step_Some) simp
  next
    case (LusCall j f)
    with n call show ?thesis by (auto simp only: lus_call_Some) simp
  qed
  show "past_try (lpcs s' i)" using own other good by (cases "lus_step_of i e") auto
  show "lus_step_of i e \<Longrightarrow> spin_fuel (lpcs s' i) \<le> spin_fuel (lpcs s i) - 1" using own by blast
  show "\<not> lus_step_of i e \<Longrightarrow> spin_fuel (lpcs s' i) \<le> spin_fuel (lpcs s i)" using other by simp
qed

text \<open>
  The spinning phase of a wait ends: after at most three steps for each of \<open>max_spins\<close>
  rounds and two more, whatever other threads do to the count, the thread has returned with a
  unit or has gone to the kernel semaphore.
\<close>

theorem lusem_spin_bounded:
  assumes "lpcs s i = Spinning (P_Spin tmo k)" and "run lus_next es s = Some s'"
    and "list_all (lus_not_called i) es" and "3 * nat k + 2 \<le> length (filter (lus_step_of i) es)"
  shows "(\<exists>r. lpcs s' i = LReturned r) \<or>
    (\<exists>p. lpcs s' i = Spinning p \<and> 0 < waiting (Spinning p))"
proof -
  have "past_try (lpcs s i)" by (simp add: assms(1))
  from spinning.run_drains[OF this assms(3,2)] assms(1,4)
  have past: "past_try (lpcs s' i)" and fuel: "spin_fuel (lpcs s' i) = 0" by simp_all
  show ?thesis
  proof (cases "lpcs s' i")
    case (Spinning p)
    with fuel show ?thesis by (cases p) auto
  qed (use past in auto)
qed

text \<open>One round of spinning, with nothing to take.\<close>

theorem lusem_spin_bounded_witness:
  "\<exists>s s'. run lus_next (lus_steps (Client 0) 4 @ [LusStep (Client 0) True]) s = Some s' \<and>
    m_count (lmem s') = - 1 \<and> (\<exists>p. lpcs s' (Client 0) = Spinning p \<and> 0 < waiting (Spinning p))"
proof -
  let ?es = "lus_steps (Client 0) 4 @ [LusStep (Client 0) True]"
  let ?s = "(lus_of 0)\<lparr>lpcs := (lpcs (lus_of 0))(Client 0 := Spinning (P_Spin 5 1))\<rparr>"
  obtain s' where s': "run lus_next ?es ?s = Some s'" "m_count (lmem s') = - 1"
    "\<And>r. lpcs s' (Client 0) \<noteq> LReturned r"
    by (simp add: eval_lus)
  have "lpcs ?s (Client 0) = Spinning (P_Spin 5 1)" by simp
  from lusem_spin_bounded[OF this s'(1)] s'(2,3)
  have "\<exists>p. lpcs s' (Client 0) = Spinning p \<and> 0 < waiting (Spinning p)" by simp
  with s' show ?thesis by blast
qed

end
