(* ===== verification/Psem.thy ===== *)
theory Psem
  imports Prelude
begin

text \<open>
  The condition variable wrapper of \<open>include/threads/psem.h\<close> (called a semaphore there) and
  the processor count of \<open>src/threads/utils.c\<close>. Each step is one pthread call with its return
  value, which the event supplies: a lock, a signal, a broadcast or a wait that fails changes
  nothing. Two calls cannot fail, as POSIX documents them: the unlock by the owner of the mutex,
  whose result the code drops, and a wait once it has blocked, which returns 0.
\<close>

section \<open>Model\<close>

record psem =
  p_lock :: "tid option"
  p_waiting :: "tid set"

text \<open>Which of its two objects are initialised.\<close>

record psem_objects =
  lock_live :: bool
  notify_live :: bool

definition psem_init :: "int \<Rightarrow> int \<Rightarrow> int \<times> psem_objects" where
  "psem_init mutex_rc cond_rc =
     (if mutex_rc \<noteq> 0 then (mutex_rc, \<lparr>lock_live = False, notify_live = False\<rparr>)
      else (cond_rc, \<lparr>lock_live = True, notify_live = (cond_rc = 0)\<rparr>))"

text \<open>\<open>psem_destroy\<close>: \<open>None\<close> when it destroys an object that is not initialised, which is undefined.\<close>

definition psem_destroy :: "psem_objects \<Rightarrow> psem_objects option" where
  "psem_destroy s = (if lock_live s \<and> notify_live s then Some \<lparr>lock_live = False, notify_live = False\<rparr> else None)"

datatype qop = QSignal | QBroadcast | QWait

datatype qpc = Q_Lock qop | Q_Act qop | Q_Blocked | Q_Unlock int | Q_Return int

fun psem_act :: "tid \<Rightarrow> tid \<Rightarrow> qop \<Rightarrow> psem \<Rightarrow> (psem \<times> qpc) option" where
  "psem_act i v QSignal s =
     map_option (\<lambda>W. (s\<lparr>p_waiting := W\<rparr>, Q_Unlock 0)) (cond_signal v (p_waiting s))"
| "psem_act i v QBroadcast s = Some (s\<lparr>p_waiting := cond_broadcast (p_waiting s)\<rparr>, Q_Unlock 0)"
| "psem_act i v QWait s = Some (s\<lparr>p_lock := None, p_waiting := insert i (p_waiting s)\<rparr>, Q_Blocked)"

text \<open>\<open>psem_signal\<close>, \<open>psem_broadcast\<close> and \<open>psem_wait\<close>: lock, act, unlock, return the first error.\<close>

fun psem_step :: "tid \<Rightarrow> tid \<Rightarrow> int \<Rightarrow> qpc \<Rightarrow> psem \<Rightarrow> (psem \<times> qpc) option" where
  "psem_step i v err (Q_Lock op) s =
     (if err \<noteq> 0 then Some (s, Q_Return err)
      else if p_lock s = None then Some (s\<lparr>p_lock := Some i\<rparr>, Q_Act op) else None)"
| "psem_step i v err (Q_Act op) s = (if err \<noteq> 0 then Some (s, Q_Unlock err) else psem_act i v op s)"
| "psem_step i v err Q_Blocked s =
     (if i \<in> p_waiting s \<or> p_lock s \<noteq> None then None else Some (s\<lparr>p_lock := Some i\<rparr>, Q_Unlock 0))"
| "psem_step i v err (Q_Unlock e) s = Some (s\<lparr>p_lock := None\<rparr>, Q_Return e)"
| "psem_step i v err (Q_Return e) s = None"

record psem_system =
  p_mem :: psem
  p_pcs :: "tid \<Rightarrow> qpc"

datatype psem_event = QStep tid tid int | QCall tid qop | QSpurious tid

fun psem_next :: "psem_event \<Rightarrow> psem_system \<Rightarrow> psem_system option" where
  "psem_next (QStep i v err) s =
     (case psem_step i v err (p_pcs s i) (p_mem s) of None \<Rightarrow> None
      | Some (m, p) \<Rightarrow> Some \<lparr>p_mem = m, p_pcs = (p_pcs s)(i := p)\<rparr>)"
| "psem_next (QCall i op) s =
     (case p_pcs s i of Q_Return e \<Rightarrow> Some (s\<lparr>p_pcs := (p_pcs s)(i := Q_Lock op)\<rparr>) | _ \<Rightarrow> None)"
| "psem_next (QSpurious i) s =
     (if i \<in> p_waiting (p_mem s)
      then Some (s\<lparr>p_mem := (p_mem s)\<lparr>p_waiting := p_waiting (p_mem s) - {i}\<rparr>\<rparr>) else None)"

definition psem_new :: psem_system where
  "psem_new = \<lparr>p_mem = \<lparr>p_lock = None, p_waiting = {}\<rparr>, p_pcs = (\<lambda>_. Q_Return 0)\<rparr>"

text \<open>\<open>sysconf\<close> returns a \<open>long\<close>, which \<open>threads_cpu_count\<close> casts to \<open>int\<close>.\<close>

definition threads_cpu_count :: "int \<Rightarrow> int" where
  "threads_cpu_count sysconf_result = signed_take_bit 31 sysconf_result"

section \<open>The mutex\<close>

fun p_holds :: "qpc \<Rightarrow> bool" where
  "p_holds (Q_Act op) \<longleftrightarrow> True"
| "p_holds (Q_Unlock e) \<longleftrightarrow> True"
| "p_holds _ \<longleftrightarrow> False"

definition psem_inv :: "psem_system \<Rightarrow> bool" where
  "psem_inv s \<longleftrightarrow> (\<forall>i. p_holds (p_pcs s i) \<longleftrightarrow> p_lock (p_mem s) = Some i) \<and>
     (\<forall>i \<in> p_waiting (p_mem s). p_pcs s i = Q_Blocked)"

lemma psem_step_lock:
  assumes "psem_step i v err p m = Some (m', p')"
  shows "(p_holds p' = p_holds p \<and> p_lock m' = p_lock m) \<or>
    (\<not> p_holds p \<and> p_holds p' \<and> p_lock m = None \<and> p_lock m' = Some i) \<or>
    (p_holds p \<and> \<not> p_holds p' \<and> p_lock m' = None)"
proof (cases p)
  case (Q_Act op)
  with assms show ?thesis by (cases op) (auto split: if_splits)
qed (use assms in \<open>auto split: if_splits\<close>)

lemma psem_step_waiting:
  assumes "psem_step i v err p m = Some (m', p')"
  shows "(p_waiting m' \<subseteq> p_waiting m \<or> p' = Q_Blocked \<and> p_waiting m' = insert i (p_waiting m)) \<and>
    (p = Q_Blocked \<longrightarrow> i \<notin> p_waiting m')"
proof (cases p)
  case (Q_Act op)
  with assms show ?thesis
    by (cases op) (auto simp: cond_broadcast_def dest: cond_signal_subset [THEN subsetD] split: if_splits)
qed (use assms in \<open>auto split: if_splits\<close>)

lemma psem_step_Some:
  "psem_next (QStep i v err) s = Some s' \<longleftrightarrow>
    (\<exists>m p. psem_step i v err (p_pcs s i) (p_mem s) = Some (m, p) \<and>
      s' = \<lparr>p_mem = m, p_pcs = (p_pcs s)(i := p)\<rparr>)"
proof (cases "psem_step i v err (p_pcs s i) (p_mem s)")
  case (Some mp)
  obtain m p where "mp = (m, p)" by (cases mp)
  with Some have e: "psem_step i v err (p_pcs s i) (p_mem s) = Some (m, p)" by (simp only:)
  show ?thesis unfolding psem_next.simps e by auto
qed simp

lemma psem_inv_next:
  assumes inv: "psem_inv s" and n: "psem_next e s = Some s'"
  shows "psem_inv s'"
proof -
  have own: "p_holds (p_pcs s j) \<longleftrightarrow> p_lock (p_mem s) = Some j" for j
    using inv unfolding psem_inv_def by blast
  show ?thesis
  proof (cases e)
    case (QStep i v err)
    with n obtain m p where e: "psem_step i v err (p_pcs s i) (p_mem s) = Some (m, p)"
      and s': "s' = \<lparr>p_mem = m, p_pcs = (p_pcs s)(i := p)\<rparr>"
      by (auto simp only: psem_step_Some)
    have "p_holds (((p_pcs s)(i := p)) j) \<longleftrightarrow> p_lock m = Some j" for j
      using psem_step_lock[OF e] own[of i] own[of j] by (cases "j = i") auto
    moreover have "((p_pcs s)(i := p)) j = Q_Blocked" if "j \<in> p_waiting m" for j
      using psem_step_waiting[OF e] inv that by (cases "j = i") (auto simp: psem_inv_def)
    ultimately show ?thesis by (simp add: psem_inv_def s')
  next
    case (QCall i op)
    with n obtain c where c: "p_pcs s i = Q_Return c" and s': "s' = s\<lparr>p_pcs := (p_pcs s)(i := Q_Lock op)\<rparr>"
      by (auto split: qpc.splits)
    have "p_holds (((p_pcs s)(i := Q_Lock op)) j) \<longleftrightarrow> p_lock (p_mem s) = Some j" for j
      using own[of j] c by (cases "j = i") auto
    with inv c show ?thesis by (auto simp: psem_inv_def s')
  next
    case (QSpurious i)
    with n inv show ?thesis by (auto simp: psem_inv_def split: if_splits)
  qed
qed

lemma psem_inv_new: "s = psem_new \<Longrightarrow> psem_inv s"
  by (simp add: psem_inv_def psem_new_def)

interpretation psem: safety "\<lambda>s. s = psem_new" psem_next psem_inv
  by unfold_locales (blast intro: psem_inv_new psem_inv_next)+

text \<open>
  C36: The three operations of a \<open>psem\<close> use its mutex correctly whatever the pthread calls
  return: at most one thread is between locking and unlocking, and a call that has returned,
  with success or with an error, does not own the mutex.
\<close>

theorem psem_releases_mutex:
  assumes "reach (\<lambda>s. s = psem_new) psem_next s"
  shows "(\<forall>i j. p_holds (p_pcs s i) \<and> p_holds (p_pcs s j) \<longrightarrow> i = j) \<and>
    (p_pcs s i = Q_Return e \<longrightarrow> p_lock (p_mem s) \<noteq> Some i)"
proof -
  have own: "p_holds (p_pcs s j) \<longleftrightarrow> p_lock (p_mem s) = Some j" for j
    using psem.reach_inv[OF assms] unfolding psem_inv_def by blast
  then have "p_pcs s i = Q_Return e \<longrightarrow> p_lock (p_mem s) \<noteq> Some i" by (metis p_holds.simps(5))
  then show ?thesis by (auto simp: own)
qed

theorem psem_releases_mutex_witness:
  "\<exists>s. reach (\<lambda>s. s = psem_new) psem_next s \<and> p_pcs s (Client 0) = Q_Return 22 \<and>
    p_lock (p_mem s) \<noteq> Some (Client 0)"
proof -
  obtain s where s: "run psem_next [QCall (Client 0) QWait, QStep (Client 0) (Client 0) 0,
      QStep (Client 0) (Client 0) 22, QStep (Client 0) (Client 0) 0] psem_new = Some s"
    "p_pcs s (Client 0) = Q_Return 22"
    by (simp add: psem_new_def)
  have "reach (\<lambda>s. s = psem_new) psem_next psem_new" by (rule reach_init) simp
  note r = reach_run[OF s(1) this]
  from psem_releases_mutex[OF r, of "Client 0" 22] r s(2) show ?thesis by blast
qed

text \<open>
  A \<open>psem\<close> remembers no signal: with nobody waiting, a complete \<open>psem_signal\<close> returns 0
  and changes nothing, so a \<open>psem_wait\<close> that follows it blocks.
\<close>

theorem psem_signal_not_remembered:
  assumes "p_lock (p_mem s) = None" and "p_waiting (p_mem s) = {}"
    and "p_pcs s i = Q_Return e" and "p_pcs s j = Q_Return e'" and "i \<noteq> j"
  shows "run psem_next (QCall i QSignal # replicate 3 (QStep i v 0)) s =
      Some (s\<lparr>p_pcs := (p_pcs s)(i := Q_Return 0)\<rparr>) \<and>
    (\<exists>s'. run psem_next (QCall i QSignal # replicate 3 (QStep i v 0) @
        QCall j QWait # replicate 2 (QStep j v 0)) s = Some s' \<and>
      p_pcs s' j = Q_Blocked \<and> (\<forall>v err. psem_next (QStep j v err) s' = None))"
  using assms by (cases s) (auto simp: numeral_3_eq_3 numeral_2_eq_2 cond_signal_def)

theorem psem_signal_not_remembered_witness:
  "run psem_next (QCall (Client 0) QSignal # replicate 3 (QStep (Client 0) (Client 0) 0)) psem_new =
    Some (psem_new\<lparr>p_pcs := (p_pcs psem_new)(Client 0 := Q_Return 0)\<rparr>)"
  using psem_signal_not_remembered[of psem_new "Client 0" 0 "Client 1" 0 "Client 0"]
  by (simp add: psem_new_def del: run.simps)

text \<open>
  An initialisation that succeeds is undone by \<open>psem_destroy\<close>. One that fails in its second
  step leaves the mutex initialised, and nothing the interface offers can release it: calling
  \<open>psem_destroy\<close> destroys a condition variable that does not exist.
\<close>

theorem psem_init_failure_leaks:
  "(case psem_init mutex_rc cond_rc of (r, s) \<Rightarrow>
     (r = 0 \<longleftrightarrow> psem_destroy s = Some \<lparr>lock_live = False, notify_live = False\<rparr>) \<and>
     (lock_live s \<longleftrightarrow> mutex_rc = 0) \<and> (mutex_rc = 0 \<and> cond_rc \<noteq> 0 \<longrightarrow> r = cond_rc \<and> psem_destroy s = None))"
  by (simp add: psem_init_def psem_destroy_def)

end
