(* ===== verification/UsemSteps.thy ===== *)
theory UsemSteps
  imports Usem Semaphore
begin

text \<open>
  The POSIX form of \<open>include/threads/usem.h\<close> with several threads: each step is one call of
  the system's semaphore, which may be interrupted; the loops of the code repeat it. A ledger of
  the units and of the calls shows that every call does and returns what it should.
\<close>

section \<open>Steps\<close>

text \<open>What the kernel does with a call: let it go through, interrupt it, or let its time run out.\<close>

datatype kernel = Proceeds | Interrupted | Expires

text \<open>\<open>U_Count n\<close> is the loop of \<open>usem_signal_count\<close> with \<open>n\<close> still to post.\<close>

datatype upc = U_Wait | U_TryWait | U_TimedWait | U_Signal | U_Count int | UReturned ret

definition unless_interrupted :: "kernel \<Rightarrow> upc \<Rightarrow> nat \<Rightarrow> (nat \<times> upc) option \<Rightarrow> (nat \<times> upc) option" where
  "unless_interrupted k p v r = (if k = Interrupted then Some (v, p) else r)"

fun usem_step :: "kernel \<Rightarrow> upc \<Rightarrow> nat \<Rightarrow> (nat \<times> upc) option" where
  "usem_step k U_Wait v = unless_interrupted k U_Wait v
     (if 0 < v then Some (v - 1, UReturned (RInt 0)) else None)"
| "usem_step k U_TryWait v = unless_interrupted k U_TryWait v
     (if 0 < v then Some (v - 1, UReturned (RInt 0)) else Some (v, UReturned (RErr EAGAIN)))"
| "usem_step k U_TimedWait v = unless_interrupted k U_TimedWait v
     (if k = Expires then Some (v, UReturned (RErr ETIMEDOUT))
      else if 0 < v then Some (v - 1, UReturned (RInt 0)) else None)"
| "usem_step k U_Signal v =
     (case sem_post v of None \<Rightarrow> Some (v, U_Signal) | Some v' \<Rightarrow> Some (v', UReturned RVoid))"
| "usem_step k (U_Count n) v =
     (if n \<le> 0 then Some (v, UReturned RVoid)
      else case sem_post v of None \<Rightarrow> Some (v, U_Count n) | Some v' \<Rightarrow> Some (v', U_Count (n - 1)))"
| "usem_step k (UReturned r) v = None"

record usem_system =
  uvalue :: nat
  upcs :: "tid \<Rightarrow> upc"

datatype usem_call = UCallWait | UCallTryWait | UCallTimedWait | UCallSignal | UCallSignalCount int

fun usem_entry :: "usem_call \<Rightarrow> upc" where
  "usem_entry UCallWait = U_Wait"
| "usem_entry UCallTryWait = U_TryWait"
| "usem_entry UCallTimedWait = U_TimedWait"
| "usem_entry UCallSignal = U_Signal"
| "usem_entry (UCallSignalCount n) = U_Count n"

datatype usem_event = UStep tid kernel | UCall tid usem_call

fun usem_next :: "usem_event \<Rightarrow> usem_system \<Rightarrow> usem_system option" where
  "usem_next (UStep i k) s =
     (case usem_step k (upcs s i) (uvalue s) of None \<Rightarrow> None
      | Some (v, p) \<Rightarrow> Some \<lparr>uvalue = v, upcs = (upcs s)(i := p)\<rparr>)"
| "usem_next (UCall i f) s =
     (case upcs s i of UReturned r \<Rightarrow> Some (s\<lparr>upcs := (upcs s)(i := usem_entry f)\<rparr>) | _ \<Rightarrow> None)"

definition usem_start :: "usem_system \<Rightarrow> bool" where
  "usem_start s \<longleftrightarrow> (\<exists>n v. usem_init n = Inr v \<and> s = \<lparr>uvalue = v, upcs = (\<lambda>_. UReturned RVoid)\<rparr>)"

section \<open>It is a counting semaphore\<close>

fun usem_action :: "usem_event \<Rightarrow> usem_system \<Rightarrow> usem_system \<Rightarrow> sem_action" where
  "usem_action (UStep i k) s s' =
     (if upcs s' i = UReturned (RInt 0) then SemGot
      else if uvalue s < uvalue s' then SemGave 1 else SemTau)"
| "usem_action (UCall i f) s s' = SemTau"

fun usem_gives :: "upc \<Rightarrow> bool" where
  "usem_gives U_Signal \<longleftrightarrow> True"
| "usem_gives (U_Count n) \<longleftrightarrow> 0 < n"
| "usem_gives _ \<longleftrightarrow> False"

lemma usem_step_Some:
  "usem_next (UStep i k) s = Some s' \<longleftrightarrow>
    (\<exists>v p. usem_step k (upcs s i) (uvalue s) = Some (v, p) \<and> s' = \<lparr>uvalue = v, upcs = (upcs s)(i := p)\<rparr>)"
  by (auto split: option.splits)

lemma usem_call_Some:
  "usem_next (UCall i f) s = Some s' \<longleftrightarrow>
    (\<exists>r. upcs s i = UReturned r) \<and> s' = s\<lparr>upcs := (upcs s)(i := usem_entry f)\<rparr>"
  by (auto split: upc.splits)

fun_cases usem_stepE: "usem_step k p v = Some r"

lemma usem_step_does:
  "usem_step k p v = Some (v', p') \<Longrightarrow>
    (p' = UReturned (RInt 0) \<and> v = v' + 1 \<and> \<not> usem_gives p) \<or>
    (p' \<noteq> UReturned (RInt 0) \<and> v' = v + 1 \<and> v < SEM_VALUE_MAX \<and> usem_gives p) \<or>
    (p' \<noteq> UReturned (RInt 0) \<and> v' = v \<and> (usem_gives p \<longrightarrow> v \<ge> SEM_VALUE_MAX \<and> p' = p))"
  by (erule usem_stepE) (auto simp: unless_interrupted_def sem_post_def split: if_splits)

definition usem_inv :: "usem_system \<Rightarrow> bool" where
  "usem_inv s \<longleftrightarrow> uvalue s \<le> SEM_VALUE_MAX"

interpretation usem_sys: safety usem_start usem_next usem_inv
proof
  fix s assume "usem_start s"
  then show "usem_inv s"
    by (auto simp: usem_start_def usem_init_def sem_init_def usem_inv_def split: if_splits)
next
  fix s e s' assume inv: "usem_inv s" and n: "usem_next e s = Some s'"
  show "usem_inv s'"
  proof (cases e)
    case (UStep i k)
    with n obtain v p where "usem_step k (upcs s i) (uvalue s) = Some (v, p)"
      and "s' = \<lparr>uvalue = v, upcs = (upcs s)(i := p)\<rparr>" by (auto simp only: usem_step_Some)
    with usem_step_does inv show ?thesis by (fastforce simp: usem_inv_def)
  next
    case (UCall i f)
    with n inv show ?thesis by (auto simp only: usem_call_Some) (simp add: usem_inv_def)
  qed
qed

section \<open>The ledger\<close>

text \<open>
  The system with its history: the value it started with, the units that calls of
  \<open>usem_signal\<close> and \<open>usem_signal_count\<close> have been asked to give, those that waits have got, and
  the last call of each thread.
\<close>

record usem_ledger =
  usys :: usem_system
  initially :: nat
  promised :: nat
  got :: nat
  current_call :: "tid \<Rightarrow> usem_call option"

fun call_units :: "usem_call \<Rightarrow> nat" where
  "call_units UCallSignal = 1"
| "call_units (UCallSignalCount n) = nat n"
| "call_units _ = 0"

fun ledger_entry :: "usem_event \<Rightarrow> usem_system \<Rightarrow> usem_ledger \<Rightarrow> usem_ledger" where
  "ledger_entry (UStep i k) s' L = L\<lparr>usys := s', got := got L + of_bool (upcs s' i = UReturned (RInt 0))\<rparr>"
| "ledger_entry (UCall i f) s' L =
     L\<lparr>usys := s', promised := promised L + call_units f, current_call := (current_call L)(i := Some f)\<rparr>"

definition ledger_next :: "usem_event \<Rightarrow> usem_ledger \<Rightarrow> usem_ledger option" where
  "ledger_next e L = map_option (\<lambda>s'. ledger_entry e s' L) (usem_next e (usys L))"

definition ledger_start :: "usem_ledger \<Rightarrow> bool" where
  "ledger_start L \<longleftrightarrow> usem_start (usys L) \<and> initially L = uvalue (usys L) \<and> promised L = 0 \<and> got L = 0 \<and>
     current_call L = (\<lambda>_. None)"

text \<open>What a call still has to post, and what it may return.\<close>

fun owed :: "upc \<Rightarrow> nat" where
  "owed U_Signal = 1"
| "owed (U_Count n) = nat n"
| "owed _ = 0"

fun usem_result :: "usem_call \<Rightarrow> ret \<Rightarrow> bool" where
  "usem_result UCallWait r \<longleftrightarrow> r = RInt 0"
| "usem_result UCallTryWait r \<longleftrightarrow> r = RInt 0 \<or> r = RErr EAGAIN"
| "usem_result UCallTimedWait r \<longleftrightarrow> r = RInt 0 \<or> r = RErr ETIMEDOUT"
| "usem_result UCallSignal r \<longleftrightarrow> r = RVoid"
| "usem_result (UCallSignalCount n) r \<longleftrightarrow> r = RVoid"

text \<open>The program points of a call.\<close>

fun usem_inside :: "usem_call \<Rightarrow> upc \<Rightarrow> bool" where
  "usem_inside f (UReturned r) \<longleftrightarrow> usem_result f r"
| "usem_inside f (U_Count n) \<longleftrightarrow> (\<exists>m. f = UCallSignalCount m)"
| "usem_inside f p \<longleftrightarrow> usem_entry f = p"

fun last_inside :: "usem_call option \<Rightarrow> upc \<Rightarrow> bool" where
  "last_inside None p \<longleftrightarrow> p = UReturned RVoid"
| "last_inside (Some f) p \<longleftrightarrow> usem_inside f p"

definition ledger_inv :: "usem_ledger \<Rightarrow> bool" where
  "ledger_inv L \<longleftrightarrow> usem_inv (usys L) \<and>
     uvalue (usys L) + got L + tsum owed (upcs (usys L)) = initially L + promised L \<and>
     (\<forall>i. last_inside (current_call L i) (upcs (usys L) i))"

lemma usem_step_pays:
  "usem_step k p v = Some (v', p') \<Longrightarrow>
    v' + of_bool (p' = UReturned (RInt 0)) + owed p' = v + owed p \<and>
    (usem_inside f p \<longrightarrow> usem_inside f p') \<and> (p' = UReturned (RErr EAGAIN) \<longrightarrow> v = 0)"
  by (erule usem_stepE; cases f) (auto simp: unless_interrupted_def sem_post_def split: if_splits)

lemma usem_entry_opens [simp]:
  "usem_inside f (usem_entry f)" "owed (usem_entry f) = call_units f"
  by (cases f; simp)+

lemma returned_no_step: "usem_step k p v = Some r \<Longrightarrow> p \<noteq> UReturned q"
  by (cases p) auto

interpretation ledger: safety ledger_start ledger_next ledger_inv
proof
  fix L assume start: "ledger_start L"
  then have "usem_inv (usys L)" and "upcs (usys L) = (\<lambda>_. UReturned RVoid)"
    using usem_sys.inv_init by (auto simp: ledger_start_def usem_start_def)
  moreover from this have "tsum owed (upcs (usys L)) = 0" by (intro tsum_const_zero) simp
  ultimately show "ledger_inv L" using start by (simp add: ledger_start_def ledger_inv_def)
next
  fix L e L' assume inv: "ledger_inv L" and n: "ledger_next e L = Some L'"
  from n obtain s' where n': "usem_next e (usys L) = Some s'" and L': "L' = ledger_entry e s' L"
    by (auto simp: ledger_next_def)
  have sys: "usem_inv s'" using usem_sys.inv_next[OF _ n'] inv by (simp add: ledger_inv_def)
  show "ledger_inv L'"
  proof (cases e)
    case (UStep i k)
    with n' obtain v p where e: "usem_step k (upcs (usys L) i) (uvalue (usys L)) = Some (v, p)"
      and s': "s' = \<lparr>uvalue = v, upcs = (upcs (usys L))(i := p)\<rparr>" by (auto simp only: usem_step_Some)
    have "last_inside (current_call L i) (upcs (usys L) i)" using inv by (simp add: ledger_inv_def)
    then have "last_inside (current_call L i) p"
      using usem_step_pays[OF e] returned_no_step[OF e] by (cases "current_call L i") auto
    moreover have "tsum owed ((upcs (usys L))(i := p)) + owed (upcs (usys L) i) =
        tsum owed (upcs (usys L)) + owed p" by (rule tsum_upd)
    moreover have "v + of_bool (p = UReturned (RInt 0)) + owed p = uvalue (usys L) + owed (upcs (usys L) i)"
      using usem_step_pays[OF e] by blast
    ultimately show ?thesis using inv sys
      by (simp add: ledger_inv_def L' UStep s')
  next
    case (UCall i f)
    with n' obtain r where r: "upcs (usys L) i = UReturned r"
      and s': "s' = (usys L)\<lparr>upcs := (upcs (usys L))(i := usem_entry f)\<rparr>" by (auto simp only: usem_call_Some)
    have "tsum owed ((upcs (usys L))(i := usem_entry f)) + owed (upcs (usys L) i) =
        tsum owed (upcs (usys L)) + owed (usem_entry f)" by (rule tsum_upd)
    with r inv sys show ?thesis by (simp add: ledger_inv_def L' UCall s' )
  qed
qed

lemma ledger_reach:
  assumes "reach ledger_start ledger_next L"
  shows "reach usem_start usem_next (usys L)"
  using assms
proof (induction rule: reach.induct)
  case (reach_init L)
  then show ?case by (intro reach.reach_init) (simp add: ledger_start_def)
next
  case (reach_step L e L')
  then obtain s' where n: "usem_next e (usys L) = Some s'" and L': "L' = ledger_entry e s' L"
    by (auto simp: ledger_next_def)
  have "usys L' = s'" by (cases e) (simp_all add: L')
  with reach.reach_step[OF reach_step.IH n] show ?case by simp
qed

text \<open>
  C13: The POSIX semaphore wrapper is a counting semaphore in every interleaving and however
  often calls are interrupted. Each step is one of a counting semaphore: a wait that returns 0
  takes one unit, a signalling call adds one unit at a time, except at \<open>SEM_VALUE_MAX\<close>, where it
  makes no progress, and nothing else changes the value. The account is exact: the value, the
  units waits have got and those that signalling calls still have to post are the initial value
  and all units signalled, one for each \<open>usem_signal\<close> and \<open>count\<close> for \<open>usem_signal_count\<close> (none for a
  negative count). And no call reports an interruption: \<open>usem_wait\<close> returns only 0,
  \<open>usem_try_wait\<close> 0, or -1 with \<open>EAGAIN\<close> at a moment when the value is 0, and \<open>usem_timed_wait\<close> 0,
  or -1 with \<open>ETIMEDOUT\<close>.
\<close>

theorem usem_refines_semaphore:
  assumes "reach ledger_start ledger_next L" and "ledger_next e L = Some L'"
    and "s = usys L" and "s' = usys L'"
  shows "sem_does (uvalue s) (usem_action e s s') (uvalue s') \<and> uvalue s' \<le> SEM_VALUE_MAX \<and>
    (usem_gives (upcs s i) \<and> e = UStep i k \<longrightarrow>
      (if uvalue s < SEM_VALUE_MAX then uvalue s' = uvalue s + 1 else s' = s)) \<and>
    uvalue s' + got L' + tsum owed (upcs s') = initially L' + promised L' \<and>
    (current_call L' i = Some f \<and> upcs s' i = UReturned r \<longrightarrow> usem_result f r) \<and>
    (e = UStep i k \<and> upcs s' i = UReturned (RErr EAGAIN) \<longrightarrow> uvalue s = 0)"
proof -
  have inv: "ledger_inv L'" by (rule ledger.reach_inv[OF reach.reach_step[OF assms(1,2)]])
  then have res: "current_call L' i = Some f \<and> upcs s' i = UReturned r \<longrightarrow> usem_result f r"
    unfolding assms(4) ledger_inv_def by (metis last_inside.simps(2) usem_inside.simps(1))
  from assms(2) have n: "usem_next e s = Some s'"
    unfolding assms(3,4) by (cases e) (auto simp: ledger_next_def)
  have "sem_does (uvalue s) (usem_action e s s') (uvalue s') \<and>
    (usem_gives (upcs s i) \<and> e = UStep i k \<longrightarrow>
      (if uvalue s < SEM_VALUE_MAX then uvalue s' = uvalue s + 1 else s' = s)) \<and>
    (e = UStep i k \<and> upcs s' i = UReturned (RErr EAGAIN) \<longrightarrow> uvalue s = 0)"
  proof (cases e)
    case (UStep j k')
    with n obtain v p where e: "usem_step k' (upcs s j) (uvalue s) = Some (v, p)"
      and s': "s' = \<lparr>uvalue = v, upcs = (upcs s)(j := p)\<rparr>" by (auto simp only: usem_step_Some)
    from usem_step_does[OF e] usem_step_pays[OF e] show ?thesis
      by (auto simp: UStep s' sem_does_simps)
  next
    case (UCall j g)
    with n show ?thesis by (auto simp only: usem_call_Some) (simp add: sem_does_simps)
  qed
  moreover have "uvalue s' \<le> SEM_VALUE_MAX \<and> uvalue s' + got L' + tsum owed (upcs s') = initially L' + promised L'"
    using inv by (simp add: ledger_inv_def usem_inv_def assms(4))
  ultimately show ?thesis using res by blast
qed

text \<open>Client 0 waits and is interrupted, client 1 gives it a unit with \<open>usem_signal_count\<close>.\<close>

definition ledger_zero :: usem_ledger where
  "ledger_zero = \<lparr>usys = \<lparr>uvalue = 0, upcs = (\<lambda>_. UReturned RVoid)\<rparr>, initially = 0, promised = 0, got = 0,
     current_call = (\<lambda>_. None)\<rparr>"

lemma ledger_zero_reach: "reach ledger_start ledger_next ledger_zero"
proof (rule reach.reach_init)
  have "usem_start (usys ledger_zero)"
    unfolding usem_start_def
    by (rule exI[of _ 0], rule exI[of _ 0]) (simp add: usem_init_def sem_init_def ledger_zero_def)
  then show "ledger_start ledger_zero" by (simp add: ledger_start_def ledger_zero_def)
qed

definition sched_ledger :: "usem_event list" where
  "sched_ledger = [UCall (Client 0) UCallWait, UStep (Client 0) Interrupted,
     UCall (Client 1) (UCallSignalCount 1), UStep (Client 1) Proceeds]"

theorem usem_refines_semaphore_witness:
  "\<exists>L L'. run ledger_next sched_ledger ledger_zero = Some L \<and>
    ledger_next (UStep (Client 0) Proceeds) L = Some L' \<and> upcs (usys L') (Client 0) = UReturned (RInt 0) \<and>
    uvalue (usys L') + got L' + tsum owed (upcs (usys L')) = 1"
proof -
  obtain L L' where L: "run ledger_next sched_ledger ledger_zero = Some L"
    and n: "ledger_next (UStep (Client 0) Proceeds) L = Some L'"
    and p: "upcs (usys L') (Client 0) = UReturned (RInt 0)" "initially L' = 0" "promised L' = 1"
    by (simp add: sched_ledger_def ledger_next_def ledger_zero_def unless_interrupted_def sem_post_def SEM_VALUE_MAX_def)
  from usem_refines_semaphore[OF reach_run[OF L ledger_zero_reach] n refl refl] p(2,3)
  have "uvalue (usys L') + got L' + tsum owed (upcs (usys L')) = 1" by (simp only: add_0)
  with L n p(1) show ?thesis by blast
qed

end
