(* ===== verification/SemBenchProps.thy ===== *)
theory SemBenchProps
  imports SemRest LusemSpec Psem UsemSteps
begin

text \<open>
  The benchmark of the semaphore tests over the three semaphores of the library: what its
  check can detect, and that it cannot deadlock.
\<close>

section \<open>The three semaphores\<close>

text \<open>\<open>lusem_test.c\<close>\<close>

fun lus_call_event :: "lus_event \<Rightarrow> bool" where
  "lus_call_event (LusCall i f) \<longleftrightarrow> True"
| "lus_call_event (LusStep i v) \<longleftrightarrow> False"

fun lus_returned :: "lpc \<Rightarrow> bool" where
  "lus_returned (LReturned r) \<longleftrightarrow> True"
| "lus_returned _ \<longleftrightarrow> False"

fun lus_waits :: "lpc \<Rightarrow> bool" where
  "lus_waits (Trying p) \<longleftrightarrow> True"
| "lus_waits (Spinning p) \<longleftrightarrow> True"
| "lus_waits _ \<longleftrightarrow> False"

definition lus_ops :: "(lus_event, lus_system) semaphore_ops" where
  "lus_ops = \<lparr>sem_next = lus_next, sem_wait = (\<lambda>i. LusCall i LWait), sem_signal = (\<lambda>i. LusCall i Signal),
     sem_is_call = lus_call_event, sem_is_step = (\<lambda>e. \<not> lus_call_event e),
     sem_outside = (\<lambda>s i. lus_returned (lpcs s i))\<rparr>"

lemma lus_exec_class:
  "lus_exec v p m = Some (m', p') \<Longrightarrow> \<not> lus_returned p \<and> (\<not> lus_waits p \<longrightarrow> \<not> lus_waits p')"
  by (cases p) (auto simp: lus_resume_at_Some)

lemma lus_event_class:
  assumes "lus_next e s = Some s'" and "\<not> lus_call_event e \<or> (\<exists>j. j \<noteq> i \<and> (e = LusCall j LWait \<or> e = LusCall j Signal))"
  shows "(lus_returned (lpcs s i) \<longrightarrow> lus_returned (lpcs s' i)) \<and> (\<not> lus_waits (lpcs s i) \<longrightarrow> \<not> lus_waits (lpcs s' i))"
proof (cases e)
  case (LusStep j v)
  with assms(1) obtain m p where e: "lus_exec v (lpcs s j) (lmem s) = Some (m, p)"
    and s': "s' = \<lparr>lmem = m, lpcs = (lpcs s)(j := p)\<rparr>" by (auto simp only: lus_step_Some)
  from lus_exec_class[OF e] show ?thesis by (simp add: s')
next
  case (LusCall j f)
  with assms show ?thesis by (auto simp: lus_call_Some simp del: lus_next.simps)
qed

lemma lus_signal_class:
  "lus_next (LusCall j Signal) s = Some s' \<Longrightarrow> \<not> lus_waits (lpcs s i) \<Longrightarrow> \<not> lus_waits (lpcs s' i)"
  by (auto simp: lus_call_Some simp del: lus_next.simps)

lemma signal_step_moves: "lus_exec v (Signalling p) m \<noteq> None"
  by (cases p) (auto split: option.splits)

interpretation lus_semaphore: semaphore lus_ops lus_init "\<lambda>s. True" "\<lambda>s i. lus_waits (lpcs s i)"
proof
  fix s i assume "lus_init s"
  then show "sem_outside lus_ops s i" by (auto simp: lus_init_def lus_new_def lus_ops_def)
next
  fix s i assume "sem_outside lus_ops s i"
  then have "lus_returned (lpcs s i)" by (simp add: lus_ops_def)
  then show "sem_next lus_ops (sem_wait lus_ops i) s \<noteq> None" "sem_next lus_ops (sem_signal lus_ops i) s \<noteq> None"
    "\<not> lus_waits (lpcs s i)"
    by (cases "lpcs s i"; simp add: lus_ops_def)+
next
  fix s s' e i
  assume n: "sem_next lus_ops e s = Some s'"
    and c: "\<not> sem_is_call lus_ops e \<or> (\<exists>j. j \<noteq> i \<and> (e = sem_wait lus_ops j \<or> e = sem_signal lus_ops j))"
    and o: "sem_outside lus_ops s i"
  then show "sem_outside lus_ops s' i" using lus_event_class[of e s s' i] by (simp add: lus_ops_def)
next
  fix s s' e i
  assume "sem_next lus_ops e s = Some s'"
    and "\<not> sem_is_call lus_ops e \<or> (\<exists>j. e = sem_signal lus_ops j \<or> j \<noteq> i \<and> e = sem_wait lus_ops j)"
    and "\<not> lus_waits (lpcs s i)"
  then show "\<not> lus_waits (lpcs s' i)"
    using lus_event_class[of e s s' i] lus_signal_class by (auto simp: lus_ops_def)
next
  fix s i
  assume rest: "\<And>e. sem_is_step lus_ops e \<Longrightarrow> sem_next lus_ops e s = None"
  have "lus_next (LusStep i False) s = None" using rest[of "LusStep i False"] by (simp add: lus_ops_def)
  then have "lus_exec False (lpcs s i) (lmem s) = None" by (auto split: option.splits)
  with signal_step_moves have "lpcs s i \<noteq> Signalling p" for p by metis
  then show "sem_outside lus_ops s i \<or> lus_waits (lpcs s i)" by (cases "lpcs s i") (auto simp: lus_ops_def)
qed (simp_all add: lus_ops_def)

text \<open>
  \<open>psem_test.c\<close>. A wake-up without a signal is neither a call nor a step; nor does the rest of
  the threads depend on pthread calls failing.
\<close>

fun psem_call_event :: "psem_event \<Rightarrow> bool" where
  "psem_call_event (QCall i op) \<longleftrightarrow> True"
| "psem_call_event _ \<longleftrightarrow> False"

fun psem_step_event :: "psem_event \<Rightarrow> bool" where
  "psem_step_event (QStep i v err) \<longleftrightarrow> err = 0"
| "psem_step_event _ \<longleftrightarrow> False"

fun psem_returned :: "qpc \<Rightarrow> bool" where
  "psem_returned (Q_Return e) \<longleftrightarrow> True"
| "psem_returned _ \<longleftrightarrow> False"

fun psem_waits :: "qpc \<Rightarrow> bool" where
  "psem_waits (Q_Lock op) \<longleftrightarrow> op = QWait"
| "psem_waits (Q_Act op) \<longleftrightarrow> op = QWait"
| "psem_waits Q_Blocked \<longleftrightarrow> True"
| "psem_waits _ \<longleftrightarrow> False"

definition psem_ops :: "(psem_event, psem_system) semaphore_ops" where
  "psem_ops = \<lparr>sem_next = psem_next, sem_wait = (\<lambda>i. QCall i QWait), sem_signal = (\<lambda>i. QCall i QSignal),
     sem_is_call = psem_call_event, sem_is_step = psem_step_event,
     sem_outside = (\<lambda>s i. psem_returned (p_pcs s i))\<rparr>"

lemma psem_step_class:
  assumes "psem_step i v err p m = Some (m', p')"
  shows "\<not> psem_returned p \<and> (\<not> psem_waits p \<longrightarrow> \<not> psem_waits p')"
proof (cases p)
  case (Q_Act op)
  with assms show ?thesis by (cases op) (auto split: if_splits)
qed (use assms in \<open>auto split: if_splits\<close>)

lemma psem_call_Some:
  "psem_next (QCall i op) s = Some s' \<longleftrightarrow>
    psem_returned (p_pcs s i) \<and> s' = s\<lparr>p_pcs := (p_pcs s)(i := Q_Lock op)\<rparr>"
  by (cases "p_pcs s i") auto

lemma psem_event_class:
  assumes "psem_next e s = Some s'" and "\<not> psem_call_event e \<or> (\<exists>j. j \<noteq> i \<and> (e = QCall j QWait \<or> e = QCall j QSignal))"
  shows "(psem_returned (p_pcs s i) \<longrightarrow> psem_returned (p_pcs s' i)) \<and> (\<not> psem_waits (p_pcs s i) \<longrightarrow> \<not> psem_waits (p_pcs s' i))"
proof (cases e)
  case (QStep j v err)
  with assms(1) obtain m p where e: "psem_step j v err (p_pcs s j) (p_mem s) = Some (m, p)"
    and s': "s' = \<lparr>p_mem = m, p_pcs = (p_pcs s)(j := p)\<rparr>" by (auto simp only: psem_step_Some)
  from psem_step_class[OF e] show ?thesis by (simp add: s')
next
  case (QCall j f)
  with assms show ?thesis by (auto simp: psem_call_Some simp del: psem_next.simps)
next
  case (QSpurious j)
  with assms(1) show ?thesis by (auto split: if_splits)
qed

lemma psem_signal_class:
  "psem_next (QCall j QSignal) s = Some s' \<Longrightarrow> \<not> psem_waits (p_pcs s i) \<Longrightarrow> \<not> psem_waits (p_pcs s' i)"
  by (auto simp: psem_call_Some simp del: psem_next.simps)

text \<open>The owner of the mutex can go on; when it is free, so can a thread that wants it.\<close>

lemma psem_holder_moves: "p_holds p \<Longrightarrow> \<exists>v. psem_step i v 0 p m \<noteq> None"
proof (cases p)
  case (Q_Act op)
  with cond_signal_enabled[of "p_waiting m"] show ?thesis by (cases op) auto
qed simp_all

lemma psem_rests:
  assumes inv: "psem_inv s" and rest: "\<And>i v. psem_next (QStep i v 0) s = None"
  shows "psem_returned (p_pcs s i) \<or> psem_waits (p_pcs s i)"
proof -
  have stuck: "psem_step j v 0 (p_pcs s j) (p_mem s) = None" for j v
    using rest[of j v] by (auto split: option.splits)
  have "\<not> p_holds (p_pcs s j)" for j using stuck psem_holder_moves by metis
  with inv have "p_lock (p_mem s) = None" unfolding psem_inv_def by (metis not_None_eq)
  with stuck[of i] \<open>\<not> p_holds (p_pcs s i)\<close> show ?thesis by (cases "p_pcs s i") auto
qed

interpretation psem_semaphore: semaphore psem_ops "\<lambda>s. s = psem_new" psem_inv "\<lambda>s i. psem_waits (p_pcs s i)"
proof
  fix s i assume "s = psem_new"
  then show "sem_outside psem_ops s i" by (simp add: psem_new_def psem_ops_def)
next
  fix s i assume "sem_outside psem_ops s i"
  then have "psem_returned (p_pcs s i)" by (simp add: psem_ops_def)
  then show "sem_next psem_ops (sem_wait psem_ops i) s \<noteq> None" "sem_next psem_ops (sem_signal psem_ops i) s \<noteq> None"
    "\<not> psem_waits (p_pcs s i)"
    by (cases "p_pcs s i"; simp add: psem_ops_def)+
next
  fix s s' e i
  assume "sem_next psem_ops e s = Some s'"
    and "\<not> sem_is_call psem_ops e \<or> (\<exists>j. j \<noteq> i \<and> (e = sem_wait psem_ops j \<or> e = sem_signal psem_ops j))"
    and "sem_outside psem_ops s i"
  then show "sem_outside psem_ops s' i" using psem_event_class[of e s s' i] by (simp add: psem_ops_def)
next
  fix s s' e i
  assume "sem_next psem_ops e s = Some s'"
    and "\<not> sem_is_call psem_ops e \<or> (\<exists>j. e = sem_signal psem_ops j \<or> j \<noteq> i \<and> e = sem_wait psem_ops j)"
    and "\<not> psem_waits (p_pcs s i)"
  then show "\<not> psem_waits (p_pcs s' i)"
    using psem_event_class[of e s s' i] psem_signal_class by (auto simp: psem_ops_def)
next
  fix s s' e assume "psem_inv s" and "sem_next psem_ops e s = Some s'"
  then show "psem_inv s'" using psem_inv_next by (simp add: psem_ops_def)
next
  fix s i
  assume inv: "psem_inv s" and rest: "\<And>e. sem_is_step psem_ops e \<Longrightarrow> sem_next psem_ops e s = None"
  have "psem_next (QStep j v 0) s = None" for j v using rest[of "QStep j v 0"] by (simp add: psem_ops_def)
  from psem_rests[OF inv this] show "sem_outside psem_ops s i \<or> psem_waits (p_pcs s i)"
    by (simp add: psem_ops_def)
next
  fix e assume "sem_is_step psem_ops e"
  then show "\<not> sem_is_call psem_ops e" by (cases e) (simp_all add: psem_ops_def)
qed (simp add: psem_inv_new)

text \<open>\<open>usem_test.c\<close>, with the POSIX form of the wrapper.\<close>

fun usem_call_event :: "usem_event \<Rightarrow> bool" where
  "usem_call_event (UCall i f) \<longleftrightarrow> True"
| "usem_call_event _ \<longleftrightarrow> False"

fun usem_returned :: "upc \<Rightarrow> bool" where
  "usem_returned (UReturned r) \<longleftrightarrow> True"
| "usem_returned _ \<longleftrightarrow> False"

fun usem_waits :: "upc \<Rightarrow> bool" where
  "usem_waits p \<longleftrightarrow> p \<in> {U_Wait, U_TryWait, U_TimedWait}"

definition usem_ops :: "(usem_event, usem_system) semaphore_ops" where
  "usem_ops = \<lparr>sem_next = usem_next, sem_wait = (\<lambda>i. UCall i UCallWait), sem_signal = (\<lambda>i. UCall i UCallSignal),
     sem_is_call = usem_call_event, sem_is_step = (\<lambda>e. \<exists>i. e = UStep i Proceeds),
     sem_outside = (\<lambda>s i. usem_returned (upcs s i))\<rparr>"

lemma usem_step_class:
  "usem_step k p v = Some (v', p') \<Longrightarrow> \<not> usem_returned p \<and> (\<not> usem_waits p \<longrightarrow> \<not> usem_waits p')"
  by (erule usem_stepE) (auto simp: unless_interrupted_def split: if_splits option.splits)

lemma usem_event_class:
  assumes "usem_next e s = Some s'" and "\<not> usem_call_event e \<or> (\<exists>j. j \<noteq> i \<and> (e = UCall j UCallWait \<or> e = UCall j UCallSignal))"
  shows "(usem_returned (upcs s i) \<longrightarrow> usem_returned (upcs s' i)) \<and> (\<not> usem_waits (upcs s i) \<longrightarrow> \<not> usem_waits (upcs s' i))"
proof (cases e)
  case (UStep j k)
  with assms(1) obtain v p where e: "usem_step k (upcs s j) (uvalue s) = Some (v, p)"
    and s': "s' = \<lparr>uvalue = v, upcs = (upcs s)(j := p)\<rparr>" by (auto simp only: usem_step_Some)
  from usem_step_class[OF e] show ?thesis by (simp add: s')
next
  case (UCall j f)
  with assms show ?thesis by (auto simp: usem_call_Some simp del: usem_next.simps)
qed

lemma usem_signal_class:
  "usem_next (UCall j UCallSignal) s = Some s' \<Longrightarrow> \<not> usem_waits (upcs s i) \<Longrightarrow> \<not> usem_waits (upcs s' i)"
  by (auto simp: usem_call_Some simp del: usem_next.simps)

interpretation usem_semaphore: semaphore usem_ops usem_start usem_inv "\<lambda>s i. usem_waits (upcs s i)"
proof
  fix s i assume "usem_start s"
  then show "sem_outside usem_ops s i" by (auto simp: usem_start_def usem_ops_def)
next
  fix s i assume "sem_outside usem_ops s i"
  then have "usem_returned (upcs s i)" by (simp add: usem_ops_def)
  then show "sem_next usem_ops (sem_wait usem_ops i) s \<noteq> None" "sem_next usem_ops (sem_signal usem_ops i) s \<noteq> None"
    "\<not> usem_waits (upcs s i)"
    by (cases "upcs s i"; simp add: usem_ops_def)+
next
  fix s s' e i
  assume "sem_next usem_ops e s = Some s'"
    and "\<not> sem_is_call usem_ops e \<or> (\<exists>j. j \<noteq> i \<and> (e = sem_wait usem_ops j \<or> e = sem_signal usem_ops j))"
    and "sem_outside usem_ops s i"
  then show "sem_outside usem_ops s' i" using usem_event_class[of e s s' i] by (simp add: usem_ops_def)
next
  fix s s' e i
  assume "sem_next usem_ops e s = Some s'"
    and "\<not> sem_is_call usem_ops e \<or> (\<exists>j. e = sem_signal usem_ops j \<or> j \<noteq> i \<and> e = sem_wait usem_ops j)"
    and "\<not> usem_waits (upcs s i)"
  then show "\<not> usem_waits (upcs s' i)"
    using usem_event_class[of e s s' i] usem_signal_class by (auto simp: usem_ops_def simp del: usem_waits.simps)
next
  fix s s' e assume "usem_inv s" and "sem_next usem_ops e s = Some s'"
  then show "usem_inv s'" using usem_sys.inv_next by (simp add: usem_ops_def)
next
  fix s i
  assume rest: "\<And>e. sem_is_step usem_ops e \<Longrightarrow> sem_next usem_ops e s = None"
  have "usem_next (UStep i Proceeds) s = None" using rest[of "UStep i Proceeds"] by (simp add: usem_ops_def)
  then have "usem_step Proceeds (upcs s i) (uvalue s) = None" by (auto split: option.splits)
  then show "sem_outside usem_ops s i \<or> usem_waits (upcs s i)"
    by (cases "upcs s i") (auto simp: usem_ops_def split: if_splits option.splits)
next
  fix e assume "sem_is_step usem_ops e"
  then show "\<not> sem_is_call usem_ops e" by (auto simp: usem_ops_def)
qed (rule usem_sys.inv_init)

section \<open>The check of the benchmark\<close>

text \<open>One writer, one reader and a loop count of 1, from the start to the end.\<close>

definition small_bench :: bench_args where
  "small_bench = \<lparr>main_thread = Client 0, writers = [Client 1], readers = [Client 2], loop_count = 1\<rparr>"

lemma small_bench_ok: "bench_ok small_bench"
  by (simp add: bench_ok_def small_bench_def)

definition small_start :: "lus_system bench" where
  "small_start = \<lparr>b_sem = lus_of 0, start_barrier = barrier_of_two, cnt_n = 1, cnt_w = 0,
     bench_pcs = first_pc small_bench, bench_ret = 0\<rparr>"

lemma small_start_reach: "reach (bench_start lus_init small_bench) (bench_next lus_ops small_bench) small_start"
proof (rule reach_init)
  have "lus_init (lus_of 0)" by (rule lus_of_init) (simp add: SEM_VALUE_MAX_def)
  moreover have "init_fields (barrier_init ok_env False 2) = Some \<lparr>count_field = 2, left_field = 2, round_field = 0\<rparr>"
    by (simp add: barrier_init_def ok_env_def)
  ultimately show "bench_start lus_init small_bench small_start"
    unfolding bench_start_def
    by (auto simp: small_start_def small_bench_def barrier_of_two_def intro!: exI[of _ ok_env])
qed

definition small_meet :: "lus_event bench_event list" where
  "small_meet = Go (Client 0) # replicate 3 (InBarrier (BStep (Client 0))) @ Go (Client 1) #
     replicate 5 (InBarrier (BStep (Client 1))) @ replicate 3 (InBarrier (BStep (Client 0))) @
     [Go (Client 0), Go (Client 1)]"

definition small_loop :: "lus_event bench_event list" where
  "small_loop = [Go (Client 1), InSem (LusStep (Client 1) False), Go (Client 1), Go (Client 2)] @
     replicate 3 (InSem (LusStep (Client 2) False)) @ replicate 3 (Go (Client 2)) @ Go (Client 1) #
     replicate 3 (Go (Client 0))"

lemmas eval_bench = bench_moves small_bench_def small_start_def lus_ops_def lus_of_def all_ended_def
  eval_barrier numeral_eq_Suc

lemma small_meets:
  "\<exists>s. run (bench_next lus_ops small_bench) small_meet small_start = Some s \<and> b_sem s = b_sem small_start \<and>
    cnt_n s = 1 \<and> cnt_w s = 0 \<and> bench_pcs s = (first_pc small_bench)(Client 0 := M_JoinWriters, Client 1 := N_Test) \<and>
    bench_ret s = 0 \<and> (\<forall>i. barrier_left (bpcs (start_barrier s) i))"
  by (simp add: small_meet_def eval_bench)

lemma small_ends:
  assumes "b_sem s = lus_of 0" and "cnt_n s = 1" and "cnt_w s = 0" and "bench_ret s = 0"
    and "bench_pcs s = (first_pc small_bench)(Client 0 := M_JoinWriters, Client 1 := N_Test)"
  shows "\<exists>s'. run (bench_next lus_ops small_bench) small_loop s = Some s' \<and>
    start_barrier s' = start_barrier s \<and> (\<forall>i. lus_returned (lpcs (b_sem s') i)) \<and> (\<forall>i. bench_pcs s' i = Ended)"
  using assms by (cases s) (auto simp: small_loop_def eval_bench eval_lus)

lemma small_run:
  "\<exists>s. reach (bench_start lus_init small_bench) (bench_next lus_ops small_bench) s \<and>
    (\<forall>i. bench_pcs s i = Ended) \<and> bench_rest lus_ops small_bench s"
proof -
  obtain u where u: "run (bench_next lus_ops small_bench) small_meet small_start = Some u"
    and left: "\<forall>i. barrier_left (bpcs (start_barrier u) i)"
    and at: "b_sem u = lus_of 0" "cnt_n u = 1" "cnt_w u = 0" "bench_ret u = 0"
      "bench_pcs u = (first_pc small_bench)(Client 0 := M_JoinWriters, Client 1 := N_Test)"
    using small_meets by (auto simp: small_start_def)
  from small_ends[OF at] obtain s where s: "run (bench_next lus_ops small_bench) small_loop u = Some s"
    and b: "start_barrier s = start_barrier u" and out: "\<forall>i. lus_returned (lpcs (b_sem s) i)"
    and ended: "\<forall>i. bench_pcs s i = Ended" by blast
  have "lus_next (LusStep i v) (b_sem s) = None" for i v
    using out[rule_format, of i] by (cases "lpcs (b_sem s) i") simp_all
  then have "sem_next lus_ops e (b_sem s) = None" if "\<not> lus_call_event e" for e
    using that by (cases e) (simp_all add: lus_ops_def)
  moreover have "barrier_next (BStep i) (start_barrier s) = None" for i
    using left[rule_format, of i] by (cases "bpcs (start_barrier u) i") (simp_all add: b)
  ultimately have "bench_rest lus_ops small_bench s"
    using ended by (auto simp: bench_rest_def simp del: barrier_next.simps) (simp add: lus_ops_def)+
  with ended reach_run[OF s reach_run[OF u small_start_reach]] show ?thesis by blast
qed

lemma bench_passed:
  assumes "bench_ok A" and "reach (bench_start start A) (bench_next S A) s"
  shows "bench_ret s = 0 \<and> (bench_pcs s (main_thread A) = Ended \<longrightarrow>
    unat (cnt_w s) = unat (loop_count A) + length (readers A) \<and> cnt_n s = 0)"
proof -
  have inv: "count_inv A s" using bench_counts.reach_inv[OF assms(2)] assms(1) by blast
  then have "bench_ret s = 0" by (simp add: count_inv_def)
  with bench_done[OF assms(1) inv] show ?thesis by blast
qed

text \<open>
  C23: The check at the end of the benchmark of \<open>usem_test.c\<close>, \<open>lusem_test.c\<close> and
  \<open>psem_test.c\<close> passes whatever the semaphore does, correct or not: every reader adds 1 to
  \<open>w\<close> until it finds the loop count reached, so that at the end \<open>w\<close> is the loop count plus the
  number of readers by the program's own counting, and \<open>ret\<close> stays 0. A semaphore that lets
  every wait through at once is not noticed.
\<close>

theorem bench_check_passes:
  assumes "bench_ok A" and "reach (bench_start start A) (bench_next S A) s"
  shows "bench_ret s = 0 \<and> (bench_pcs s (main_thread A) = Ended \<longrightarrow>
    unat (cnt_w s) = unat (loop_count A) + length (readers A) \<and> cnt_n s = 0)"
  by (rule bench_passed[OF assms])

theorem bench_check_passes_witness:
  "\<exists>s. reach (bench_start lus_init small_bench) (bench_next lus_ops small_bench) s \<and>
    unat (cnt_w s) = 2 \<and> bench_ret s = 0"
proof -
  obtain s where r: "reach (bench_start lus_init small_bench) (bench_next lus_ops small_bench) s"
    and "bench_pcs s (main_thread small_bench) = Ended" using small_run by blast
  with bench_check_passes[OF small_bench_ok r] show ?thesis
    by (intro exI[of _ s]) (simp add: small_bench_def)
qed

section \<open>No deadlock\<close>

text \<open>
  C14: The benchmark, with at least one writer and one reader, threads that differ and counters
  that stay in their range (\<open>bench_ok\<close>), never deadlocks over any of the three semaphores
  (\<open>lusem\<close>, the POSIX form of \<open>usem\<close>, \<open>psem\<close>): when neither the program nor the semaphore nor the
  barrier can make a step (time-outs, wake-ups without a signal and failing pthread calls are
  not needed to go on), every thread has ended, and the test has passed: \<open>ret\<close> is 0 and \<open>w\<close> is
  the loop count plus the number of readers. Readers that wait are always let go, since the
  writers end only after them.
\<close>

theorem bench_no_deadlock:
  assumes "bench_ok A"
  shows "(reach (bench_start lus_init A) (bench_next lus_ops A) s \<and> bench_rest lus_ops A s \<longrightarrow>
      (\<forall>i. bench_pcs s i = Ended) \<and> bench_ret s = 0 \<and>
      unat (cnt_w s) = unat (loop_count A) + length (readers A)) \<and>
    (reach (bench_start usem_start A) (bench_next usem_ops A) u \<and> bench_rest usem_ops A u \<longrightarrow>
      (\<forall>i. bench_pcs u i = Ended) \<and> bench_ret u = 0 \<and>
      unat (cnt_w u) = unat (loop_count A) + length (readers A)) \<and>
    (reach (bench_start (\<lambda>q. q = psem_new) A) (bench_next psem_ops A) q \<and> bench_rest psem_ops A q \<longrightarrow>
      (\<forall>i. bench_pcs q i = Ended) \<and> bench_ret q = 0 \<and>
      unat (cnt_w q) = unat (loop_count A) + length (readers A))"
  using lus_semaphore.bench_reach[OF assms, of s] lus_semaphore.rest_ended[OF assms, of s]
    usem_semaphore.bench_reach[OF assms, of u] usem_semaphore.rest_ended[OF assms, of u]
    psem_semaphore.bench_reach[OF assms, of q] psem_semaphore.rest_ended[OF assms, of q]
    bench_passed[OF assms, of lus_init lus_ops s] bench_passed[OF assms, of usem_start usem_ops u]
    bench_passed[OF assms, of "\<lambda>q. q = psem_new" psem_ops q]
  by blast

theorem bench_no_deadlock_witness:
  "\<exists>s. reach (bench_start lus_init small_bench) (bench_next lus_ops small_bench) s \<and>
    bench_rest lus_ops small_bench s \<and> bench_pcs s (Client 2) = Ended"
proof -
  obtain s where r: "reach (bench_start lus_init small_bench) (bench_next lus_ops small_bench) s"
    and rest: "bench_rest lus_ops small_bench s" using small_run by blast
  with bench_no_deadlock[OF small_bench_ok, of s] show ?thesis by blast
qed

end
