(* ===== verification/Ctest.thy ===== *)
theory Ctest
  imports CtestAssert
begin

text \<open>
  The test runner \<open>src/ctest.h\<close> itself: how tests are registered in a section of the program,
  how the runner finds and selects them, what it does with one test, what it prints and what
  it returns. A function of a test is a sequence of assertions and log messages that may
  depend on the data of the test and change them.
\<close>

section \<open>Tests\<close>

datatype stmt = Check check | Log "string option"

type_synonym 'd test_fun = "'d option \<Rightarrow> stmt list \<times> 'd option"

text \<open>
  \<open>struct ctest\<close>. \<open>data\<close> is a null pointer or what it points to; \<open>setup\<close> and \<open>teardown\<close> are
  pointers to pointers, each of which may be null. The union of the two forms of a test
  function is one function, called with or without data.
\<close>

record 'd ctest =
  ssname :: string
  ttname :: string
  t_run :: "'d test_fun"
  t_data :: "'d option"
  t_setup :: "'d test_fun option option"
  t_teardown :: "'d test_fun option option"
  t_skip :: bool
  t_magic :: "32 word"

definition CTEST_MAGIC :: "32 word" where
  "CTEST_MAGIC = 0xdeadbeef"

text \<open>The macros that register a test.\<close>

definition CTEST_IMPL_STRUCT :: "string \<Rightarrow> string \<Rightarrow> bool \<Rightarrow> 'd option \<Rightarrow> 'd test_fun option option \<Rightarrow>
    'd test_fun option option \<Rightarrow> 'd test_fun \<Rightarrow> 'd ctest" where
  "CTEST_IMPL_STRUCT sname tname tskip tdata tsetup tteardown f =
     \<lparr>ssname = sname, ttname = tname, t_run = f, t_data = tdata, t_setup = tsetup, t_teardown = tteardown,
      t_skip = tskip, t_magic = CTEST_MAGIC\<rparr>"

definition CTEST_IMPL_CTEST :: "string \<Rightarrow> string \<Rightarrow> bool \<Rightarrow> stmt list \<Rightarrow> 'd ctest" where
  "CTEST_IMPL_CTEST sname tname tskip body = CTEST_IMPL_STRUCT sname tname tskip None None None (\<lambda>d. (body, d))"

text \<open>
  In C the pointers to the functions of the suite are variables that stay null when
  \<open>CTEST_SETUP\<close> or \<open>CTEST_TEARDOWN\<close> is not used; in C++ empty functions stand in for them.
\<close>

definition CTEST_IMPL_CTEST2 :: "'d test_fun option \<Rightarrow> 'd test_fun option \<Rightarrow> string \<Rightarrow> string \<Rightarrow> bool \<Rightarrow> 'd \<Rightarrow>
    'd test_fun \<Rightarrow> 'd ctest" where
  "CTEST_IMPL_CTEST2 setup teardown sname tname tskip d body =
     CTEST_IMPL_STRUCT sname tname tskip (Some d) (Some setup) (Some teardown) body"

definition empty_fun :: "'d test_fun" where
  "empty_fun d = ([], d)"

definition cxx_CTEST_IMPL_CTEST2 :: "'d test_fun option \<Rightarrow> 'd test_fun option \<Rightarrow> string \<Rightarrow> string \<Rightarrow> bool \<Rightarrow> 'd \<Rightarrow>
    'd test_fun \<Rightarrow> 'd ctest" where
  "cxx_CTEST_IMPL_CTEST2 setup teardown sname tname tskip d body =
     CTEST_IMPL_STRUCT sname tname tskip (Some d)
       (Some (Some (case setup of None \<Rightarrow> empty_fun | Some f \<Rightarrow> f)))
       (Some (Some (case teardown of None \<Rightarrow> empty_fun | Some f \<Rightarrow> f))) body"

definition CTEST :: "string \<Rightarrow> string \<Rightarrow> stmt list \<Rightarrow> 'd ctest" where
  "CTEST sname tname = CTEST_IMPL_CTEST sname tname False"

definition CTEST_SKIP :: "string \<Rightarrow> string \<Rightarrow> stmt list \<Rightarrow> 'd ctest" where
  "CTEST_SKIP sname tname = CTEST_IMPL_CTEST sname tname True"

definition CTEST2 :: "'d test_fun option \<Rightarrow> 'd test_fun option \<Rightarrow> string \<Rightarrow> string \<Rightarrow> 'd \<Rightarrow> 'd test_fun \<Rightarrow> 'd ctest" where
  "CTEST2 setup teardown sname tname = CTEST_IMPL_CTEST2 setup teardown sname tname False"

definition CTEST2_SKIP :: "'d test_fun option \<Rightarrow> 'd test_fun option \<Rightarrow> string \<Rightarrow> string \<Rightarrow> 'd \<Rightarrow> 'd test_fun \<Rightarrow> 'd ctest" where
  "CTEST2_SKIP setup teardown sname tname = CTEST_IMPL_CTEST2 setup teardown sname tname True"

section \<open>One test\<close>

text \<open>
  A function runs until an assertion fails: \<open>CTEST_ERR\<close> writes the message and jumps back into
  the runner. The result is the buffer and whether the function came to its end.
\<close>

fun run_stmts :: "bool \<Rightarrow> stmt list \<Rightarrow> errbuf \<Rightarrow> errbuf \<times> bool" where
  "run_stmts c [] b = (b, True)"
| "run_stmts c (Log t # ss) b = run_stmts c ss (CTEST_LOG c t b)"
| "run_stmts c (Check None # ss) b = run_stmts c ss b"
| "run_stmts c (Check (Some m) # ss) b = (CTEST_ERR c (Some m) b, False)"

text \<open>The functions of a test, in the order of lines 636 to 641.\<close>

definition called :: "'d test_fun option option \<Rightarrow> 'd test_fun list" where
  "called p = (case p of None \<Rightarrow> [] | Some None \<Rightarrow> [] | Some (Some f) \<Rightarrow> [f])"

definition phases :: "'d ctest \<Rightarrow> 'd test_fun list" where
  "phases t = called (t_setup t) @ [t_run t] @ called (t_teardown t)"

text \<open>
  Each function gets the pointer \<open>test->data\<close>, which stays what it is, null or not; the data
  behind it are what the function before has left.
\<close>

definition left_data :: "'d option \<Rightarrow> 'd option \<Rightarrow> 'd option" where
  "left_data d d' = (case d of None \<Rightarrow> None | Some x \<Rightarrow> (case d' of None \<Rightarrow> Some x | Some y \<Rightarrow> Some y))"

fun run_phases :: "bool \<Rightarrow> 'd test_fun list \<Rightarrow> 'd option \<Rightarrow> errbuf \<Rightarrow> errbuf \<times> bool" where
  "run_phases c [] d b = (b, True)"
| "run_phases c (f # fs) d b =
     (let (ss, d') = f d; (b', done) = run_stmts c ss b in
      if done then run_phases c fs (left_data d d') b' else (b', False))"

section \<open>Output\<close>

definition newline :: string where
  "newline = [CHR 0x0A]"

definition color_print :: "bool \<Rightarrow> string \<Rightarrow> string \<Rightarrow> string" where
  "color_print color_output color txt =
     (if color_output then color @ txt @ ANSI_NORMAL @ newline else txt @ newline)"

text \<open>The handler of \<open>SIGSEGV\<close>: the calls it makes.\<close>

datatype sig_call = Write string | SignalDefault int | KillSelf int

definition sighandler :: "bool \<Rightarrow> int \<Rightarrow> sig_call list" where
  "sighandler color_output signum =
     (let msg_color = ANSI_BRED @ ''[SIGSEGV: Segmentation fault]'' @ ANSI_NORMAL @ newline;
        msg_nocolor = ''[SIGSEGV: Segmentation fault]'' @ newline;
        msg = if color_output then msg_color else msg_nocolor
      in [Write msg, SignalDefault signum, KillSelf signum])"

text \<open>The time of day in microseconds, from the seconds and microseconds of the system.\<close>

definition getCurrentTime :: "int \<times> int \<Rightarrow> 64 word" where
  "getCurrentTime now = word_of_int (fst now) * 1000000 + word_of_int (snd now)"

section \<open>Finding and choosing tests\<close>

definition suite_all :: "'d ctest \<Rightarrow> bool" where
  "suite_all t = True"

text \<open>\<open>strncmp\<close> compares as many characters as the argument has.\<close>

definition suite_filter :: "string \<Rightarrow> 'd ctest \<Rightarrow> bool" where
  "suite_filter suite_name t \<longleftrightarrow> take (length suite_name) (ssname t) = suite_name"

text \<open>
  The section is an array of structures with the built-in test at index \<open>d\<close>; the neighbours
  are tests as long as they carry the magic number.
\<close>

fun scan_back :: "'d ctest list \<Rightarrow> nat \<Rightarrow> nat" where
  "scan_back tests 0 = 0"
| "scan_back tests (Suc i) = (if t_magic (tests ! i) \<noteq> CTEST_MAGIC then Suc i else scan_back tests i)"

function scan_forward :: "'d ctest list \<Rightarrow> nat \<Rightarrow> nat" where
  "scan_forward tests i =
     (if i + 1 < length tests \<and> t_magic (tests ! (i + 1)) = CTEST_MAGIC
      then scan_forward tests (i + 1) else i + 1)"
  by auto
termination by (relation "measure (\<lambda>(tests, i). length tests - i)") auto

declare scan_forward.simps [simp del]

text \<open>The tests between the two ends, without the built-in one; the argument of the command line.\<close>

definition registered :: "'d ctest list \<Rightarrow> nat \<Rightarrow> 'd ctest list" where
  "registered tests d = map (\<lambda>i. tests ! i) (filter (\<lambda>i. i \<noteq> d) [scan_back tests d..<scan_forward tests d])"

definition test_filter :: "string list \<Rightarrow> 'd ctest \<Rightarrow> bool" where
  "test_filter argv = (case argv of [_, suite_name] \<Rightarrow> suite_filter suite_name | _ \<Rightarrow> suite_all)"

section \<open>The runner\<close>

text \<open>
  The variables of \<open>ctest_main\<close>, the message buffer and what has been printed. \<open>CTEST_COLOR_OK\<close>
  and \<open>CTEST_NO_COLORS\<close> are settings of the compilation, \<open>tty\<close> the answer of \<open>isatty\<close>.
\<close>

record settings =
  color_ok :: bool
  no_colors :: bool
  tty :: bool

definition color_output :: "settings \<Rightarrow> bool" where
  "color_output cfg = (if no_colors cfg then False else tty cfg)"

record runner =
  total :: nat
  num_ok :: nat
  num_fail :: nat
  num_skip :: nat
  idx :: nat
  buf :: errbuf
  out :: string

fun count_tests :: "('d ctest \<Rightarrow> bool) \<Rightarrow> 'd ctest list \<Rightarrow> runner \<Rightarrow> runner" where
  "count_tests chosen [] r = r"
| "count_tests chosen (t # ts) r =
     count_tests chosen ts (if chosen t then r\<lparr>total := total r + 1\<rparr> else r)"

definition put :: "string \<Rightarrow> runner \<Rightarrow> runner" where
  "put s r = r\<lparr>out := out r @ s\<rparr>"

definition test_line :: "nat \<Rightarrow> nat \<Rightarrow> 'd ctest \<Rightarrow> string" where
  "test_line i n t = ''TEST '' @ show_nat i @ ''/'' @ show_nat n @ '' '' @ ssname t @ '':'' @ ttname t @ '' ''"

definition ok_line :: "settings \<Rightarrow> string" where
  "ok_line cfg = (if color_ok cfg then color_print (color_output cfg) ANSI_BGREEN ''[OK]'' else ''[OK]'' @ newline)"

definition fail_line :: "settings \<Rightarrow> string" where
  "fail_line cfg = color_print (color_output cfg) ANSI_BRED ''[FAIL]''"

definition skipped_line :: "settings \<Rightarrow> string" where
  "skipped_line cfg = color_print (color_output cfg) ANSI_BYELLOW ''[SKIPPED]''"

text \<open>Line 653: the buffer is printed when something has been written to it.\<close>

definition messages :: "errbuf \<Rightarrow> string" where
  "messages b = (if errorsize b \<noteq> of_nat (MSG_SIZE - 1) then cstring (errorbuffer b) else [])"

definition run_test :: "settings \<Rightarrow> 'd ctest \<Rightarrow> runner \<Rightarrow> runner" where
  "run_test cfg t r =
     (let r = put (test_line (idx r) (total r) t) (r\<lparr>buf := reset_buffer (buf r)\<rparr>);
        r = (if t_skip t then put (skipped_line cfg) r\<lparr>num_skip := num_skip r + 1\<rparr>
          else
            let (b, done) = run_phases (color_output cfg) (phases t) (t_data t) (buf r);
              r = (if done then put (ok_line cfg) r\<lparr>num_ok := num_ok r + 1\<rparr>
                else put (fail_line cfg) r\<lparr>num_fail := num_fail r + 1\<rparr>)
            in put (messages b) (r\<lparr>buf := b\<rparr>))
      in r\<lparr>idx := idx r + 1\<rparr>)"

fun run_tests :: "settings \<Rightarrow> ('d ctest \<Rightarrow> bool) \<Rightarrow> 'd ctest list \<Rightarrow> runner \<Rightarrow> runner" where
  "run_tests cfg chosen [] r = r"
| "run_tests cfg chosen (t # ts) r = run_tests cfg chosen ts (if chosen t then run_test cfg t r else r)"

text \<open>\<open>snprintf\<close> cuts the last line to the 79 characters the array \<open>results\<close> has room for.\<close>

definition results_line :: "settings \<Rightarrow> 64 word \<Rightarrow> 64 word \<Rightarrow> runner \<Rightarrow> string" where
  "results_line cfg t1 t2 r =
     (let color = if num_fail r \<noteq> 0 then ANSI_BRED else ANSI_GREEN;
        results = take 79 (''RESULTS: '' @ show_nat (total r) @ '' tests ('' @ show_nat (num_ok r) @ '' ok, '' @
          show_nat (num_fail r) @ '' failed, '' @ show_nat (num_skip r) @ '' skipped) ran in '' @
          show_nat (unat ((t2 - t1) div 1000)) @ '' ms'')
      in color_print (color_output cfg) color results)"

definition new_runner :: "errbuf \<Rightarrow> runner" where
  "new_runner b = \<lparr>total = 0, num_ok = 0, num_fail = 0, num_skip = 0, idx = 1, buf = b, out = []\<rparr>"

text \<open>
  \<open>now1\<close> and \<open>now2\<close> are the times of day before and after the tests, \<open>b\<close> the static buffer. The
  result is the runner at the end; \<open>num_fail\<close> is the value returned.
\<close>

definition ctest_main :: "settings \<Rightarrow> string list \<Rightarrow> int \<times> int \<Rightarrow> int \<times> int \<Rightarrow> errbuf \<Rightarrow> 'd ctest list \<Rightarrow> nat \<Rightarrow> runner" where
  "ctest_main cfg argv now1 now2 b tests d =
     (let t1 = getCurrentTime now1;
        chosen = test_filter argv;
        ts = registered tests d;
        r = run_tests cfg chosen ts (count_tests chosen ts (new_runner b));
        t2 = getCurrentTime now2
      in put (results_line cfg t1 t2 r) r)"

end
