(* ===== verification/CtestProps.thy ===== *)
theory CtestProps
  imports Ctest
begin

text \<open>
  What the test runner promises: each chosen test is counted once, the whole output is the
  reports of the chosen tests one after the other, whatever an earlier test has left in the
  message buffer, and a failed assertion is reported with its message.
\<close>

section \<open>A test as one sequence\<close>

text \<open>The statements of all functions of a test, as if none of them failed.\<close>

fun trace :: "'d test_fun list \<Rightarrow> 'd option \<Rightarrow> stmt list" where
  "trace [] d = []"
| "trace (f # fs) d = fst (f d) @ trace fs (left_data d (snd (f d)))"

lemma run_stmts_append:
  "run_stmts c (ss @ ss') b = (let (b', done) = run_stmts c ss b in if done then run_stmts c ss' b' else (b', False))"
  by (induction c ss b rule: run_stmts.induct) simp_all

lemma run_phases_trace: "run_phases c fs d b = run_stmts c (trace fs d) b"
  by (induction fs arbitrary: d b) (simp_all add: run_stmts_append split_def Let_def)

definition passes :: "'d ctest \<Rightarrow> bool" where
  "passes t \<longleftrightarrow> (\<forall>m. Check (Some m) \<notin> set (trace (phases t) (t_data t)))"

lemma run_stmts_done: "snd (run_stmts c ss b) \<longleftrightarrow> (\<forall>m. Check (Some m) \<notin> set ss)"
  by (induction c ss b rule: run_stmts.induct) auto

section \<open>Counting\<close>

lemma count_tests_total:
  "count_tests chosen ts r = r\<lparr>total := total r + length (filter chosen ts)\<rparr>"
  by (induction ts arbitrary: r) simp_all

lemma run_test_counts:
  "total (run_test cfg t r) = total r \<and> idx (run_test cfg t r) = idx r + 1 \<and>
    num_skip (run_test cfg t r) = num_skip r + of_bool (t_skip t) \<and>
    num_ok (run_test cfg t r) = num_ok r + of_bool (\<not> t_skip t \<and> passes t) \<and>
    num_fail (run_test cfg t r) = num_fail r + of_bool (\<not> t_skip t \<and> \<not> passes t)"
proof -
  have "snd (run_phases (color_output cfg) (phases t) (t_data t) (reset_buffer (buf r))) = passes t"
    by (simp add: run_phases_trace run_stmts_done passes_def)
  then show ?thesis by (simp add: run_test_def put_def Let_def split_def)
qed

lemma run_tests_counts:
  "total (run_tests cfg chosen ts r) = total r \<and>
    idx (run_tests cfg chosen ts r) = idx r + length (filter chosen ts) \<and>
    num_skip (run_tests cfg chosen ts r) = num_skip r + length (filter t_skip (filter chosen ts)) \<and>
    num_ok (run_tests cfg chosen ts r) = num_ok r + length (filter (\<lambda>t. \<not> t_skip t \<and> passes t) (filter chosen ts)) \<and>
    num_fail (run_tests cfg chosen ts r) = num_fail r + length (filter (\<lambda>t. \<not> t_skip t \<and> \<not> passes t) (filter chosen ts))"
  by (induction ts arbitrary: r) (simp_all add: run_test_counts)

lemma three_kinds: "length (filter (\<lambda>t. \<not> s t \<and> p t) ts) + length (filter (\<lambda>t. \<not> s t \<and> \<not> p t) ts) + length (filter s ts) = length ts"
  by (induction ts) simp_all

text \<open>
  The runner counts each chosen test exactly once, as passed, failed or skipped, and its
  exit code is the number of chosen, not skipped tests in which an assertion of the set-up,
  the test or the tear-down fails.
\<close>

theorem ctest_main_counts:
  "let r = ctest_main cfg argv now1 now2 b tests d; sel = filter (test_filter argv) (registered tests d) in
    total r = length sel \<and> num_ok r + num_fail r + num_skip r = total r \<and> idx r = total r + 1 \<and>
    num_fail r = length (filter (\<lambda>t. \<not> t_skip t \<and>
      (\<exists>m. Check (Some m) \<in> set (trace (phases t) (t_data t)))) sel)"
  using three_kinds[of t_skip passes "filter (test_filter argv) (registered tests d)"]
  by (simp add: Let_def ctest_main_def put_def run_tests_counts count_tests_total new_runner_def passes_def)

section \<open>What earlier tests leave in the buffer\<close>

text \<open>What one call writes, and how far it moves on.\<close>

definition piece :: "string option \<Rightarrow> size_t \<Rightarrow> char list option" where
  "piece t n = (if vsnprintf_result t < 0 then Some [NUL] else if n = 0 then None
     else Some (take (unat n - 1) (the t) @ [NUL]))"

definition moved :: "string option \<Rightarrow> size_t \<Rightarrow> size_t" where
  "moved t n = (if vsnprintf_result t < 0 then 0 else
     let size = word_of_int (vsnprintf_result t) in if n \<le> size then size - n else size)"

lemma vprint_alt:
  "vprint_errormsg t b = (case piece t (errorsize b) of None \<Rightarrow> b | Some cs \<Rightarrow> store (unat (errormsg b)) cs b)
     \<lparr>errorsize := errorsize b - moved t (errorsize b), errormsg := errormsg b + moved t (errorsize b)\<rparr>"
  by (simp add: vprint_errormsg_def vsnprintf_write_def piece_def moved_def Let_def store_def)

text \<open>
  Two buffers that differ only in what was in the array before: the next piece starts no
  later than one byte behind a zero up to which they agree, or outside the array.
\<close>

definition alike :: "errbuf \<Rightarrow> errbuf \<Rightarrow> bool" where
  "alike b b' \<longleftrightarrow> errorsize b' = errorsize b \<and> errormsg b' = errormsg b \<and> overrun b' = overrun b \<and>
     length (errorbuffer b) = MSG_SIZE \<and> length (errorbuffer b') = MSG_SIZE \<and>
     errormsg b + errorsize b = 4095 \<and>
     (overrun b \<or> (\<exists>k < MSG_SIZE. errorbuffer b ! k = NUL \<and> take (k + 1) (errorbuffer b) = take (k + 1) (errorbuffer b') \<and>
       (unat (errormsg b) \<le> k + 1 \<or> MSG_SIZE \<le> unat (errormsg b) \<and> errorsize b \<noteq> 0)))"

lemma alike_reset: "array_ok b \<Longrightarrow> array_ok b' \<Longrightarrow> alike (reset_buffer b) (reset_buffer b')"
  by (auto simp: alike_def array_ok_def reset_buffer_def MSG_SIZE_def take_Suc hd_conv_nth
      length_greater_0_conv[symmetric] simp del: length_greater_0_conv intro!: exI[of _ 0])

lemma store_next:
  assumes "i + length cs \<le> length bs" and "cs \<noteq> []" and "last cs = NUL"
  shows "(take i bs @ cs @ drop (i + length cs) bs) ! (i + length cs - 1) = NUL"
    and "take (i + length cs - 1 + 1) (take i bs @ cs @ drop (i + length cs) bs) = take i bs @ cs"
proof -
  have "0 < length cs" using assms(2) by simp
  then have "\<not> i + length cs - 1 < i" "i + length cs - 1 - i = length cs - 1" by linarith+
  with assms \<open>0 < length cs\<close> show "(take i bs @ cs @ drop (i + length cs) bs) ! (i + length cs - 1) = NUL"
    by (simp add: nth_append last_conv_nth)
  show "take (i + length cs - 1 + 1) (take i bs @ cs @ drop (i + length cs) bs) = take i bs @ cs"
    using assms(1) \<open>0 < length cs\<close> by (simp add: min_absorb1)
qed

lemma piece_end: "piece t n = Some cs \<Longrightarrow> cs \<noteq> [] \<and> last cs = NUL"
  by (auto simp: piece_def split: if_splits)

lemma printable: "\<not> vsnprintf_result t < 0 \<Longrightarrow> \<exists>s. t = Some s \<and> length s < 2 ^ 31 \<and> vsnprintf_result t = int (length s)"
  by (auto simp: vsnprintf_result_def split: option.splits if_splits)

lemma room_left: "e + n = 4095 \<Longrightarrow> unat (e :: size_t) \<le> 4095 \<Longrightarrow> unat n = 4095 - unat e"
proof -
  assume sum: "e + n = 4095" and e: "unat e \<le> 4095"
  have "n = 4095 - e" using sum by (simp add: eq_diff_eq add.commute)
  moreover have "e \<le> 4095" using e by (simp add: word_le_nat_alt)
  ultimately show ?thesis by (simp add: unat_sub)
qed

text \<open>How far a piece of \<open>L\<close> characters moves on: as far as its zero, or outside the array.\<close>

lemma moved_word:
  assumes "length s < 2 ^ 31"
  shows "moved (Some s) n = of_nat (if length s < unat n then length s else length s - unat n)"
proof -
  have "unat (of_nat (length s) :: size_t) = length s" using assms by (simp add: size_word)
  moreover have "of_nat (length s) - n = (of_nat (length s - unat n) :: size_t)" if "unat n \<le> length s"
    using that by (simp add: of_nat_diff)
  ultimately show ?thesis using assms by (auto simp: moved_def vsnprintf_result_def word_le_nat_alt)
qed

lemma moved_on:
  assumes sum: "e + n = (4095 :: size_t)" and e: "unat e \<le> 4095"
  shows "unat (e + moved t n) \<le> unat e + (case piece t n of None \<Rightarrow> 0 | Some cs \<Rightarrow> length cs) \<or>
    MSG_SIZE \<le> unat (e + moved t n) \<and> n - moved t n \<noteq> 0"
proof (cases "vsnprintf_result t < 0")
  case True
  then show ?thesis by (simp add: moved_def)
next
  case False
  then obtain s where s: "t = Some s" "length s < 2 ^ 31" using printable by blast
  note n = room_left[OF assms]
  define k where "k = (if length s < unat n then length s else length s - unat n)"
  have k: "moved t n = of_nat k" using moved_word[OF s(2)] by (simp add: s(1) k_def)
  have small: "k < 2 ^ 31" using s(2) by (simp add: k_def) linarith
  have e': "unat (e + of_nat k) = unat e + k" by (rule unat_plus_small) (use e small in simp)
  show ?thesis
  proof (cases "k \<le> (case piece t n of None \<Rightarrow> 0 | Some cs \<Rightarrow> length cs)")
    case True
    then show ?thesis by (simp add: k e')
  next
    case more: False
    have "unat n < k"
      using more False by (auto simp: k_def piece_def s(1) unat_eq_zero min_def split: if_splits)
    moreover from this have "n \<noteq> of_nat k" using small by (auto simp: size_word)
    moreover from calculation(1) n e have "4096 \<le> unat e + k" by linarith
    ultimately show ?thesis by (simp add: k e' MSG_SIZE_def)
  qed
qed

lemma alike_vprint:
  assumes "alike b b'"
  shows "alike (vprint_errormsg t b) (vprint_errormsg t b')"
proof -
  let ?e = "errormsg b" and ?n = "errorsize b"
  have eqs: "errorsize b' = ?n" "errormsg b' = ?e" "overrun b' = overrun b" and sum: "?e + ?n = 4095"
    and len: "length (errorbuffer b) = MSG_SIZE" "length (errorbuffer b') = MSG_SIZE"
    using assms by (auto simp: alike_def)
  have sum': "?e + moved t ?n + (?n - moved t ?n) = 4095" using sum by simp
  let ?P = "\<lambda>b b' e n. overrun b \<or> (\<exists>k < MSG_SIZE. errorbuffer b ! k = NUL \<and>
    take (k + 1) (errorbuffer b) = take (k + 1) (errorbuffer b') \<and> (unat e \<le> k + 1 \<or> MSG_SIZE \<le> unat e \<and> n \<noteq> 0))"
  have P: "?P b b' ?e ?n" using assms by (simp add: alike_def)
  have "?P (vprint_errormsg t b) (vprint_errormsg t b') (?e + moved t ?n) (?n - moved t ?n)"
  proof (cases "piece t ?n")
    case None
    then have "?n = 0" by (auto simp: piece_def split: if_splits)
    with sum have e: "?e = 4095" by simp
    have on: "unat (?e + moved t ?n) \<le> unat ?e \<or> MSG_SIZE \<le> unat (?e + moved t ?n) \<and> ?n - moved t ?n \<noteq> 0"
      using moved_on[OF sum, of t] None e by simp
    have "\<not> MSG_SIZE \<le> unat ?e" using e by (simp add: MSG_SIZE_def)
    with P on have "?P b b' (?e + moved t ?n) (?n - moved t ?n)" by (meson le_trans)
    then show ?thesis by (simp add: vprint_alt None eqs)
  next
    case (Some cs)
    note cs = piece_end[OF Some]
    show ?thesis
    proof (cases "overrun b \<or> MSG_SIZE < unat ?e + length cs")
      case True
      then show ?thesis by (auto simp: vprint_alt Some store_overrun len)
    next
      case False
      then have fits: "unat ?e + length cs \<le> length (errorbuffer b)" "\<not> overrun b" by (simp_all add: len)
      with cs len have e: "unat ?e \<le> 4095" by (cases cs) (simp_all add: MSG_SIZE_def)
      with P fits(2) obtain k where k: "take (k + 1) (errorbuffer b) = take (k + 1) (errorbuffer b')" "unat ?e \<le> k + 1"
        by (auto simp: MSG_SIZE_def)
      have "take (unat ?e) (errorbuffer b) = take (unat ?e) (errorbuffer b')"
        using arg_cong[OF k(1), of "take (unat ?e)"] k(2) by (simp add: min_absorb1)
      note agree = this
      have fits': "unat ?e + length cs \<le> length (errorbuffer b')" using fits len by simp
      note new = store_next[OF fits(1), of] and new' = store_next[OF fits', of]
      let ?k = "unat ?e + length cs - 1"
      have "0 < length cs" using cs by simp
      then have "?k < MSG_SIZE" "unat ?e + length cs = ?k + 1" using fits(1) len by linarith+
      moreover have "unat (?e + moved t ?n) \<le> ?k + 1 \<or> MSG_SIZE \<le> unat (?e + moved t ?n) \<and> ?n - moved t ?n \<noteq> 0"
        using moved_on[OF sum e, of t] Some \<open>0 < length cs\<close> by simp
      ultimately show ?thesis
        using new new' cs agree fits fits' by (auto simp: vprint_alt Some eqs store_def intro!: exI[of _ ?k])
    qed
  qed
  moreover have "overrun (vprint_errormsg t b') = overrun (vprint_errormsg t b)"
    by (auto simp: vprint_alt eqs len store_overrun split: option.splits)
  moreover have "length (errorbuffer (vprint_errormsg t b)) = MSG_SIZE" "length (errorbuffer (vprint_errormsg t b')) = MSG_SIZE"
    "errorsize (vprint_errormsg t b) = ?n - moved t ?n" "errormsg (vprint_errormsg t b) = ?e + moved t ?n"
    "errorsize (vprint_errormsg t b') = ?n - moved t ?n" "errormsg (vprint_errormsg t b') = ?e + moved t ?n"
    by (auto simp: vprint_alt eqs len split: option.splits)
  ultimately show ?thesis unfolding alike_def using sum' by simp
qed

lemma alike_message: "alike b b' \<Longrightarrow> alike (CTEST_ERR c t b) (CTEST_ERR c t b')"
    "alike b b' \<Longrightarrow> alike (CTEST_LOG c t b) (CTEST_LOG c t b')"
  by (auto simp: CTEST_ERR_def CTEST_LOG_def msg_start_def msg_end_def print_errormsg_def intro!: alike_vprint)

lemma alike_run_stmts:
  "alike b b' \<Longrightarrow> alike (fst (run_stmts c ss b)) (fst (run_stmts c ss b')) \<and>
    snd (run_stmts c ss b) = snd (run_stmts c ss b')"
  by (induction c ss b arbitrary: b' rule: run_stmts.induct) (auto intro: alike_message)

lemma takeWhile_agree:
  "k < length xs \<Longrightarrow> \<not> p (xs ! k) \<Longrightarrow> take (k + 1) xs = take (k + 1) ys \<Longrightarrow> takeWhile p xs = takeWhile p ys"
  by (metis (no_types, lifting) append_take_drop_id in_set_conv_nth length_take less_add_one min_less_iff_conj
      nth_take takeWhile_append1)

lemma alike_messages: "alike b b' \<Longrightarrow> \<not> overrun b \<Longrightarrow> messages b = messages b'"
  by (auto simp: alike_def messages_def cstring_def intro!: takeWhile_agree)

lemma array_stays:
  "array_ok b \<Longrightarrow> \<not> overrun (fst (run_stmts c ss (reset_buffer b))) \<Longrightarrow> array_ok (fst (run_stmts c ss (reset_buffer b)))"
  using alike_run_stmts[OF alike_reset, of b b c ss] by (simp add: array_ok_def alike_def)

lemma err_messages:
  assumes "NUL \<notin> set m" and "length (err_text c m) < MSG_SIZE - 1"
  shows "messages (CTEST_ERR c (Some m) (reset_buffer fresh_buffer)) = err_text c m"
proof -
  note held = ctest_err_holds[OF fresh_array assms(2)]
  have "unat (errorsize (CTEST_ERR c (Some m) (reset_buffer fresh_buffer))) < MSG_SIZE - 1"
    using held(1) holds_text_length[OF held(1)] by (simp add: holds_text_def err_text_def MSG_SIZE_def)
  then have "errorsize (CTEST_ERR c (Some m) (reset_buffer fresh_buffer)) \<noteq> of_nat (MSG_SIZE - 1)"
    by (auto simp: MSG_SIZE_def)
  with cstring_of_held[OF held err_text_no_nul[OF assms(1)]] show ?thesis by (simp add: messages_def)
qed

section \<open>The whole output\<close>

text \<open>What is printed of the \<open>i\<close>-th of \<open>n\<close> chosen tests, were it the first to use the buffer.\<close>

definition alone :: "settings \<Rightarrow> 'd ctest \<Rightarrow> errbuf \<times> bool" where
  "alone cfg t = run_phases (color_output cfg) (phases t) (t_data t) (reset_buffer fresh_buffer)"

definition report :: "settings \<Rightarrow> nat \<Rightarrow> nat \<Rightarrow> 'd ctest \<Rightarrow> string" where
  "report cfg n i t = test_line i n t @ (if t_skip t then skipped_line cfg
     else (if snd (alone cfg t) then ok_line cfg else fail_line cfg) @ messages (fst (alone cfg t)))"

definition in_bounds :: "settings \<Rightarrow> 'd ctest \<Rightarrow> bool" where
  "in_bounds cfg t = (t_skip t \<or> \<not> overrun (fst (alone cfg t)))"

lemma run_test_report:
  assumes "array_ok (buf r)" and "in_bounds cfg t"
  shows "out (run_test cfg t r) = out r @ report cfg (total r) (idx r) t \<and> array_ok (buf (run_test cfg t r))"
proof (cases "t_skip t")
  case True
  with assms(1) show ?thesis by (simp add: run_test_def put_def Let_def report_def array_ok_def reset_buffer_def)
next
  case False
  let ?ss = "trace (phases t) (t_data t)" and ?c = "color_output cfg"
  let ?b = "run_stmts ?c ?ss (reset_buffer (buf r))"
  have alone: "alone cfg t = run_stmts ?c ?ss (reset_buffer fresh_buffer)"
    by (simp add: alone_def run_phases_trace)
  have like: "alike (fst (alone cfg t)) (fst ?b)" "snd (alone cfg t) = snd ?b"
    using alike_run_stmts[OF alike_reset[OF fresh_array assms(1)], of ?c ?ss] by (simp_all add: alone)
  have inside: "\<not> overrun (fst (alone cfg t))" using assms(2) False by (simp add: in_bounds_def)
  with like(1) have "\<not> overrun (fst ?b)" by (simp add: alike_def)
  then have "array_ok (fst ?b)" by (rule array_stays[OF assms(1)])
  with False like(2) alike_messages[OF like(1) inside] show ?thesis
    by (simp add: run_test_def put_def Let_def report_def split_def run_phases_trace)
qed

lemma run_tests_reports:
  assumes "array_ok (buf r)" and "\<forall>t\<in>set (filter chosen ts). in_bounds cfg t"
  shows "out (run_tests cfg chosen ts r) = out r @ concat (map (\<lambda>(i, t). report cfg (total r) i t)
    (enumerate (idx r) (filter chosen ts)))"
  using assms
proof (induction ts arbitrary: r)
  case (Cons t ts)
  show ?case
  proof (cases "chosen t")
    case True
    note one = run_test_report[OF Cons.prems(1), of cfg t]
    from True Cons.prems(2) one Cons.IH[of "run_test cfg t r"] run_test_counts[of cfg t r] show ?thesis by simp
  next
    case False
    with Cons show ?thesis by simp
  qed
qed simp

text \<open>
  C31: The output of the runner is the reports of the chosen tests in their order, numbered
  from one, and the line of results; each report is what the test would print with a fresh
  buffer, so nothing of an earlier message shows, as long as no test writes outside the buffer.
\<close>

theorem ctest_main_output:
  assumes "array_ok b" and "\<forall>t\<in>set (filter (test_filter argv) (registered tests d)). in_bounds cfg t"
  shows "let r = ctest_main cfg argv now1 now2 b tests d; sel = filter (test_filter argv) (registered tests d) in
    out r = concat (map (\<lambda>(i, t). report cfg (length sel) i t) (enumerate 1 sel)) @
      results_line cfg (getCurrentTime now1) (getCurrentTime now2) r"
proof -
  let ?r = "count_tests (test_filter argv) (registered tests d) (new_runner b)"
  have "array_ok (buf ?r)" and r: "out ?r = []" "idx ?r = 1"
    "total ?r = length (filter (test_filter argv) (registered tests d))"
    using assms(1) by (simp_all add: count_tests_total new_runner_def)
  from run_tests_reports[OF this(1) assms(2)] r show ?thesis
    by (simp add: ctest_main_def put_def Let_def results_line_def)
qed

text \<open>A program with two tests of the suite \<open>queue\<close>, the second of which fails, and one of another.\<close>

definition plain :: settings where
  "plain = \<lparr>color_ok = False, no_colors = True, tty = True\<rparr>"

definition sample_check :: check where
  "sample_check = assert_true 0 ''q.c'' 7 None"

definition sample_pass :: "nat ctest" where
  "sample_pass = CTEST ''queue'' ''put'' [Check (assert_true 1 ''q.c'' 3 None)]"

definition sample_fail :: "nat ctest" where
  "sample_fail = CTEST2 None (Some (\<lambda>d. ([Check (assert_fail ''q.c'' 9 None)], d))) ''queue'' ''get'' 0
     (\<lambda>d. ([Check (assert_null 0 ''q.c'' 6 None), Check sample_check], d))"

definition sample_tests :: "nat ctest list" where
  "sample_tests = [CTEST ''suite'' ''test'' [], sample_pass, sample_fail, CTEST ''other'' ''x'' []]"

lemmas sample_defs = sample_pass_def sample_fail_def CTEST_def CTEST2_def CTEST_IMPL_CTEST_def CTEST_IMPL_CTEST2_def
  CTEST_IMPL_STRUCT_def

lemma plain_no_color: "color_output plain = False"
  by (simp add: plain_def color_output_def)

lemma sample_digits: "show_int 7 = ''7''" "show_nat 2 = ''2''"
  by code_simp+

lemma sample_message: "sample_check = Some ''q.c:7  should be true''"
  by (simp add: sample_check_def assert_true_def assert_fails_def at_line_def describe_def sample_digits)

lemma sample_selected: "filter (test_filter [''t'', ''queue'']) (registered sample_tests 0) = [sample_pass, sample_fail]"
proof -
  have "scan_forward sample_tests 0 = 4"
    by (simp add: sample_tests_def scan_forward.simps sample_defs numeral_nat)
  then have "registered sample_tests 0 = [sample_pass, sample_fail, CTEST ''other'' ''x'' []]"
    by (simp add: registered_def upt_conv_Cons numeral_nat sample_tests_def)
  then show ?thesis by (simp add: test_filter_def suite_filter_def sample_defs)
qed

lemma sample_traces:
  "\<not> t_skip sample_pass" "\<not> t_skip sample_fail"
  "trace (phases sample_pass) (t_data sample_pass) = [Check None]"
  "trace (phases sample_fail) (t_data sample_fail) =
    replicate 1 (Check None) @ Check (Some ''q.c:7  should be true'') # [Check (assert_fail ''q.c'' 9 None)]"
  by (simp_all add: sample_defs phases_def called_def left_data_def assert_true_def assert_null_def sample_message[symmetric])

lemma sample_in_bounds: "in_bounds plain sample_pass" "in_bounds plain sample_fail"
proof -
  show "in_bounds plain sample_pass"
    by (simp add: in_bounds_def alone_def run_phases_trace sample_traces reset_buffer_def fresh_buffer_def)
  show "in_bounds plain sample_fail"
    using ctest_err_holds(1)[OF fresh_array, of False "''q.c:7  should be true''"]
    by (simp add: in_bounds_def alone_def run_phases_trace sample_traces holds_text_def buffer_ok_def plain_no_color
        err_text_def MSG_SIZE_def)
qed

theorem ctest_main_output_witness:
  "out (ctest_main plain [''t'', ''queue''] (1, 0) (1, 5000) fresh_buffer sample_tests 0) =
    report plain 2 1 sample_pass @ report plain 2 2 sample_fail @
      results_line plain 1000000 1005000 (ctest_main plain [''t'', ''queue''] (1, 0) (1, 5000) fresh_buffer sample_tests 0)"
  using ctest_main_output[OF fresh_array, of "[''t'', ''queue'']" sample_tests 0 plain "(1, 0)" "(1, 5000)"]
  by (simp add: sample_selected sample_in_bounds getCurrentTime_def numeral_2_eq_2 Let_def)

text \<open>
  C35: The report of a failing test names the first assertion that fails: after assertions that
  passed, without log messages, it is the line of the test, \<open>[FAIL]\<close> and exactly the message
  of that assertion, as long as the message with its title, its colours and the line break has
  less than \<open>MSG_SIZE - 1\<close> characters and no zero byte; nothing after it, the tear-down included,
  adds to it.
\<close>

theorem ctest_failure_reported:
  assumes "\<not> t_skip t" and "trace (phases t) (t_data t) = replicate k (Check None) @ Check (Some m) # rest"
    and "NUL \<notin> set m" and "length (err_text (color_output cfg) m) < MSG_SIZE - 1"
  shows "report cfg n i t = test_line i n t @ fail_line cfg @ err_text (color_output cfg) m"
proof -
  let ?c = "color_output cfg"
  have "run_stmts ?c (replicate k (Check None) @ Check (Some m) # rest) b = (CTEST_ERR ?c (Some m) b, False)" for b
    by (induction k) simp_all
  then have "alone cfg t = (CTEST_ERR ?c (Some m) (reset_buffer fresh_buffer), False)"
    by (simp add: alone_def run_phases_trace assms(2))
  moreover have "messages (CTEST_ERR ?c (Some m) (reset_buffer fresh_buffer)) = err_text ?c m"
    by (rule err_messages[OF assms(3,4)])
  ultimately show ?thesis using assms(1) by (simp add: report_def)
qed

theorem ctest_failure_reported_witness:
  "report plain 2 2 (sample_fail) = ''TEST 2/2 queue:get [FAIL]'' @ newline @ ''  ERR: q.c:7  should be true'' @ newline"
proof -
  have "length (err_text (color_output plain) ''q.c:7  should be true'') < MSG_SIZE - 1"
    by (simp add: err_text_def plain_no_color MSG_SIZE_def)
  from ctest_failure_reported[OF sample_traces(2,4) _ this, of 2 2]
  have "report plain 2 2 sample_fail = test_line 2 2 sample_fail @ fail_line plain @ err_text False ''q.c:7  should be true''"
    by (simp add: plain_no_color)
  moreover have "test_line 2 2 sample_fail = ''TEST 2/2 queue:get ''"
    by (simp add: test_line_def sample_digits sample_defs)
  ultimately show ?thesis by (simp add: fail_line_def color_print_def err_text_def plain_no_color newline_def)
qed

text \<open>The two forms of the macros, for C and for C++, register tests that behave alike.\<close>

lemma ctest2_forms_equal:
  "run_test cfg (CTEST_IMPL_CTEST2 setup teardown sname tname skip d body) r =
    run_test cfg (cxx_CTEST_IMPL_CTEST2 setup teardown sname tname skip d body) r"
proof -
  let ?t = "CTEST_IMPL_CTEST2 setup teardown sname tname skip d body"
    and ?u = "cxx_CTEST_IMPL_CTEST2 setup teardown sname tname skip d body"
  have "trace (phases ?t) (t_data ?t) = trace (phases ?u) (t_data ?u)"
    by (cases "setup"; cases teardown) (simp_all add: CTEST_IMPL_CTEST2_def cxx_CTEST_IMPL_CTEST2_def CTEST_IMPL_STRUCT_def
        phases_def called_def empty_fun_def left_data_def)
  moreover have "test_line i n ?t = test_line i n ?u" "t_skip ?t = t_skip ?u" for i n
    by (simp_all add: test_line_def CTEST_IMPL_CTEST2_def cxx_CTEST_IMPL_CTEST2_def CTEST_IMPL_STRUCT_def)
  ultimately show ?thesis by (simp add: run_test_def run_phases_trace Let_def)
qed

end
