(* ===== verification/CtestNames.thy ===== *)
theory CtestNames
  imports Main
begin

text \<open>
  The identifiers that the macros of \<open>src/ctest.h\<close> paste together from the name of a suite and
  the name of a test (lines 78 to 88), and which of them a registration declares in C. Two
  registrations in one program must not declare the same identifier.
\<close>

section \<open>Pasting\<close>

definition ctest_ident :: "string \<Rightarrow> string" where
  "ctest_ident name = ''ctest_'' @ name"

definition fname :: "string \<Rightarrow> string \<Rightarrow> string" where
  "fname sname tname = ctest_ident (sname @ ''_'' @ tname @ ''_run'')"

definition tname_ident :: "string \<Rightarrow> string \<Rightarrow> string" where
  "tname_ident sname tname = ctest_ident (sname @ ''_'' @ tname)"

definition data_sname :: "string \<Rightarrow> string" where
  "data_sname sname = ctest_ident (sname @ ''_data'')"

definition data_tname :: "string \<Rightarrow> string \<Rightarrow> string" where
  "data_tname sname tname = ctest_ident (sname @ ''_'' @ tname @ ''_data'')"

definition setup_fname :: "string \<Rightarrow> string" where
  "setup_fname sname = ctest_ident (sname @ ''_setup'')"

definition setup_fpname :: "string \<Rightarrow> string" where
  "setup_fpname sname = ctest_ident (sname @ ''_setup_ptr'')"

definition teardown_fname :: "string \<Rightarrow> string" where
  "teardown_fname sname = ctest_ident (sname @ ''_teardown'')"

definition teardown_fpname :: "string \<Rightarrow> string" where
  "teardown_fpname sname = ctest_ident (sname @ ''_teardown_ptr'')"

text \<open>In C++ a test of a suite with data has pointers of its own.\<close>

definition setup_tpname :: "string \<Rightarrow> string \<Rightarrow> string" where
  "setup_tpname sname tname = ctest_ident (sname @ ''_'' @ tname @ ''_setup_ptr'')"

definition teardown_tpname :: "string \<Rightarrow> string \<Rightarrow> string" where
  "teardown_tpname sname tname = ctest_ident (sname @ ''_'' @ tname @ ''_teardown_ptr'')"

text \<open>
  What the macros declare, outside the name space of \<open>struct\<close> tags: \<open>CTEST\<close>; \<open>CTEST2\<close>;
  \<open>CTEST_SETUP\<close>, \<open>CTEST_TEARDOWN\<close> and \<open>CTEST_DATA\<close> of a suite.
\<close>

definition test_idents :: "string \<Rightarrow> string \<Rightarrow> string list" where
  "test_idents sname tname = [fname sname tname, tname_ident sname tname]"

definition test2_idents :: "string \<Rightarrow> string \<Rightarrow> string list" where
  "test2_idents sname tname = data_tname sname tname # test_idents sname tname"

definition suite_idents :: "string \<Rightarrow> string list" where
  "suite_idents sname = [setup_fname sname, setup_fpname sname, teardown_fname sname, teardown_fpname sname]"

definition cxx_test2_idents :: "string \<Rightarrow> string \<Rightarrow> string list" where
  "cxx_test2_idents sname tname = data_tname sname tname # setup_tpname sname tname #
     teardown_tpname sname tname # test_idents sname tname"

lemmas ident_defs = ctest_ident_def fname_def tname_ident_def data_sname_def data_tname_def setup_fname_def
  setup_fpname_def teardown_fname_def teardown_fpname_def setup_tpname_def teardown_tpname_def

section \<open>Clashes\<close>

definition plain_suite :: "string \<Rightarrow> bool" where
  "plain_suite sname \<longleftrightarrow> CHR ''_'' \<notin> set sname"

definition ends_with :: "string \<Rightarrow> string \<Rightarrow> bool" where
  "ends_with e s \<longleftrightarrow> drop (length s - length e) s = e"

definition plain_test :: "string \<Rightarrow> bool" where
  "plain_test tname \<longleftrightarrow> \<not> ends_with ''_run'' tname \<and> \<not> ends_with ''_data'' tname \<and>
     tname \<notin> {''setup'', ''setup_ptr'', ''teardown'', ''teardown_ptr''}"

lemma suite_prefix:
  "plain_suite s \<Longrightarrow> plain_suite s' \<Longrightarrow> s @ CHR ''_'' # x = s' @ CHR ''_'' # y \<longleftrightarrow> s = s' \<and> x = y"
proof (induction s arbitrary: s')
  case Nil
  then show ?case by (cases s') (auto simp: plain_suite_def)
next
  case (Cons c s)
  then show ?case by (cases s') (auto simp: plain_suite_def)
qed

lemma ends_with_append: "ends_with e (s @ e)"
  by (simp add: ends_with_def)

lemma plain_test_suffix: "plain_test t \<Longrightarrow> t \<noteq> u @ ''_run'' \<and> t \<noteq> u @ ''_data''"
  using ends_with_append[of "''_run''" u] ends_with_append[of "''_data''" u] by (auto simp: plain_test_def)

lemma run_is_not_data: "(t @ ''_run'' :: string) \<noteq> u @ ''_data''"
proof
  assume "t @ ''_run'' = u @ ''_data''"
  from arg_cong[OF this, of last] show False by simp
qed

text \<open>
  Two different tests never declare the same identifier, nor does a test declare one of its
  suite, when suite names have no underscore and test names neither end in \<open>_run\<close> or \<open>_data\<close>
  nor are one of the four names the suites use.
\<close>

theorem ctest_names_distinct:
  assumes "plain_suite s" and "plain_suite s'" and "plain_test t" and "plain_test t'"
  shows "((s, t) \<noteq> (s', t') \<longrightarrow> set (test2_idents s t) \<inter> set (test2_idents s' t') = {}) \<and>
    set (test2_idents s t) \<inter> set (suite_idents s') = {}"
proof -
  note parts = suite_prefix[OF assms(1,2)] suite_prefix[OF assms(2,1)]
  have plain: "t \<noteq> u @ ''_run'' \<and> t \<noteq> u @ ''_data''" "t' \<noteq> u @ ''_run'' \<and> t' \<noteq> u @ ''_data''" for u
    using plain_test_suffix[OF assms(3)] plain_test_suffix[OF assms(4)] by auto
  have "set (test2_idents s t) \<inter> set (test2_idents s' t') = {}" if "(s, t) \<noteq> (s', t')"
    using that parts plain(1)[of t'] plain(2)[of t] run_is_not_data[of t t'] run_is_not_data[of t' t]
    by (auto simp: test2_idents_def test_idents_def ident_defs)
  moreover have "set (test2_idents s t) \<inter> set (suite_idents s') = {}"
    using parts assms(3) plain(1)
    by (auto simp: test2_idents_def test_idents_def suite_idents_def ident_defs plain_test_def)
  ultimately show ?thesis by blast
qed

theorem ctest_names_distinct_witness:
  "set (test2_idents ''lusem'' ''wait'') \<inter> set (test2_idents ''lusem'' ''timed_wait'') = {} \<and>
    set (test2_idents ''lusem'' ''wait'') \<inter> set (suite_idents ''lusem'') = {}"
proof -
  have "plain_suite ''lusem''" "plain_test ''wait''" "plain_test ''timed_wait''"
    by (simp_all add: plain_suite_def plain_test_def ends_with_def)
  from ctest_names_distinct[OF this(1,1,2,3)] show ?thesis by simp
qed

text \<open>
  Without these restrictions names clash: the tests \<open>CTEST(a, b_c)\<close> and \<open>CTEST(a_b, c)\<close>
  declare the same two identifiers, and \<open>CTEST2(s, setup)\<close> declares the name of the function
  \<open>CTEST_SETUP(s)\<close> defines.
\<close>

theorem ctest_names_clash:
  "test_idents ''a'' ''b_c'' = test_idents ''a_b'' ''c'' \<and> setup_fname s \<in> set (test2_idents s ''setup'')"
  by (simp add: test2_idents_def test_idents_def ident_defs)

end
