(* ===== verification/Spec2Isabelle.thy ===== *)
theory Spec2Isabelle
  imports ThpoolCreate ThpoolCalls ThpoolTasks ThpoolTotal ThpoolWriters LfthpoolCreate LfthpoolEnds
    LfthpoolTasks LfthpoolPause UsemForms SemBenchProps CtestProps CtestNames
begin

text \<open>
  libthreads: two thread pools, a lightweight semaphore, a semaphore wrapper, a condition
  variable wrapper and a barrier, in C over POSIX threads. This development models them as
  concurrent programs and proves what they promise, what they do not, and where they fail.
  Paths below are those of the repository, which has its library in \<open>src/threads\<close> and
  \<open>include/threads\<close>.

  How programs become definitions. A function of the library is a step function over its own
  program points, a datatype. A step is one statement that touches shared state: an atomic
  access, a pthread call, or the statements of a critical section on the fields the mutex
  protects. The step returns the new state and the next program point or the value returned,
  or \<open>None\<close> when the thread is blocked. A system is the shared state and the program point of
  every thread; an event lets one thread make a step, lets a client call a function, or wakes
  a blocked thread spuriously. Nothing restricts the order of events. \<open>reach\<close> and \<open>run\<close> of
  \<open>Prelude\<close> give the reachable states and the executions of concrete lists of events. Fields
  with no counterpart in the C structures are history (tasks accepted, run and so on) or what
  the kernel knows (which threads have returned, who waits on a condition variable). Machine
  integers keep their width: \<open>size_t\<close> and addresses are 64-bit words, the barrier's counters
  32-bit words, \<open>ssize_t\<close> an integer wrapped by \<open>ssize\<close>.

  The theories, and the code they model:
  \<^item> \<open>Prelude\<close>: machine types, threads, transition systems with the locales \<open>safety\<close> (an
    invariant holds in every reachable state), \<open>frozen_observation\<close> (what a whole run cannot
    change), \<open>draining_steps\<close> and \<open>bounded_steps\<close> (how many steps a thread can make) and
    \<open>functional_simulation\<close> (one system computes another), sums over threads, mutexes and
    condition variables, the locale \<open>bounded_fifo\<close>.
  \<^item> \<open>Ring\<close>: the circular queue in \<open>struct thpool\<close>; it satisfies \<open>bounded_fifo\<close>.
  \<^item> \<open>TaskPool\<close>: the abstract bounded task pool both pools are compared with, and the history
    that explains a state of it.
  \<^item> \<open>Thpool\<close>: \<open>src/threads/thpool.c\<close> but creation. One record \<open>pool\<close> for \<open>struct thpool\<close>;
    \<open>worker_step\<close> for \<open>_thpool_worker\<close>, \<open>try_once_step\<close>, \<open>add_task_step\<close>, \<open>add_try_step\<close>,
    \<open>misc_step\<close>, \<open>wait_step\<close> and \<open>shutdown_step\<close> for the API.
  \<^item> \<open>ThpoolInv\<close>: its invariant, one clause per concern, and that every step keeps it.
    \<open>ThpoolLive\<close>: wake-ups and paused pools. \<open>ThpoolSpec\<close>: the refinement of \<open>TaskPool\<close>.
    \<open>ThpoolProps\<close>: the properties. \<open>ThpoolQuiet\<close>: states in which nothing can move.
    \<open>ThpoolWait\<close>: a pool with one waiting thread. \<open>ThpoolCalls\<close>: whole calls, run to their end.
    \<open>ThpoolCreate\<close>: \<open>thpool_create\<close> with every failure, and that the fields and objects a
    successful creation leaves make up an initial state of \<open>Thpool\<close>.
  \<^item> \<open>Lfthpool\<close>: \<open>src/threads/lfthpool.c\<close> but creation, with the heap blocks of its tasks. Its
    queue is \<open>mpmc_ring_queue\<close> of another library, so the queue's operations are a parameter
    and the locale \<open>mpmc_queue\<close> of \<open>LfthpoolInv\<close> states what the code relies on: enqueueing,
    dequeueing and deleting take effect at one point each, in first-in first-out order. Nothing is
    assumed of the length \<open>mpmc_ring_queue_len_relaxed\<close> reports, except in the one property that
    needs it, by the locale \<open>counted_queue\<close>: a queue that holds something does not report 0. The
    ring of \<open>Ring\<close>, holding pointers, satisfies both.
    \<open>LfthpoolSafe\<close>: the invariant, proved inside that locale. \<open>LfthpoolProps\<close>,
    \<open>LfthpoolSpec\<close> (refinement of \<open>TaskPool\<close>), \<open>LfthpoolCalls\<close> (whole calls),
    \<open>LfthpoolCreate\<close>: the properties, creation and its link to the initial states.
    \<open>LfthpoolEnds\<close>: a shutdown comes to its end, a wait after it need not.
  \<^item> \<open>NestedCalls\<close>: a pool whose tasks call the pool themselves, as a composition: the call of a
    task is the call of a stand-in client, and the thread that runs the task does not move until
    it returns. The locales \<open>task_caller\<close>, \<open>chained_caller\<close> and \<open>hanging_call\<close> state what the
    composition needs of a pool and of a call that cannot return to a task. \<open>ThpoolTasks\<close> and
    \<open>LfthpoolTasks\<close> interpret them on the two pools.
  \<^item> \<open>ClientProgram\<close>: a single-threaded program over a pool, with the assertions of
    \<open>src/ctest.h\<close>. \<open>ThpoolClient\<close>: a sequential prediction of such a program over the locking
    pool, proved sound against every interleaving with the workers. \<open>ThpoolTests\<close>: the tests of
    \<open>src/threads/test/thpool\<close> as programs, predicted to pass. \<open>ThpoolEnds\<close>: the steps a pool
    that is not paused can make before it comes to rest. \<open>ThpoolTotal\<close>: programs that do not
    pause the pool end. \<open>ThpoolWriters\<close>: the test with several writer threads, and how often a
    call that fails has found the queue full.
    \<open>LfthpoolTests\<close>: the tests of \<open>src/threads/test/lfthpool\<close> with one client, and schedules in
    which they fail. \<open>LfthpoolPause\<close>: what a pause of the lock-free pool guarantees.
  \<^item> \<open>Usem\<close>: \<open>include/threads/usem.h\<close>, the POSIX form. The loops that repeat interrupted calls
    are partial functions, so that not returning is the value \<open>None\<close>; the arithmetic of the
    deadline is written out in 64 bits. \<open>UsemForms\<close>: the macOS form over the dispatch
    semaphores of the system, which are a parameter with the locale \<open>dispatch_semaphore\<close>, and the
    equivalence of the two forms. \<open>UsemSteps\<close>: the POSIX form as steps of concurrent threads, with
    a ledger of the units promised, given and got and of what each call returns.
  \<^item> \<open>Lusem\<close>, \<open>LusemProps\<close>, \<open>LusemSpec\<close>: \<open>include/threads/lusem.h\<close> and \<open>src/threads/lusem.c\<close>,
    their properties, and the refinement of a counting semaphore.
  \<^item> \<open>Barrier\<close>, \<open>BarrierProps\<close>, \<open>BarrierSpec\<close>: \<open>src/pthread_barrier.c\<close>, its properties, and
    the refinement of a cyclic barrier.
  \<^item> \<open>Psem\<close>: \<open>include/threads/psem.h\<close>, and \<open>src/threads/utils.c\<close>.
  \<^item> \<open>Semaphore\<close>: a counting semaphore, which \<open>LusemSpec\<close> and \<open>UsemSteps\<close> compare the code
    with, and the locale \<open>semaphore\<close> of what a program that waits and signals relies on.
    \<open>SemBench\<close>: the benchmark in the tests of the three semaphores, over any semaphore.
    \<open>SemRest\<close>: its states in which nothing can move, inside that locale. \<open>SemBenchProps\<close>: the
    locale holds for \<open>lusem\<close>, \<open>usem\<close> and \<open>psem\<close>; what the benchmark checks, and that it does
    not deadlock.
  \<^item> \<open>CtestBuffer\<close>, \<open>CtestAssert\<close>, \<open>Ctest\<close>, \<open>CtestProps\<close>: the test runner \<open>src/ctest.h\<close>: the
    message buffer byte by byte, the assertions as functions to the message they print, the
    registration, selection and running of tests with all that is printed, and its properties.
    \<open>CtestNames\<close>: the identifiers its macros paste together, and when they clash.

  What the lemmas show. For both pools: the concurrent program refines the same bounded task
  pool; no task is lost, duplicated or reordered; a task that is added is run by a worker that
  runs alone; the functions that try a number of times end. For the locking pool: in a
  state where nothing can move, everything has been done, apart from the cases below;
  \<open>thpool_wait\<close> returns only when all accepted tasks have run; shutdown drains the queue; and
  four ways it goes wrong: a second waiter is never woken, nor one that waits for a task run by
  \<open>thpool_worker_try_once\<close>, shutting down a paused pool hangs, and the error path of creation
  is undefined behaviour. A lone waiter is always woken; a client that is alone with the workers
  can be understood sequentially, and the tests of the repository pass in every interleaving.
  A pool that is not paused comes to rest in a bounded number of steps, so programs over it that
  do not pause it are totally correct, \<open>wait_jobs\<close> of the tests among them.
  Tasks may call the pool they run in, but for \<open>thpool_shutdown\<close> and \<open>thpool_destroy\<close>: such a run
  is still a run of the pool, and the one call that can keep a task for ever is \<open>thpool_wait\<close>,
  which then waits for the task itself. For the lock-free pool: until its queue is deleted each
  task block has one owner and is freed once, shutdown ends and abandons what is queued, so that
  a later wait polls for ever, a pause lets through one task for each worker that had just tested
  for it, and when \<open>lfthpool_wait\<close> returns, every task taken out of the queue has run but those
  whose worker has not counted itself yet, a window the tests of the repository can fall into. For the lightweight semaphore: an exact balance of units and the refinement of
  a counting semaphore, from which safety for initial count 0 and the error for a positive
  initial count follow, and a bound on its spinning. For the barrier: no early return, one
  serial thread per round, nobody left behind. For the semaphore wrapper: both forms do the
  same on every sequence of calls, and with several threads it is a counting semaphore whose
  calls never report an interruption and whose units add up. The
  benchmark of the semaphores cannot deadlock, and its check cannot fail. For the test runner: what is printed, when a message is
  printed whole, cut or lost, and exactly which messages write outside the buffer.

  Bounds. Thread identifiers have 32 bits in each of two kinds, so at most 2^33 threads take
  part; the counters of running threads therefore never wrap. A pool has at most 2^32 workers.
  The properties of the lightweight semaphore hold while fewer than 2^62 units have been
  signalled, which keeps its count in 64 bits. Bounded loops need no fuel: a loop of the code
  is a cycle of program points.

  The parameters of the model, besides the queue and the dispatch semaphores: the results of
  allocations and pthread calls, floating-point arithmetic and the printing of floating-point
  numbers and wide strings in the assertions of the test runner, and the clock.

  Not modelled. Atomic accesses are sequentially consistent: the weaker orders the code names
  are not. A task does not shut down or destroy the pool it runs in: the worker would join
  itself, for which POSIX allows an error or a deadlock. Clients are not kept from using a freed
  pool; the properties for which that matters say so. Sleeping and yielding are steps that do
  nothing. A test that writes outside the message buffer is undefined behaviour; the model only
  records that it happened. Build configuration, the benchmarks of the pools, and those tests of the
  semaphores that measure time are left out; so are the creation of threads and the report in
  the benchmark of the semaphores, the tests of both pools with
  several writer threads, but for what the writers and the main thread do in that of the locking
  pool. Fairness is not assumed: liveness
  properties say who is able to move, not that it does, and bounds on the steps of a whole
  pool exclude spurious wake-ups, of which there may be any number.
\<close>

end
